(* ===== verification/Prelude.thy ===== *)
theory Prelude
  imports Main "HOL-Library.Word"
begin

text \<open>
  Shared vocabulary of the kernel model: the C integer types of \<^verbatim>\<open>include/types.h\<close> as
  words, the error numbers, the alignment macros, results of code that can panic, counted
  loops, and byte-addressed memory with little-endian multi-byte access.  The lemmas are the
  generic facts about words, loops and memory that the component theories share.
\<close>

unbundle bit_operations_syntax

section \<open>C types\<close>

type_synonym u8 = "8 word"
type_synonym u16 = "16 word"
type_synonym u32 = "32 word"
type_synonym u64 = "64 word"
type_synonym memory = "u64 \<Rightarrow> u8"

named_theorems frame_simps
named_theorems inv_intros

abbreviation PAGE_SIZE :: u64 where "PAGE_SIZE \<equiv> 4096"

text \<open>Error numbers of \<^verbatim>\<open>types.h\<close>; a C function returns the negated number.\<close>

definition ESRCH :: int where "ESRCH = 3"
definition ENOMEM :: int where "ENOMEM = 12"
definition EINVAL :: int where "EINVAL = 22"
definition ENOSYS :: int where "ENOSYS = 38"

lemmas errno_defs = ESRCH_def ENOMEM_def EINVAL_def ENOSYS_def

section \<open>Alignment and bits\<close>

definition ALIGN_UP :: "u64 \<Rightarrow> u64 \<Rightarrow> u64" where
  "ALIGN_UP x a = (x + a - 1) AND NOT (a - 1)"

definition PAGE_ALIGN :: "u64 \<Rightarrow> u64" where
  "PAGE_ALIGN x = ALIGN_UP x PAGE_SIZE"

definition BIT_ULL :: "nat \<Rightarrow> u64" where
  "BIT_ULL n = push_bit n 1"

lemma unat_take_bit:
  fixes x :: "'a::len word"
  shows "unat (take_bit n x) = unat x mod 2 ^ n"
  by (simp only: unsigned_take_bit_eq) (simp add: take_bit_eq_mod)

lemma unat_and_not_mask:
  fixes x :: "'a::len word"
  shows "unat (x AND NOT (mask n)) = unat x div 2 ^ n * 2 ^ n"
proof -
  have "x = (x AND NOT (mask n)) + take_bit n x"
    by (rule trans [OF _ disjunctive_add [symmetric]]) (auto intro!: bit_eqI simp: bit_simps)
  then have "x AND NOT (mask n) = x - take_bit n x"
    by (simp add: algebra_simps)
  moreover have "take_bit n x \<le> x"
    by (simp add: word_le_nat_alt unat_take_bit)
  ultimately have "unat (x AND NOT (mask n)) = unat x - unat x mod 2 ^ n"
    by (simp add: unat_sub unat_take_bit)
  then show ?thesis by (simp add: minus_mod_eq_div_mult)
qed

lemma unat_2p: "n < LENGTH('a) \<Longrightarrow> unat (2 ^ n :: 'a::len word) = 2 ^ n"
proof -
  assume "n < LENGTH('a)"
  then have "unat (of_nat (2 ^ n) :: 'a word) = 2 ^ n"
    by (simp only: unat_of_nat) simp
  then show ?thesis by simp
qed

lemma unat_of_nat_u64: "n < 2 ^ 64 \<Longrightarrow> unat (of_nat n :: u64) = n"
  by (simp add: unat_of_nat)

lemma word_eq_of_nat: "unat w = n \<Longrightarrow> w = of_nat n" for w :: u64
  by auto

lemma unat_less_u64: "unat (x :: u64) < 2 ^ 64"
  using unsigned_less [of x] by simp

lemma unat_add_u64: "unat x + unat y < 2 ^ 64 \<Longrightarrow> unat (x + y) = unat x + unat y" for x y :: u64
  by (simp add: unat_word_ariths)

lemma unat_mult_u64: "unat x * unat y < 2 ^ 64 \<Longrightarrow> unat (x * y) = unat x * unat y" for x y :: u64
  by (simp add: unat_word_ariths)

lemma unat_ucast_32 [simp]: "unat (ucast (x :: u32) :: u64) = unat x"
proof -
  have "unat x < 2 ^ 32" using unsigned_less [where ?'a = nat, of x] by simp
  then have "unat x < 2 ^ 64" by simp
  then show ?thesis by (simp add: unsigned_ucast_eq take_bit_nat_eq_self_iff)
qed

lemma mask_sub_one: "(2 ^ n - 1 :: 'a::len word) = mask n"
  by (simp add: mask_eq_decr_exp)

lemma unat_ALIGN_UP:
  assumes "a = 2 ^ n" "n < 64" "unat x + 2 ^ n \<le> 2 ^ 64"
  shows "unat (ALIGN_UP x a) = (unat x + 2 ^ n - 1) div 2 ^ n * 2 ^ n"
proof -
  have a: "unat a = 2 ^ n"
    using assms(1,2) by (simp add: unat_2p)
  have "x + a - 1 = of_nat (unat x + 2 ^ n - 1)"
  proof -
    have "of_nat (unat x + 2 ^ n - 1) = (of_nat (unat x + 2 ^ n) - of_nat 1 :: u64)"
      by (rule of_nat_diff) (simp add: trans_le_add2)
    then show ?thesis using assms(1) by simp
  qed
  then have "unat (x + a - 1) = unat x + 2 ^ n - 1"
    using assms(3) by (simp add: unat_of_nat)
  then show ?thesis
    unfolding ALIGN_UP_def using assms(1) by (simp add: mask_sub_one unat_and_not_mask)
qed

lemma dvd_ALIGN_UP:
  assumes "a = 2 ^ n"
  shows "2 ^ n dvd unat (ALIGN_UP x a)"
  using assms by (simp add: ALIGN_UP_def mask_sub_one unat_and_not_mask)

section \<open>Results of code that can stop the machine\<close>

text \<open>
  \<^verbatim>\<open>panic()\<close> (\<^verbatim>\<open>kernel/lib/serial.c\<close>) disables interrupts, prints its message and halts for
  ever: an operation that reaches it has no result, only the message it stopped with.
\<close>

datatype fault = Panic string

type_synonym 'a result = "fault + 'a"

fun try_then :: "'a result \<Rightarrow> ('a \<Rightarrow> 'b result) \<Rightarrow> 'b result" where
  "try_then (Inl e) f = Inl e"
| "try_then (Inr a) f = f a"

lemma try_then_Inr_iff:
  "try_then m f = Inr r \<longleftrightarrow> (\<exists>a. m = Inr a \<and> f a = Inr r)"
  by (cases m) auto

lemma try_then_InrE:
  assumes "try_then m f = Inr r"
  obtains a where "m = Inr a" "f a = Inr r"
  using assms by (auto simp: try_then_Inr_iff)

section \<open>Counted loops\<close>

text \<open>\<open>for_upto n f s\<close> is \<^verbatim>\<open>for (i = 0; i < n; i++) s = f(i, s);\<close> with no early exit.\<close>

definition for_upto :: "nat \<Rightarrow> (nat \<Rightarrow> 's \<Rightarrow> 's) \<Rightarrow> 's \<Rightarrow> 's" where
  "for_upto n f s = fold f [0..<n] s"

lemma for_upto_0 [simp]: "for_upto 0 f s = s"
  by (simp add: for_upto_def)

lemma for_upto_Suc [simp]: "for_upto (Suc n) f s = f n (for_upto n f s)"
  by (simp add: for_upto_def)

lemma for_upto_invariant:
  assumes "P 0 s" and "\<And>i t. i < n \<Longrightarrow> P i t \<Longrightarrow> P (Suc i) (f i t)"
  shows "P n (for_upto n f s)"
  using assms by (induction n) auto

lemma for_upto_cong:
  assumes "\<And>i t. i < n \<Longrightarrow> f i t = g i t"
  shows "for_upto n f s = for_upto n g s"
  using assms by (induction n) auto

section \<open>Byte-addressed memory, little-endian\<close>

primrec load_le :: "nat \<Rightarrow> memory \<Rightarrow> u64 \<Rightarrow> u64" where
  "load_le 0 m a = 0"
| "load_le (Suc n) m a = ucast (m a) OR push_bit 8 (load_le n m (a + 1))"

primrec store_le :: "nat \<Rightarrow> memory \<Rightarrow> u64 \<Rightarrow> u64 \<Rightarrow> memory" where
  "store_le 0 m a v = m"
| "store_le (Suc n) m a v = store_le n (m(a := ucast v)) (a + 1) (drop_bit 8 v)"

definition load64 :: "memory \<Rightarrow> u64 \<Rightarrow> u64" where
  "load64 m a = load_le 8 m a"

definition store64 :: "memory \<Rightarrow> u64 \<Rightarrow> u64 \<Rightarrow> memory" where
  "store64 m a v = store_le 8 m a v"

definition load32 :: "memory \<Rightarrow> u64 \<Rightarrow> u32" where
  "load32 m a = ucast (load_le 4 m a)"

definition load16 :: "memory \<Rightarrow> u64 \<Rightarrow> u16" where
  "load16 m a = ucast (load_le 2 m a)"

text \<open>The \<open>n\<close> bytes from address \<open>a\<close> on, and a byte-wise copy.\<close>

definition read_bytes :: "memory \<Rightarrow> u64 \<Rightarrow> nat \<Rightarrow> u8 list" where
  "read_bytes m a n = map (\<lambda>i. m (a + of_nat i)) [0..<n]"

primrec write_bytes :: "memory \<Rightarrow> u64 \<Rightarrow> u8 list \<Rightarrow> memory" where
  "write_bytes m a [] = m"
| "write_bytes m a (b # bs) = write_bytes (m(a := b)) (a + 1) bs"

lemma length_read_bytes [simp]: "length (read_bytes m a n) = n"
  by (simp add: read_bytes_def)

lemma nth_read_bytes [simp]: "i < n \<Longrightarrow> read_bytes m a n ! i = m (a + of_nat i)"
  by (simp add: read_bytes_def)

lemma bit_load_le:
  "bit (load_le n m a) i \<longleftrightarrow> i < 8 * n \<and> i < 64 \<and> bit (m (a + of_nat (i div 8))) (i mod 8)"
proof (induction n arbitrary: a i)
  case 0
  then show ?case by simp
next
  case (Suc n)
  show ?case
  proof (cases "i < 8")
    case True
    then show ?thesis by (simp add: bit_simps Suc.IH)
  next
    case False
    then obtain j where i: "i = j + 8" by (metis le_add_diff_inverse2 not_less)
    have "\<not> bit (m a) i" using False by (auto dest: bit_imp_le_length)
    have "(j + 8) div 8 = Suc (j div 8)" by simp
    then have "a + of_nat ((j + 8) div 8) = a + 1 + of_nat (j div 8)"
      by (simp only: of_nat_Suc) (simp add: ac_simps)
    then show ?thesis using i \<open>\<not> bit (m a) i\<close>
      by (auto simp add: bit_simps Suc.IH add.assoc)
  qed
qed

lemma unat_minus_Suc:
  fixes x a :: u64
  assumes "x \<noteq> a"
  shows "unat (x - a) = Suc (unat (x - (a + 1)))"
proof -
  have d: "x - (a + 1) = (x - a) - 1" by simp
  have nz: "x - a \<noteq> 0" using assms by simp
  then have "0 < unat (x - a)" by (simp only: unat_gt_0 not_False_eq_True)
  moreover have "unat (x - (a + 1)) = unat (x - a) - 1"
    unfolding d using nz by (rule unat_minus_one)
  ultimately show ?thesis by linarith
qed

lemma store_le_apply:
  "n \<le> 2 ^ 64 \<Longrightarrow> store_le n m a v x =
     (if unat (x - a) < n then ucast (drop_bit (8 * unat (x - a)) v) else m x)"
proof (induction n arbitrary: m a v)
  case 0
  then show ?case by simp
next
  case (Suc n)
  show ?case
  proof (cases "x = a")
    case True
    have "unat (- 1 :: u64) = 2 ^ 64 - 1"
      by (simp add: unsigned_minus_1_eq_mask mask_eq_exp_minus_1)
    with True Suc show ?thesis by simp
  next
    case False
    with Suc show ?thesis
      by (simp add: unat_minus_Suc drop_bit_drop_bit add.commute)
  qed
qed

lemma write_bytes_apply:
  "length bs \<le> 2 ^ 64 \<Longrightarrow> write_bytes m a bs x =
     (if unat (x - a) < length bs then bs ! unat (x - a) else m x)"
proof (induction bs arbitrary: m a)
  case Nil
  then show ?case by simp
next
  case (Cons b bs)
  show ?case
  proof (cases "x = a")
    case True
    have "unat (- 1 :: u64) = 2 ^ 64 - 1"
      by (simp add: unsigned_minus_1_eq_mask mask_eq_exp_minus_1)
    with True Cons show ?thesis by simp
  next
    case False
    with Cons show ?thesis by (simp add: unat_minus_Suc)
  qed
qed

text \<open>Reading back what was stored, and reading away from it.\<close>

lemma load_le_cong:
  assumes "\<And>i. i < n \<Longrightarrow> m (a + of_nat i) = m' (a + of_nat i)"
  shows "load_le n m a = load_le n m' a"
proof (rule bit_eqI)
  fix i
  show "bit (load_le n m a) i = bit (load_le n m' a) i"
    using assms [of "i div 8"] by (cases "i < 8 * n") (auto simp: bit_load_le)
qed

lemma load64_store64_same [simp]: "load64 (store64 m a v) a = v"
proof (rule bit_eqI)
  fix i :: nat
  assume "possible_bit TYPE(64 word) i"
  then have i: "i < 64" by simp
  have d: "unat (of_nat (i div 8) :: u64) = i div 8"
    using i by (simp add: unat_of_nat)
  have "i div 8 < 8" using i by simp
  then have "bit (load64 (store64 m a v) a) i \<longleftrightarrow> bit v (8 * (i div 8) + i mod 8)"
    using i d by (simp add: load64_def store64_def bit_load_le store_le_apply bit_simps)
  then show "bit (load64 (store64 m a v) a) i = bit v i" by simp
qed

definition aligned8 :: "u64 \<Rightarrow> bool" where
  "aligned8 a \<longleftrightarrow> 8 dvd unat a"

lemma dvd8_unat_diff:
  assumes "aligned8 a" "aligned8 b"
  shows "8 dvd unat (b - a)"
proof -
  have "8 dvd unat b - unat a" "8 dvd unat b + 2 ^ 64 - unat a"
    using assms by (auto simp: aligned8_def intro!: dvd_diff_nat dvd_add)
  then show ?thesis
    by (simp add: unat_sub_if' )
qed

lemma dvd8_add_small:
  fixes d :: u64
  assumes "8 dvd unat d" "i < 8"
  shows "unat (d + of_nat i) = unat d + i"
proof -
  have "unat d + i < 2 ^ 64"
  proof -
    have "unat d < 2 ^ 64" by (simp add: unsigned_less [where 'a = nat and 'b = 64, simplified])
    moreover obtain k where "unat d = 8 * k" using assms(1) by (rule dvdE)
    ultimately show ?thesis using assms(2) by simp
  qed
  then show ?thesis by (simp add: unat_word_ariths unat_of_nat)
qed

lemma load64_store64_other:
  assumes "aligned8 a" "aligned8 b" "a \<noteq> b"
  shows "load64 (store64 m a v) b = load64 m b"
  unfolding load64_def store64_def
proof (rule load_le_cong)
  fix i :: nat
  assume i: "i < 8"
  have "b + of_nat i - a = (b - a) + of_nat i" by simp
  then have "unat (b + of_nat i - a) = unat (b - a) + i"
    using dvd8_add_small [OF dvd8_unat_diff [OF assms(1,2)] i] by (simp only:)
  moreover have "unat (b - a) \<noteq> 0" using assms(3) by (simp add: unat_eq_0)
  moreover have "8 dvd unat (b - a)" by (rule dvd8_unat_diff [OF assms(1,2)])
  ultimately have "8 \<le> unat (b + of_nat i - a)"
    by (metis dvd_imp_le gr0I trans_le_add1)
  then show "store_le 8 m a v (b + of_nat i) = m (b + of_nat i)"
    by (simp add: store_le_apply)
qed

lemma load64_store64:
  "aligned8 a \<Longrightarrow> aligned8 b \<Longrightarrow> load64 (store64 m a v) b = (if a = b then v else load64 m b)"
  by (simp add: load64_store64_other)

lemma store64_apply_other:
  "8 \<le> unat (x - a) \<Longrightarrow> store64 m a v x = m x"
  by (simp add: store64_def store_le_apply)

end
