(* ===== verification/Console.thy ===== *)
theory Console
  imports Prelude
begin

text \<open>
  The kernel's output devices: the COM1 serial port (\<^verbatim>\<open>kernel/lib/serial.c\<close>), the VGA text
  screen (\<^verbatim>\<open>kernel/arch/x86_64/vga.c\<close>) and the formatted print \<^verbatim>\<open>kprintf\<close> over both.
  A port write is an event in the list \<open>outs\<close>; the video memory at \<^verbatim>\<open>0xB8000\<close> is a map from
  cell index to the 16-bit cell, indexed by the C \<^verbatim>\<open>int\<close> the code computes.
\<close>

section \<open>State\<close>

record console =
  outs :: "(u16 \<times> u8) list"
  vmem :: "int \<Rightarrow> u16"
  vga_row :: int
  vga_col :: int
  vga_attr :: u8

record con_state =
  con :: console

abbreviation VGA_COLS :: int where "VGA_COLS \<equiv> 80"
abbreviation VGA_ROWS :: int where "VGA_ROWS \<equiv> 25"
abbreviation COM1 :: u16 where "COM1 \<equiv> 0x3F8"

definition outb :: "u16 \<Rightarrow> u8 \<Rightarrow> console \<Rightarrow> console" where
  "outb port val c = c\<lparr>outs := outs c @ [(port, val)]\<rparr>"

section \<open>Serial port\<close>

definition serial_init :: "console \<Rightarrow> console" where
  "serial_init c =
     outb (COM1 + 4) 0x0B (outb (COM1 + 2) 0xC7 (outb (COM1 + 3) 0x03 (outb (COM1 + 1) 0x00
       (outb (COM1 + 0) 0x03 (outb (COM1 + 3) 0x80 (outb (COM1 + 1) 0x00 c))))))"

definition serial_ready :: "u8 \<Rightarrow> bool" where
  "serial_ready lsr \<longleftrightarrow> lsr AND 0x20 \<noteq> 0"

text \<open>
  The polling loop reads the line status register until the transmitter is empty.  The
  register's successive values are the device's choice, a function \<open>lsr\<close> of the number of
  reads so far; a transmitter that never becomes ready makes the loop spin for ever (\<open>None\<close>).
\<close>

partial_function (option) serial_wait :: "(nat \<Rightarrow> u8) \<Rightarrow> nat \<Rightarrow> nat option" where
  "serial_wait lsr i = (if serial_ready (lsr i) then Some (Suc i) else serial_wait lsr (Suc i))"

definition serial_putc_poll ::
  "(nat \<Rightarrow> u8) \<Rightarrow> nat \<Rightarrow> u8 \<Rightarrow> console \<Rightarrow> (nat \<times> console) option" where
  "serial_putc_poll lsr i ch c =
     (case serial_wait lsr i of None \<Rightarrow> None
      | Some j \<Rightarrow>
          let c1 = outb COM1 ch c in
          if ch = 10 then
            (case serial_wait lsr j of None \<Rightarrow> None
             | Some k \<Rightarrow> Some (k, outb COM1 13 c1))
          else Some (j, c1))"

text \<open>The same output with the waiting left out; \<open>serial_putc_poll_total\<close> below relates them.\<close>

definition serial_putc :: "u8 \<Rightarrow> console \<Rightarrow> console" where
  "serial_putc ch c =
     (let c1 = outb COM1 ch c in if ch = 10 then outb COM1 13 c1 else c1)"

definition serial_puts :: "u8 list \<Rightarrow> console \<Rightarrow> console" where
  "serial_puts s c = fold serial_putc s c"

section \<open>VGA text screen\<close>

definition VGA_COLOR :: "u8 \<Rightarrow> u8 \<Rightarrow> u8" where
  "VGA_COLOR fg bg = push_bit 4 bg OR fg"

definition VGA_ENTRY :: "u8 \<Rightarrow> u8 \<Rightarrow> u16" where
  "VGA_ENTRY ch attr = push_bit 8 (ucast attr) OR ucast ch"

definition vga_update_cursor :: "int \<Rightarrow> int \<Rightarrow> console \<Rightarrow> console" where
  "vga_update_cursor row col c =
     (let pos = (word_of_int (row * VGA_COLS + col) :: u16) in
      outb 0x3D5 (ucast (drop_bit 8 pos AND 0xFF)) (outb 0x3D4 0x0E
        (outb 0x3D5 (ucast (pos AND 0xFF)) (outb 0x3D4 0x0F c))))"

definition vga_set :: "int \<Rightarrow> u16 \<Rightarrow> console \<Rightarrow> console" where
  "vga_set i v c = c\<lparr>vmem := (vmem c)(i := v)\<rparr>"

definition vga_clear :: "console \<Rightarrow> console" where
  "vga_clear c =
     (let blank = VGA_ENTRY 32 (vga_attr c);
          c1 = for_upto (nat (VGA_COLS * VGA_ROWS)) (\<lambda>i. vga_set (int i) blank) c
      in vga_update_cursor 0 0 (c1\<lparr>vga_row := 0, vga_col := 0\<rparr>))"

definition vga_init :: "console \<Rightarrow> console" where
  "vga_init c = vga_clear (c\<lparr>vga_attr := VGA_COLOR 7 0\<rparr>)"

definition scroll_rows :: "nat \<Rightarrow> console \<Rightarrow> console" where
  "scroll_rows n = for_upto n (\<lambda>k. for_upto (nat VGA_COLS) (\<lambda>j c.
     let r = int k + 1 in
     vga_set ((r - 1) * VGA_COLS + int j) (vmem c (r * VGA_COLS + int j)) c))"

definition vga_scroll :: "console \<Rightarrow> console" where
  "vga_scroll c =
     (let c1 = scroll_rows (nat (VGA_ROWS - 1)) c;
          blank = VGA_ENTRY 32 (vga_attr c1);
          c2 = for_upto (nat VGA_COLS)
                 (\<lambda>j. vga_set ((VGA_ROWS - 1) * VGA_COLS + int j) blank) c1
      in c2\<lparr>vga_row := VGA_ROWS - 1\<rparr>)"

definition vga_put :: "u8 \<Rightarrow> console \<Rightarrow> console" where
  "vga_put ch c =
     (if ch = 10 then c\<lparr>vga_col := 0, vga_row := vga_row c + 1\<rparr>
      else if ch = 13 then c\<lparr>vga_col := 0\<rparr>
      else if ch = 9 then c\<lparr>vga_col := (vga_col c + 8) AND NOT 7\<rparr>
      else if ch = 8 then (if vga_col c > 0 then c\<lparr>vga_col := vga_col c - 1\<rparr> else c)
      else
        let c1 = vga_set (vga_row c * VGA_COLS + vga_col c) (VGA_ENTRY ch (vga_attr c)) c;
            c2 = c1\<lparr>vga_col := vga_col c1 + 1\<rparr>
        in if vga_col c2 \<ge> VGA_COLS then c2\<lparr>vga_col := 0, vga_row := vga_row c2 + 1\<rparr> else c2)"

definition vga_putc :: "u8 \<Rightarrow> console \<Rightarrow> console" where
  "vga_putc ch c =
     (let c1 = vga_put ch c;
          c2 = (if vga_row c1 \<ge> VGA_ROWS then vga_scroll c1 else c1)
      in vga_update_cursor (vga_row c2) (vga_col c2) c2)"

definition vga_puts :: "u8 list \<Rightarrow> console \<Rightarrow> console" where
  "vga_puts s c = fold vga_putc s c"

section \<open>Formatted printing\<close>

text \<open>
  \<^verbatim>\<open>kprintf\<close>'s arguments are 64-bit values or strings (\<open>None\<close> for a null pointer).  The
  digit loop of \<^verbatim>\<open>print_uint\<close> is only ever called with bases 10 and 16; its guard on smaller
  bases, where the C loop would not end, makes the definition total.
\<close>

datatype karg = Num u64 | Str "u8 list option"

definition kputc :: "u8 \<Rightarrow> console \<Rightarrow> console" where
  "kputc ch c = vga_putc ch (serial_putc ch c)"

definition bytes_of :: "string \<Rightarrow> u8 list" where
  "bytes_of s = map of_char s"

definition digit_char :: "nat \<Rightarrow> u8" where
  "digit_char d = bytes_of ''0123456789abcdef'' ! d"

fun digits_loop :: "nat \<Rightarrow> nat \<Rightarrow> u8 list" where
  "digits_loop b n =
     (if n = 0 \<or> b < 2 then [] else digit_char (n mod b) # digits_loop b (n div b))"

declare digits_loop.simps [simp del]

definition print_uint :: "u64 \<Rightarrow> nat \<Rightarrow> nat \<Rightarrow> u8 \<Rightarrow> u8 list" where
  "print_uint n base width pad =
     (let buf = (if n = 0 then [digit_char 0] else digits_loop base (unat n))
      in replicate (width - length buf) pad @ rev buf)"

definition print_int :: "u64 \<Rightarrow> u8 list" where
  "print_int n = (if n <s 0 then of_char (CHR ''-'') # print_uint (- n) 10 0 32
                  else print_uint n 10 0 32)"

definition kstr :: "u8 list option \<Rightarrow> u8 list" where
  "kstr s = (case s of None \<Rightarrow> bytes_of ''(null)'' | Some bs \<Rightarrow> bs)"

definition kconv :: "char \<Rightarrow> nat \<Rightarrow> u8 \<Rightarrow> karg list \<Rightarrow> (u8 list \<times> karg list) option" where
  "kconv d width pad args =
     (if d = CHR ''d'' then
        (case args of Num n # as \<Rightarrow> Some (print_int n, as) | _ \<Rightarrow> None)
      else if d = CHR ''u'' then
        (case args of Num n # as \<Rightarrow> Some (print_uint n 10 width pad, as) | _ \<Rightarrow> None)
      else if d = CHR ''x'' then
        (case args of Num n # as \<Rightarrow> Some (print_uint n 16 width pad, as) | _ \<Rightarrow> None)
      else if d = CHR ''p'' then
        (case args of Num n # as \<Rightarrow> Some (bytes_of ''0x'' @ print_uint n 16 16 48, as) | _ \<Rightarrow> None)
      else if d = CHR ''s'' then
        (case args of Str s # as \<Rightarrow> Some (kstr s, as) | _ \<Rightarrow> None)
      else if d = CHR ''c'' then
        (case args of Num n # as \<Rightarrow> Some ([ucast n], as) | _ \<Rightarrow> None)
      else if d = CHR ''%'' then Some (bytes_of ''%'', args)
      else Some (bytes_of [CHR ''%'', d], args))"

fun fmt_width :: "nat \<Rightarrow> string \<Rightarrow> nat \<times> string" where
  "fmt_width w [] = (w, [])"
| "fmt_width w (ch # cs) =
     (let k = (of_char ch :: nat) in
      if 48 \<le> k \<and> k \<le> 57 then fmt_width (w * 10 + (k - 48)) cs else (w, ch # cs))"

fun fmt_drop :: "char \<Rightarrow> string \<Rightarrow> string" where
  "fmt_drop x [] = []"
| "fmt_drop x (ch # cs) = (if ch = x then cs else ch # cs)"

definition fmt_long :: "string \<Rightarrow> string" where
  "fmt_long cs =
     (let cs1 = fmt_drop (CHR ''l'') cs in if cs1 = cs then cs else fmt_drop (CHR ''l'') cs1)"

definition fmt_pad :: "string \<Rightarrow> u8 \<times> string" where
  "fmt_pad cs =
     (let cs1 = fmt_drop (CHR ''0'') cs in if cs1 = cs then (32, cs) else (48, cs1))"

lemma length_fmt_drop: "length (fmt_drop x cs) \<le> length cs"
  by (cases cs) auto

lemma length_fmt_width: "length (snd (fmt_width w cs)) \<le> length cs"
  by (induction w cs rule: fmt_width.induct) (auto simp: Let_def)

lemma length_fmt_long: "length (fmt_long cs) \<le> length cs"
  using length_fmt_drop [of "CHR ''l''" "fmt_drop (CHR ''l'') cs"] length_fmt_drop [of "CHR ''l''" cs]
  by (simp add: fmt_long_def Let_def)

lemma length_fmt_pad: "length (snd (fmt_pad cs)) \<le> length cs"
  using length_fmt_drop [of "CHR ''0''" cs] by (simp add: fmt_pad_def Let_def)

text \<open>What stands between \<open>%\<close> and the conversion letter: the pad character and the width.\<close>

definition fmt_spec :: "string \<Rightarrow> u8 \<times> nat \<times> string" where
  "fmt_spec cs =
     (let (pad, cs1) = fmt_pad cs; (width, cs2) = fmt_width 0 cs1 in (pad, width, fmt_long cs2))"

lemma length_fmt_spec:
  assumes "fmt_spec cs = (pad, width, d # rest)"
  shows "length rest < length cs"
proof -
  have "fmt_long (snd (fmt_width 0 (snd (fmt_pad cs)))) = d # rest"
    using assms by (simp add: fmt_spec_def split: prod.splits)
  then show ?thesis
    using length_fmt_pad [of cs] length_fmt_width [of 0 "snd (fmt_pad cs)"]
      length_fmt_long [of "snd (fmt_width 0 (snd (fmt_pad cs)))"] by simp
qed

text \<open>
  The text a format string and its arguments print; \<open>None\<close> where C leaves the call undefined
  (a missing or ill-typed argument, or a format string that ends inside a conversion).
\<close>

function kformat :: "string \<Rightarrow> karg list \<Rightarrow> u8 list option" where
  "kformat [] args = Some []"
| "kformat (ch # cs) args =
     (if ch \<noteq> CHR ''%'' then map_option ((#) (of_char ch)) (kformat cs args)
      else
        (case fmt_spec cs of (pad, width, tail) \<Rightarrow>
          (case tail of [] \<Rightarrow> None
           | d # rest \<Rightarrow>
               (case kconv d width pad args of None \<Rightarrow> None
                | Some (out, args') \<Rightarrow> map_option ((@) out) (kformat rest args')))))"
  by pat_completeness auto
termination
  by (relation "measure (\<lambda>(cs, _). length cs)") (auto dest: length_fmt_spec [OF sym])

definition con_kprintf :: "string \<Rightarrow> karg list \<Rightarrow> console \<Rightarrow> console" where
  "con_kprintf fmt args c =
     (case kformat fmt args of None \<Rightarrow> c | Some bs \<Rightarrow> fold kputc bs c)"

definition kprintf :: "string \<Rightarrow> karg list \<Rightarrow> 'a con_state_scheme \<Rightarrow> 'a con_state_scheme" where
  "kprintf fmt args s = s\<lparr>con := con_kprintf fmt args (con s)\<rparr>"

section \<open>Facts about the serial port\<close>

lemma serial_wait_Some_iff:
  "(\<exists>j. serial_wait lsr i = Some j) \<longleftrightarrow> (\<exists>k\<ge>i. serial_ready (lsr k))"
proof
  assume "\<exists>j. serial_wait lsr i = Some j"
  then obtain j where "serial_wait lsr i = Some j" ..
  then show "\<exists>k\<ge>i. serial_ready (lsr k)"
  proof (rule serial_wait.raw_induct [where P = "\<lambda>lsr i j. \<exists>k\<ge>i. serial_ready (lsr k)", rotated])
    fix w :: "(nat \<Rightarrow> u8) \<Rightarrow> nat \<Rightarrow> nat option" and l i j
    assume IH: "\<And>l i j. w l i = Some j \<Longrightarrow> \<exists>k\<ge>i. serial_ready (l k)"
      and eq: "(if serial_ready (l i) then Some (Suc i) else w l (Suc i)) = Some j"
    show "\<exists>k\<ge>i. serial_ready (l k)"
    proof (cases "serial_ready (l i)")
      case False
      with eq have "\<exists>k\<ge>Suc i. serial_ready (l k)" by (auto intro: IH)
      then show ?thesis by (meson Suc_leD)
    qed auto
  qed
next
  assume "\<exists>k\<ge>i. serial_ready (lsr k)"
  then obtain k where k: "i \<le> k" "serial_ready (lsr k)" by blast
  from k(1) show "\<exists>j. serial_wait lsr i = Some j"
  proof (induction rule: inc_induct)
    case base
    show ?case using k(2) by (subst serial_wait.simps) simp
  next
    case (step n)
    then show ?case by (subst serial_wait.simps) auto
  qed
qed

lemma serial_putc_poll_total:
  assumes "\<And>i. \<exists>k\<ge>i. serial_ready (lsr k)"
  shows "\<exists>j. serial_putc_poll lsr i ch c = Some (j, serial_putc ch c)"
proof -
  have w: "\<exists>j. serial_wait lsr n = Some j" for n
    using assms [of n] by (simp add: serial_wait_Some_iff)
  obtain j where j: "serial_wait lsr i = Some j" using w by blast
  obtain k where "serial_wait lsr j = Some k" using w by blast
  with j show ?thesis by (simp add: serial_putc_poll_def serial_putc_def Let_def)
qed

lemma serial_putc_frame [simp]:
  "vmem (serial_putc ch c) = vmem c" "vga_row (serial_putc ch c) = vga_row c"
  "vga_col (serial_putc ch c) = vga_col c" "vga_attr (serial_putc ch c) = vga_attr c"
  by (simp_all add: serial_putc_def outb_def Let_def)

section \<open>Facts about the screen\<close>

lemma vga_update_cursor_frame [simp]:
  "vmem (vga_update_cursor r k c) = vmem c" "vga_row (vga_update_cursor r k c) = vga_row c"
  "vga_col (vga_update_cursor r k c) = vga_col c" "vga_attr (vga_update_cursor r k c) = vga_attr c"
  by (simp_all add: vga_update_cursor_def outb_def Let_def)

lemma vga_set_frame [simp]:
  "vmem (vga_set i v c) = (vmem c)(i := v)" "outs (vga_set i v c) = outs c"
  "vga_row (vga_set i v c) = vga_row c" "vga_col (vga_set i v c) = vga_col c"
  "vga_attr (vga_set i v c) = vga_attr c"
  by (simp_all add: vga_set_def)

text \<open>A loop of cell stores: what it leaves in every cell, and what it does not touch.\<close>

lemma vga_fill:
  "vmem (for_upto n (\<lambda>j. vga_set (b + int j) v) c) i =
     (if b \<le> i \<and> i < b + int n then v else vmem c i)"
  by (induction n) auto

lemma vga_fill_frame [simp]:
  "outs (for_upto n (\<lambda>j. vga_set (f j) v) c) = outs c"
  "vga_row (for_upto n (\<lambda>j. vga_set (f j) v) c) = vga_row c"
  "vga_col (for_upto n (\<lambda>j. vga_set (f j) v) c) = vga_col c"
  "vga_attr (for_upto n (\<lambda>j. vga_set (f j) v) c) = vga_attr c"
  by (induction n) auto

lemma vga_copy_row:
  assumes "b + int n \<le> d"
  shows "vmem (for_upto n (\<lambda>j c. vga_set (b + int j) (vmem c (d + int j)) c) c) i =
     (if b \<le> i \<and> i < b + int n then vmem c (i - b + d) else vmem c i)"
  using assms
proof (induction n arbitrary: i)
  case 0
  then show ?case by auto
next
  case (Suc n)
  then have "b + int n \<le> d" by simp
  with Suc show ?case by (auto simp: algebra_simps)
qed

lemma vga_copy_row_frame [simp]:
  "outs (for_upto n (\<lambda>j c. vga_set (f j) (g j c) c) c) = outs c"
  "vga_row (for_upto n (\<lambda>j c. vga_set (f j) (g j c) c) c) = vga_row c"
  "vga_col (for_upto n (\<lambda>j c. vga_set (f j) (g j c) c) c) = vga_col c"
  "vga_attr (for_upto n (\<lambda>j c. vga_set (f j) (g j c) c) c) = vga_attr c"
  by (induction n) auto

lemma scroll_rows_frame:
  "outs (scroll_rows n c) = outs c \<and> vga_row (scroll_rows n c) = vga_row c
   \<and> vga_col (scroll_rows n c) = vga_col c \<and> vga_attr (scroll_rows n c) = vga_attr c"
  by (induction n) (simp_all add: scroll_rows_def Let_def)

lemma vmem_scroll_rows:
  "vmem (scroll_rows n c) i = (if 0 \<le> i \<and> i < int n * 80 then vmem c (i + 80) else vmem c i)"
proof (induction n arbitrary: i)
  case 0
  then show ?case by (auto simp: scroll_rows_def)
next
  case (Suc n)
  have "vmem (scroll_rows (Suc n) c) i =
      vmem (for_upto (nat VGA_COLS) (\<lambda>j c. vga_set (int n * 80 + int j)
        (vmem c ((int n + 1) * 80 + int j)) c) (scroll_rows n c)) i"
    by (simp add: scroll_rows_def Let_def)
  also have "\<dots> = (if int n * 80 \<le> i \<and> i < int n * 80 + int (nat VGA_COLS)
      then vmem (scroll_rows n c) (i - int n * 80 + (int n + 1) * 80) else vmem (scroll_rows n c) i)"
    by (rule vga_copy_row) simp
  finally show ?case by (auto simp: Suc.IH algebra_simps)
qed

lemma vga_scroll_eq:
  "vga_scroll c = (for_upto (nat VGA_COLS)
     (\<lambda>j. vga_set ((VGA_ROWS - 1) * VGA_COLS + int j) (VGA_ENTRY 32 (vga_attr c)))
     (scroll_rows (nat (VGA_ROWS - 1)) c))\<lparr>vga_row := VGA_ROWS - 1\<rparr>"
  by (simp add: vga_scroll_def Let_def scroll_rows_frame)

lemma vmem_vga_scroll:
  "vmem (vga_scroll c) i =
     (if 0 \<le> i \<and> i < 1920 then vmem c (i + 80)
      else if 1920 \<le> i \<and> i < 2000 then VGA_ENTRY 32 (vga_attr c) else vmem c i)"
  by (simp add: vga_scroll_eq vga_fill vmem_scroll_rows)

lemma vga_scroll_frame [simp]:
  "outs (vga_scroll c) = outs c" "vga_col (vga_scroll c) = vga_col c"
  "vga_attr (vga_scroll c) = vga_attr c" "vga_row (vga_scroll c) = 24"
  by (simp_all add: vga_scroll_eq scroll_rows_frame)

lemma int_and_not_7: "(k :: int) AND NOT 7 = k div 8 * 8"
proof -
  have "k AND NOT (mask 3) = push_bit 3 (drop_bit 3 k)"
    by (auto intro!: bit_eqI simp: bit_simps)
  then show ?thesis
    by (simp add: push_bit_eq_mult drop_bit_eq_div mask_eq_exp_minus_1)
qed

lemmas int_tab = int_and_not_7 [simplified]

text \<open>
  Row and column never go negative and the row stays on the screen.  The column has no upper
  bound: a tab moves it to the next multiple of eight without looking at the width.
\<close>

definition vga_ok :: "console \<Rightarrow> bool" where
  "vga_ok c \<longleftrightarrow> 0 \<le> vga_row c \<and> vga_row c < VGA_ROWS \<and> 0 \<le> vga_col c"

definition vga_tight :: "console \<Rightarrow> bool" where
  "vga_tight c \<longleftrightarrow> vga_ok c \<and> vga_col c < VGA_COLS"

lemma vga_putc_ok: "vga_ok c \<Longrightarrow> vga_ok (vga_putc ch c)"
  by (auto simp: vga_ok_def vga_putc_def vga_put_def Let_def int_tab)

lemma vga_putc_tight: "vga_tight c \<Longrightarrow> ch \<noteq> 9 \<Longrightarrow> vga_tight (vga_putc ch c)"
  by (auto simp: vga_tight_def vga_ok_def vga_putc_def vga_put_def Let_def)

lemma vga_putc_tab:
  "vga_ok c \<Longrightarrow> vga_row (vga_putc 9 c) = vga_row c \<and> vga_col (vga_putc 9 c) = (vga_col c div 8 + 1) * 8
     \<and> vmem (vga_putc 9 c) = vmem c \<and> vga_attr (vga_putc 9 c) = vga_attr c"
proof -
  have "(vga_col c + 8) div 8 = vga_col c div 8 + 1" by (rule div_add_self2) simp
  then show "vga_ok c \<Longrightarrow> ?thesis"
    by (auto simp: vga_ok_def vga_putc_def vga_put_def Let_def int_tab)
qed

lemma vga_tabs:
  assumes "vga_ok c"
  shows "let c' = fold vga_putc (replicate (Suc n) 9) c in
    vga_ok c' \<and> vga_row c' = vga_row c \<and> vga_col c' = (vga_col c div 8 + int (Suc n)) * 8
    \<and> vmem c' = vmem c \<and> vga_attr c' = vga_attr c"
  using assms
proof (induction n arbitrary: c)
  case 0
  then show ?case by (simp add: vga_putc_tab vga_putc_ok)
next
  case (Suc n)
  from Suc.IH [OF vga_putc_ok [OF Suc.prems, of 9]] Suc.prems show ?case
    by (simp add: vga_putc_tab Let_def algebra_simps)
qed

definition printable :: "u8 \<Rightarrow> bool" where
  "printable ch \<longleftrightarrow> ch \<notin> {8, 9, 10, 13}"

lemma vga_putc_printable:
  assumes "vga_ok c" "printable ch" "vga_col c + 1 < 80"
  shows "vga_row (vga_putc ch c) = vga_row c" "vga_col (vga_putc ch c) = vga_col c + 1"
    "vga_attr (vga_putc ch c) = vga_attr c"
    "vmem (vga_putc ch c) = (vmem c)(vga_row c * 80 + vga_col c := VGA_ENTRY ch (vga_attr c))"
  using assms by (auto simp: vga_ok_def printable_def vga_putc_def vga_put_def Let_def)

lemma vga_puts_text:
  assumes "vga_ok c" "\<forall>ch\<in>set s. printable ch" "vga_col c + int (length s) < 80"
  shows "vga_row (vga_puts s c) = vga_row c" "vga_col (vga_puts s c) = vga_col c + int (length s)"
    "vmem (vga_puts s c) i =
       (let b = vga_row c * 80 + vga_col c in
        if b \<le> i \<and> i < b + int (length s) then VGA_ENTRY (s ! nat (i - b)) (vga_attr c)
        else vmem c i)"
proof -
  have "vga_row (vga_puts s c) = vga_row c \<and> vga_col (vga_puts s c) = vga_col c + int (length s)
    \<and> vmem (vga_puts s c) i =
       (let b = vga_row c * 80 + vga_col c in
        if b \<le> i \<and> i < b + int (length s) then VGA_ENTRY (s ! nat (i - b)) (vga_attr c)
        else vmem c i)"
    using assms
  proof (induction s arbitrary: c)
    case Nil
    then show ?case by (auto simp: vga_puts_def Let_def)
  next
    case (Cons ch s)
    from Cons.prems have p: "printable ch" "vga_col c + 1 < 80" by auto
    note step = vga_putc_printable [OF Cons.prems(1) p]
    have "vga_ok (vga_putc ch c)" using Cons.prems(1) by (rule vga_putc_ok)
    moreover have "vga_puts (ch # s) c = vga_puts s (vga_putc ch c)" by (simp add: vga_puts_def)
    moreover have "nat (j - b) = Suc (nat (j - (b + 1)))" if "b + 1 \<le> j" for j b :: int
      using that by simp
    ultimately show ?case
      using Cons.IH [of "vga_putc ch c"] Cons.prems step
      by (auto simp: Let_def algebra_simps)
  qed
  then show "vga_row (vga_puts s c) = vga_row c" "vga_col (vga_puts s c) = vga_col c + int (length s)"
    "vmem (vga_puts s c) i =
       (let b = vga_row c * 80 + vga_col c in
        if b \<le> i \<and> i < b + int (length s) then VGA_ENTRY (s ! nat (i - b)) (vga_attr c)
        else vmem c i)"
    by blast+
qed

section \<open>Facts about formatted numbers\<close>

definition digit_val :: "u8 \<Rightarrow> nat" where
  "digit_val ch = (if 48 \<le> ch \<and> ch \<le> 57 then unat (ch - 48) else unat (ch - 87))"

text \<open>The number a string of digits denotes, least significant digit first.\<close>

fun digits_val :: "nat \<Rightarrow> u8 list \<Rightarrow> nat" where
  "digits_val b [] = 0"
| "digits_val b (d # ds) = digit_val d + b * digits_val b ds"

lemma digit_val_char: "d < 16 \<Longrightarrow> digit_val (digit_char d) = d"
proof -
  assume "d < 16"
  moreover have "list_all (\<lambda>d. digit_val (digit_char d) = d) [0..<16]"
    by (simp add: upt_rec digit_val_def digit_char_def bytes_of_def)
  ultimately show ?thesis by (simp add: list_all_iff)
qed

lemma digits_val_loop:
  "2 \<le> b \<Longrightarrow> b \<le> 16 \<Longrightarrow> digits_val b (digits_loop b n) = n"
proof (induction b n rule: digits_loop.induct)
  case (1 b n)
  show ?case
  proof (cases "n = 0")
    case True
    then show ?thesis by (simp add: digits_loop.simps)
  next
    case False
    moreover have "n mod b < 16" using 1 by (meson less_le_trans mod_less_divisor zero_less_numeral)
    ultimately show ?thesis using 1
      by (subst digits_loop.simps) (simp add: digit_val_char)
  qed
qed

lemma length_digits_loop:
  "2 \<le> b \<Longrightarrow> n < b ^ k \<Longrightarrow> length (digits_loop b n) \<le> k"
proof (induction k arbitrary: n)
  case 0
  then show ?case by (simp add: digits_loop.simps)
next
  case (Suc k)
  have "n div b < b ^ k"
    using Suc.prems by (simp add: less_mult_imp_div_less mult.commute)
  with Suc show ?case by (subst digits_loop.simps) simp
qed

end
