(* ===== verification/Interfaces.thy ===== *)
theory Interfaces
  imports Prelude
begin

text \<open>
  The contracts between the components, as locales: the operations a client calls and the laws
  their provider keeps.  Each is interpreted on the model's own definitions in the theory of
  the component that provides it.
\<close>

section \<open>Page allocator\<close>

text \<open>
  What the paging code, the process loader and the ELF loader rely on: \<open>avail s\<close> is the set of
  page addresses still free, \<open>pool s\<close> all addresses the allocator manages.
\<close>

locale page_allocator =
  fixes alloc :: "'s \<Rightarrow> u64 \<times> 's"
    and release :: "u64 \<Rightarrow> 's \<Rightarrow> 's"
    and avail :: "'s \<Rightarrow> u64 set"
    and pool :: "'s \<Rightarrow> u64 set"
    and inv :: "'s \<Rightarrow> bool"
  assumes avail_pool: "inv s \<Longrightarrow> avail s \<subseteq> pool s"
    and pool_finite: "inv s \<Longrightarrow> finite (pool s)"
    and pool_page: "inv s \<Longrightarrow> a \<in> pool s \<Longrightarrow> a \<noteq> 0 \<and> 4096 dvd unat a"
    and alloc_inv: "inv s \<Longrightarrow> inv (snd (alloc s))"
    and alloc_pool: "inv s \<Longrightarrow> pool (snd (alloc s)) = pool s"
    and alloc_empty: "inv s \<Longrightarrow> avail s = {} \<Longrightarrow> fst (alloc s) = 0 \<and> avail (snd (alloc s)) = {}"
    and alloc_fresh: "inv s \<Longrightarrow> avail s \<noteq> {} \<Longrightarrow>
      fst (alloc s) \<in> avail s \<and> avail (snd (alloc s)) = avail s - {fst (alloc s)}"
    and release_inv: "inv s \<Longrightarrow> inv (release a s)"
    and release_pool: "inv s \<Longrightarrow> pool (release a s) = pool s"
    and release_avail: "inv s \<Longrightarrow> a \<in> pool s \<Longrightarrow> avail (release a s) = insert a (avail s)"

primrec alloc_many :: "('s \<Rightarrow> u64 \<times> 's) \<Rightarrow> nat \<Rightarrow> 's \<Rightarrow> u64 list \<times> 's" where
  "alloc_many alloc 0 s = ([], s)"
| "alloc_many alloc (Suc n) s =
     (let (a, s1) = alloc s; (as, s2) = alloc_many alloc n s1 in (a # as, s2))"

context page_allocator
begin

lemma alloc_null_iff: "inv s \<Longrightarrow> fst (alloc s) = 0 \<longleftrightarrow> avail s = {}"
  using alloc_empty alloc_fresh avail_pool pool_page by blast

lemma alloc_avail: "inv s \<Longrightarrow> avail (snd (alloc s)) = avail s - {fst (alloc s)}"
  using alloc_empty alloc_fresh by (cases "avail s = {}") auto

lemma avail_finite: "inv s \<Longrightarrow> finite (avail s)"
  using avail_pool pool_finite finite_subset by blast

text \<open>Pages handed out one after the other are different, and none comes back.\<close>

lemma alloc_many:
  assumes "inv s" "n \<le> card (avail s)"
  shows "inv (snd (alloc_many alloc n s)) \<and> length (fst (alloc_many alloc n s)) = n
    \<and> distinct (fst (alloc_many alloc n s)) \<and> set (fst (alloc_many alloc n s)) \<subseteq> avail s
    \<and> avail (snd (alloc_many alloc n s)) = avail s - set (fst (alloc_many alloc n s))
    \<and> pool (snd (alloc_many alloc n s)) = pool s"
  using assms
proof (induction n arbitrary: s)
  case 0
  then show ?case by simp
next
  case (Suc n)
  obtain a s1 where a: "alloc s = (a, s1)" by fastforce
  have ne: "avail s \<noteq> {}" using Suc.prems by auto
  with alloc_fresh [OF Suc.prems(1)] a have fresh: "a \<in> avail s" "avail s1 = avail s - {a}"
    by auto
  have inv1: "inv s1" using alloc_inv [OF Suc.prems(1)] a by simp
  have pool1: "pool s1 = pool s" using alloc_pool [OF Suc.prems(1)] a by simp
  have "n \<le> card (avail s1)"
    using fresh Suc.prems avail_finite [OF Suc.prems(1)] by simp
  from Suc.IH [OF inv1 this] fresh pool1 a show ?case
    by (auto simp: split_beta)
qed

text \<open>Giving a page back after taking it restores what is available.\<close>

lemma release_alloc:
  assumes "inv s" "avail s \<noteq> {}"
  shows "avail (release (fst (alloc s)) (snd (alloc s))) = avail s"
proof -
  note fresh = alloc_fresh [OF assms]
  have "fst (alloc s) \<in> pool (snd (alloc s))"
    using fresh avail_pool [OF assms(1)] alloc_pool [OF assms(1)] by blast
  from release_avail [OF alloc_inv [OF assms(1)] this] fresh show ?thesis by auto
qed

end

section \<open>Block allocator\<close>

text \<open>
  What the process table relies on when it asks the kernel heap for a stack: the blocks in use
  never overlap, stay inside the heap and keep their place while others come and go.
\<close>

locale block_allocator =
  fixes alloc :: "u64 \<Rightarrow> 's \<Rightarrow> (u64 \<times> 's) option"
    and used :: "'s \<Rightarrow> u64 set"
    and extent :: "'s \<Rightarrow> u64 \<Rightarrow> nat set"
    and area :: "nat set"
    and inv :: "'s \<Rightarrow> bool"
  assumes alloc_returns: "inv s \<Longrightarrow> unat n \<le> 2 ^ 63 \<Longrightarrow> \<exists>p s'. alloc n s = Some (p, s') \<and> inv s'"
    and alloc_null: "inv s \<Longrightarrow> unat n \<le> 2 ^ 63 \<Longrightarrow> alloc n s = Some (0, s') \<Longrightarrow> used s' = used s"
    and alloc_block: "inv s \<Longrightarrow> unat n \<le> 2 ^ 63 \<Longrightarrow> alloc n s = Some (p, s') \<Longrightarrow> p \<noteq> 0 \<Longrightarrow>
      p \<notin> used s \<and> used s' = insert p (used s) \<and> {unat p ..< unat p + unat n} \<subseteq> extent s' p"
    and alloc_keeps: "inv s \<Longrightarrow> unat n \<le> 2 ^ 63 \<Longrightarrow> alloc n s = Some (p, s') \<Longrightarrow>
      q \<in> used s \<Longrightarrow> extent s' q = extent s q"
    and used_area: "inv s \<Longrightarrow> p \<in> used s \<Longrightarrow> extent s p \<subseteq> area"
    and used_disjoint: "inv s \<Longrightarrow> p \<in> used s \<Longrightarrow> q \<in> used s \<Longrightarrow> p \<noteq> q \<Longrightarrow>
      extent s p \<inter> extent s q = {}"
begin

text \<open>The bytes of a new block belong to no block that was in use before.\<close>

lemma alloc_separate:
  assumes "inv s" "unat n \<le> 2 ^ 63" "alloc n s = Some (p, s')" "p \<noteq> 0" "q \<in> used s"
  shows "{unat p ..< unat p + unat n} \<inter> extent s q = {}"
proof -
  note blk = alloc_block [OF assms(1-4)]
  have "inv s'" using alloc_returns [OF assms(1,2)] assms(3) by auto
  moreover have "q \<in> used s'" "p \<in> used s'" "p \<noteq> q" using blk assms(5) by auto
  ultimately have "extent s' p \<inter> extent s' q = {}" by (intro used_disjoint)
  then show ?thesis using blk alloc_keeps [OF assms(1-3,5)] by auto
qed

lemma alloc_inside:
  assumes "inv s" "unat n \<le> 2 ^ 63" "alloc n s = Some (p, s')" "p \<noteq> 0"
  shows "{unat p ..< unat p + unat n} \<subseteq> area"
proof -
  note blk = alloc_block [OF assms]
  have "inv s'" using alloc_returns [OF assms(1,2)] assms(3) by auto
  then have "extent s' p \<subseteq> area" using blk by (intro used_area) auto
  with blk show ?thesis by blast
qed

end

text \<open>
  An allocator that takes blocks back: the others stay as they are, and a request that fits into
  the block just given back cannot fail.
\<close>

locale reusing_allocator = block_allocator alloc used extent area inv
  for alloc :: "u64 \<Rightarrow> 's \<Rightarrow> (u64 \<times> 's) option" and used :: "'s \<Rightarrow> u64 set"
    and extent :: "'s \<Rightarrow> u64 \<Rightarrow> nat set" and area :: "nat set" and inv :: "'s \<Rightarrow> bool" +
  fixes release :: "u64 \<Rightarrow> 's \<Rightarrow> 's option"
  assumes release_returns: "inv s \<Longrightarrow> p \<in> used s \<Longrightarrow> \<exists>s'. release p s = Some s' \<and> inv s'"
    and release_used: "inv s \<Longrightarrow> p \<in> used s \<Longrightarrow> release p s = Some s' \<Longrightarrow> used s' = used s - {p}"
    and release_keeps: "inv s \<Longrightarrow> p \<in> used s \<Longrightarrow> release p s = Some s' \<Longrightarrow> extent s' q = extent s q"
    and release_room: "inv s \<Longrightarrow> p \<in> used s \<Longrightarrow> release p s = Some s' \<Longrightarrow> n \<noteq> 0 \<Longrightarrow>
      {unat p ..< unat p + unat n} \<subseteq> extent s p \<Longrightarrow> \<exists>q s''. alloc n s' = Some (q, s'') \<and> q \<noteq> 0"
begin

text \<open>Giving a new block back restores the blocks in use, and the same request succeeds again.\<close>

lemma alloc_release_alloc:
  assumes "inv s" "unat n \<le> 2 ^ 63" "n \<noteq> 0" "alloc n s = Some (p, s1)" "p \<noteq> 0"
  shows "\<exists>s2 q s3. release p s1 = Some s2 \<and> inv s2 \<and> used s2 = used s \<and>
    (\<forall>r\<in>used s. extent s2 r = extent s r) \<and> alloc n s2 = Some (q, s3) \<and> q \<noteq> 0"
proof -
  have i1: "inv s1" using alloc_returns [OF assms(1,2)] assms(4) by auto
  note blk = alloc_block [OF assms(1,2,4,5)]
  then have p: "p \<in> used s1" by simp
  obtain s2 where s2: "release p s1 = Some s2" "inv s2" using release_returns [OF i1 p] by blast
  have "used s2 = used s" using release_used [OF i1 p s2(1)] blk by auto
  moreover have "\<forall>r\<in>used s. extent s2 r = extent s r"
    using release_keeps [OF i1 p s2(1)] alloc_keeps [OF assms(1,2,4)] by simp
  moreover have "\<exists>q s3. alloc n s2 = Some (q, s3) \<and> q \<noteq> 0"
    using release_room [OF i1 p s2(1) assms(3)] blk by simp
  ultimately show ?thesis using s2 by blast
qed

end

section \<open>Mailboxes\<close>

text \<open>
  What processes rely on when they exchange messages: \<open>post\<close> appends one letter to the box it
  addresses or fails without effect, \<open>fetch\<close> takes the oldest letter of a box, and neither
  touches another box.
\<close>

locale mail_service =
  fixes post :: "'r \<Rightarrow> 's \<Rightarrow> int \<times> 's"
    and addressee :: "'r \<Rightarrow> 's \<Rightarrow> nat option"
    and content :: "'r \<Rightarrow> 's \<Rightarrow> 'm \<Rightarrow> bool"
    and fetch :: "nat \<Rightarrow> 'b \<Rightarrow> 's \<Rightarrow> ('m \<times> 's) option"
    and box :: "'s \<Rightarrow> nat \<Rightarrow> 'm list"
    and boxes :: nat
    and inv :: "'s \<Rightarrow> bool"
  assumes post_ok: "inv s \<Longrightarrow> post r s = (0, s') \<Longrightarrow> inv s' \<and>
      (\<exists>t m. addressee r s = Some t \<and> t < boxes \<and> content r s m \<and>
        (\<forall>p<boxes. box s' p = (if p = t then box s t @ [m] else box s p)))"
    and post_fail: "inv s \<Longrightarrow> post r s = (e, s') \<Longrightarrow> e \<noteq> 0 \<Longrightarrow> s' = s"
    and fetch_empty: "inv s \<Longrightarrow> c < boxes \<Longrightarrow> fetch c b s = None \<longleftrightarrow> box s c = []"
    and fetch_first: "inv s \<Longrightarrow> c < boxes \<Longrightarrow> fetch c b s = Some (m, s') \<Longrightarrow> inv s' \<and>
      box s c = m # box s' c \<and> (\<forall>p<boxes. p \<noteq> c \<longrightarrow> box s' p = box s p)"

primrec fetch_many :: "(nat \<Rightarrow> 'b \<Rightarrow> 's \<Rightarrow> ('m \<times> 's) option) \<Rightarrow> nat \<Rightarrow> 'b list \<Rightarrow> 's \<Rightarrow> ('m list \<times> 's) option" where
  "fetch_many fetch c [] s = Some ([], s)"
| "fetch_many fetch c (b # bs) s =
     (case fetch c b s of None \<Rightarrow> None
      | Some (m, s1) \<Rightarrow> map_option (\<lambda>(ms, s2). (m # ms, s2)) (fetch_many fetch c bs s1))"

context mail_service
begin

text \<open>Fetching repeatedly yields the letters in the order of the box, and leaves the rest.\<close>

lemma fetch_in_order:
  assumes "inv s" "c < boxes" "length bs \<le> length (box s c)"
  shows "\<exists>s'. fetch_many fetch c bs s = Some (take (length bs) (box s c), s') \<and> inv s' \<and>
    box s' c = drop (length bs) (box s c) \<and> (\<forall>p<boxes. p \<noteq> c \<longrightarrow> box s' p = box s p)"
  using assms
proof (induction bs arbitrary: s)
  case Nil
  then show ?case by simp
next
  case (Cons b bs)
  then have "box s c \<noteq> []" by auto
  with fetch_empty [OF Cons.prems(1,2), of b] obtain m s1 where f: "fetch c b s = Some (m, s1)"
    by (cases "fetch c b s") auto
  note ff = fetch_first [OF Cons.prems(1,2) f]
  have "length bs \<le> length (box s1 c)" using ff Cons.prems(3) by simp
  from Cons.IH [OF conjunct1 [OF ff] Cons.prems(2) this] ff f show ?case by auto
qed

text \<open>A letter is received after exactly the letters that were in the box before it.\<close>

lemma posted_letter_arrives:
  assumes "inv s" "post r s = (0, s1)" "addressee r s = Some t" "length bs = length (box s t)"
  shows "\<exists>m s2 s3. content r s m \<and> fetch_many fetch t bs s1 = Some (box s t, s2) \<and>
    fetch t b s2 = Some (m, s3) \<and> box s3 t = []"
proof -
  obtain m where inv1: "inv s1" and t: "t < boxes" and m: "content r s m" and b1: "box s1 t = box s t @ [m]"
    using post_ok [OF assms(1,2)] assms(3) by auto
  have "length bs \<le> length (box s1 t)" using b1 assms(4) by simp
  from fetch_in_order [OF inv1 t this] b1 assms(4) obtain s2 where
    s2: "fetch_many fetch t bs s1 = Some (box s t, s2)" "inv s2" "box s2 t = [m]" by auto
  then obtain m' s3 where f: "fetch t b s2 = Some (m', s3)"
    using fetch_empty [OF s2(2) t, of b] by (cases "fetch t b s2") auto
  with fetch_first [OF s2(2) t f] s2 m show ?thesis by auto
qed

end

end
