(* ===== verification/Pmm.thy ===== *)
theory Pmm
  imports Console Interfaces
begin

text \<open>
  The physical page allocator \<^verbatim>\<open>kernel/mm/pmm.c\<close>: a bitmap with one bit per 4 KB page, a count
  of the free pages and a next-fit search position.
\<close>

section \<open>State and operations\<close>

abbreviation PMM_MAX_PAGES :: u64 where "PMM_MAX_PAGES \<equiv> 131072"
abbreviation BITMAP_SIZE :: nat where "BITMAP_SIZE \<equiv> 2048"

record pmm_state = con_state +
  bitmap :: "u64 list"
  pmm_base :: u64
  pmm_total_pages :: u64
  pmm_free_pages :: u64
  pmm_last_alloc :: u64

definition word_ix :: "u64 \<Rightarrow> nat" where
  "word_ix page = unat (page div 64)"

definition bit_mask :: "u64 \<Rightarrow> u64" where
  "bit_mask page = push_bit (unat (page mod 64)) 1"

definition pmm_set_used :: "u64 \<Rightarrow> 'a pmm_state_scheme \<Rightarrow> 'a pmm_state_scheme" where
  "pmm_set_used page s =
     s\<lparr>bitmap := (bitmap s)[word_ix page := bitmap s ! word_ix page OR bit_mask page]\<rparr>"

definition pmm_set_free :: "u64 \<Rightarrow> 'a pmm_state_scheme \<Rightarrow> 'a pmm_state_scheme" where
  "pmm_set_free page s =
     s\<lparr>bitmap := (bitmap s)[word_ix page := bitmap s ! word_ix page AND NOT (bit_mask page)]\<rparr>"

definition pmm_is_used :: "u64 \<Rightarrow> 'a pmm_state_scheme \<Rightarrow> bool" where
  "pmm_is_used page s \<longleftrightarrow> bitmap s ! word_ix page AND bit_mask page \<noteq> 0"

definition pmm_init :: "u64 \<Rightarrow> u64 \<Rightarrow> 'a pmm_state_scheme \<Rightarrow> 'a pmm_state_scheme" where
  "pmm_init mem_base mem_size s =
     (let s1 = s\<lparr>pmm_base := PAGE_ALIGN mem_base, pmm_total_pages := mem_size div PAGE_SIZE\<rparr>;
          s2 = (if pmm_total_pages s1 > PMM_MAX_PAGES
                then s1\<lparr>pmm_total_pages := PMM_MAX_PAGES\<rparr> else s1);
          s3 = for_upto BITMAP_SIZE (\<lambda>i s. s\<lparr>bitmap := (bitmap s)[i := NOT 0]\<rparr>) s2;
          s4 = for_upto (unat (pmm_total_pages s3)) (\<lambda>i. pmm_set_free (of_nat i)) s3;
          s5 = s4\<lparr>pmm_free_pages := pmm_total_pages s4, pmm_last_alloc := 0\<rparr>
      in kprintf ''[PMM] base=%p pages=%lu (%luMB)
''         [Num (pmm_base s5), Num (pmm_total_pages s5),
            Num (pmm_total_pages s5 * PAGE_SIZE div (1024 * 1024))] s5)"

text \<open>The search loop of \<^verbatim>\<open>pmm_alloc\<close>: \<open>n\<close> iterations are left, \<open>i\<close> is the loop counter.\<close>

fun pmm_alloc_loop :: "nat \<Rightarrow> u64 \<Rightarrow> 'a pmm_state_scheme \<Rightarrow> u64 \<times> 'a pmm_state_scheme" where
  "pmm_alloc_loop 0 i s = (0, s)"
| "pmm_alloc_loop (Suc n) i s =
     (let page = (pmm_last_alloc s + i) mod pmm_total_pages s in
      if \<not> pmm_is_used page s then
        let s1 = pmm_set_used page s;
            s2 = s1\<lparr>pmm_free_pages := pmm_free_pages s1 - 1\<rparr>;
            s3 = s2\<lparr>pmm_last_alloc := (page + 1) mod pmm_total_pages s2\<rparr>
        in (pmm_base s3 + page * PAGE_SIZE, s3)
      else pmm_alloc_loop n (i + 1) s)"

definition pmm_alloc_log :: "'a pmm_state_scheme \<Rightarrow> 'a pmm_state_scheme" where
  "pmm_alloc_log s =
     kprintf ''[PMM] alloc: base=%p total=%lu free=%lu
''     [Num (pmm_base s), Num (pmm_total_pages s), Num (pmm_free_pages s)] s"

definition pmm_alloc :: "'a pmm_state_scheme \<Rightarrow> u64 \<times> 'a pmm_state_scheme" where
  "pmm_alloc s =
     (let s1 = pmm_alloc_log s in pmm_alloc_loop (unat (pmm_total_pages s1)) 0 s1)"

definition pmm_free :: "u64 \<Rightarrow> 'a pmm_state_scheme \<Rightarrow> 'a pmm_state_scheme" where
  "pmm_free addr s =
     (if addr = 0 then s
      else if addr < pmm_base s then s
      else
        let page = (addr - pmm_base s) div PAGE_SIZE in
        if page \<ge> pmm_total_pages s then s
        else if \<not> pmm_is_used page s then s
        else
          let s1 = pmm_set_free page s
          in s1\<lparr>pmm_free_pages := pmm_free_pages s1 + 1\<rparr>)"

definition pmm_free_count :: "'a pmm_state_scheme \<Rightarrow> u64" where
  "pmm_free_count s = pmm_free_pages s"

definition pmm_alloc_page :: "'a pmm_state_scheme \<Rightarrow> u64 \<times> 'a pmm_state_scheme" where
  "pmm_alloc_page s = pmm_alloc s"

definition pmm_free_page :: "u64 \<Rightarrow> 'a pmm_state_scheme \<Rightarrow> 'a pmm_state_scheme" where
  "pmm_free_page page s = pmm_free page s"

section \<open>The bitmap as a set of free pages\<close>

definition page_used :: "u64 list \<Rightarrow> nat \<Rightarrow> bool" where
  "page_used bm p \<longleftrightarrow> bit (bm ! (p div 64)) (p mod 64)"

definition free_pages :: "'a pmm_state_scheme \<Rightarrow> nat set" where
  "free_pages s = {p. p < unat (pmm_total_pages s) \<and> \<not> page_used (bitmap s) p}"

definition page_addr :: "'a pmm_state_scheme \<Rightarrow> nat \<Rightarrow> u64" where
  "page_addr s p = pmm_base s + of_nat p * PAGE_SIZE"

definition pmm_inv :: "'a pmm_state_scheme \<Rightarrow> bool" where
  "pmm_inv s \<longleftrightarrow>
     length (bitmap s) = BITMAP_SIZE \<and>
     unat (pmm_total_pages s) \<le> 131072 \<and>
     unat (pmm_free_pages s) = card (free_pages s) \<and>
     (pmm_total_pages s \<noteq> 0 \<longrightarrow> pmm_last_alloc s < pmm_total_pages s) \<and>
     pmm_base s \<noteq> 0 \<and> 4096 dvd unat (pmm_base s) \<and>
     unat (pmm_base s) + unat (pmm_total_pages s) * 4096 \<le> 2 ^ 64"

lemma word_ix_eq: "word_ix page = unat page div 64"
  by (simp add: word_ix_def unat_div)

lemma bit_bit_mask: "bit (bit_mask page) k \<longleftrightarrow> k = unat page mod 64"
proof -
  have "unat page mod 64 < 64" by simp
  then show ?thesis by (auto simp: bit_mask_def bit_simps unat_mod)
qed

lemma word_nonzero_bit: "w \<noteq> 0 \<longleftrightarrow> (\<exists>n. bit w n)" for w :: u64
  by (metis bit_eqI bit_0_eq bot_apply bot_bool_def)

lemma pmm_is_used_iff: "pmm_is_used page s \<longleftrightarrow> page_used (bitmap s) (unat page)"
  by (simp add: pmm_is_used_def page_used_def word_ix_eq word_nonzero_bit bit_and_iff bit_bit_mask)

lemma page_used_set_used:
  assumes "unat page < 64 * length (bitmap s)"
  shows "page_used (bitmap (pmm_set_used page s)) p \<longleftrightarrow> p = unat page \<or> page_used (bitmap s) p"
proof (cases "p div 64 = unat page div 64")
  case True
  moreover have "p = unat page \<longleftrightarrow> p mod 64 = unat page mod 64"
    using True by (metis div_mod_decomp)
  ultimately show ?thesis
    using assms by (auto simp: page_used_def pmm_set_used_def word_ix_eq bit_simps bit_bit_mask)
next
  case False
  then show ?thesis
    by (auto simp: page_used_def pmm_set_used_def word_ix_eq)
qed

lemma page_used_set_free:
  assumes "unat page < 64 * length (bitmap s)"
  shows "page_used (bitmap (pmm_set_free page s)) p \<longleftrightarrow> p \<noteq> unat page \<and> page_used (bitmap s) p"
proof (cases "p div 64 = unat page div 64")
  case True
  moreover have "p = unat page \<longleftrightarrow> p mod 64 = unat page mod 64"
    using True by (metis div_mod_decomp)
  ultimately show ?thesis
    using assms by (auto simp: page_used_def pmm_set_free_def word_ix_eq bit_simps bit_bit_mask)
next
  case False
  then show ?thesis
    by (auto simp: page_used_def pmm_set_free_def word_ix_eq)
qed

section \<open>Initialisation\<close>

lemma for_upto_list_fill:
  "n \<le> length (bitmap s) \<Longrightarrow>
     for_upto n (\<lambda>i s. s\<lparr>bitmap := (bitmap s)[i := v]\<rparr>) s
       = s\<lparr>bitmap := replicate n v @ drop n (bitmap s)\<rparr>"
proof (induction n)
  case 0
  then show ?case by simp
next
  case (Suc n)
  then have "replicate n v @ drop n (bitmap s) = replicate n v @ bitmap s ! n # drop (Suc n) (bitmap s)"
    by (simp add: Cons_nth_drop_Suc)
  with Suc show ?case
    by (simp add: list_update_append replicate_append_same [symmetric])
qed

lemma set_free_frame [simp]:
  "length (bitmap (pmm_set_free p s)) = length (bitmap s)"
  "pmm_base (pmm_set_free p s) = pmm_base s" "pmm_total_pages (pmm_set_free p s) = pmm_total_pages s"
  "pmm_free_pages (pmm_set_free p s) = pmm_free_pages s" "con (pmm_set_free p s) = con s"
  "pmm_last_alloc (pmm_set_free p s) = pmm_last_alloc s" "pmm_state.more (pmm_set_free p s) = pmm_state.more s"
  by (simp_all add: pmm_set_free_def)

lemma set_used_frame [simp]:
  "length (bitmap (pmm_set_used p s)) = length (bitmap s)"
  "pmm_base (pmm_set_used p s) = pmm_base s" "pmm_total_pages (pmm_set_used p s) = pmm_total_pages s"
  "pmm_free_pages (pmm_set_used p s) = pmm_free_pages s" "con (pmm_set_used p s) = con s"
  "pmm_last_alloc (pmm_set_used p s) = pmm_last_alloc s" "pmm_state.more (pmm_set_used p s) = pmm_state.more s"
  by (simp_all add: pmm_set_used_def)

lemma set_free_loop:
  assumes "length (bitmap s) = BITMAP_SIZE" "n \<le> 131072"
  defines "t \<equiv> \<lambda>n. for_upto n (\<lambda>i. pmm_set_free (of_nat i)) s"
  shows "length (bitmap (t n)) = BITMAP_SIZE \<and> pmm_base (t n) = pmm_base s
     \<and> pmm_total_pages (t n) = pmm_total_pages s
     \<and> (\<forall>p. page_used (bitmap (t n)) p \<longleftrightarrow> n \<le> p \<and> page_used (bitmap s) p)"
  using assms(2)
proof (induction n)
  case 0
  then show ?case using assms(1) by (simp add: t_def)
next
  case (Suc n)
  have t: "t (Suc n) = pmm_set_free (of_nat n) (t n)" by (simp add: t_def)
  have n: "unat (of_nat n :: u64) = n" using Suc.prems by (simp add: unat_of_nat)
  from Suc have IH: "length (bitmap (t n)) = BITMAP_SIZE"
    "\<And>p. page_used (bitmap (t n)) p \<longleftrightarrow> n \<le> p \<and> page_used (bitmap s) p"
    "pmm_base (t n) = pmm_base s" "pmm_total_pages (t n) = pmm_total_pages s" by auto
  have used: "page_used (bitmap (t (Suc n))) p \<longleftrightarrow> p \<noteq> n \<and> n \<le> p \<and> page_used (bitmap s) p" for p
  proof -
    have "unat (of_nat n :: u64) < 64 * length (bitmap (t n))"
      unfolding n IH(1) using Suc.prems by simp
    from page_used_set_free [OF this, of p] show ?thesis unfolding t n IH(2) .
  qed
  have "Suc n \<le> p \<longleftrightarrow> p \<noteq> n \<and> n \<le> p" for p by auto
  then have "\<forall>p. page_used (bitmap (t (Suc n))) p \<longleftrightarrow> Suc n \<le> p \<and> page_used (bitmap s) p"
    by (simp only: used conj_assoc simp_thms)
  then show ?case by (simp add: t IH)
qed

lemma page_used_all_ones: "p < 131072 \<Longrightarrow> page_used (replicate BITMAP_SIZE (NOT 0)) p"
  by (simp add: page_used_def)

text \<open>The region that is handed to the allocator, rounded up to a page, has to fit in the address space.\<close>

lemma PAGE_ALIGN_bounds:
  assumes "unat a + 4096 \<le> 2 ^ 64"
  shows "4096 dvd unat (PAGE_ALIGN a)" "unat a \<le> unat (PAGE_ALIGN a)"
    "unat (PAGE_ALIGN a) \<le> unat a + 4095"
proof -
  have e: "unat (PAGE_ALIGN a) = (unat a + 4095) div 4096 * 4096"
    using unat_ALIGN_UP [of 4096 12 a] assms by (simp add: PAGE_ALIGN_def)
  show "4096 dvd unat (PAGE_ALIGN a)" unfolding e by simp
  show "unat a \<le> unat (PAGE_ALIGN a)" "unat (PAGE_ALIGN a) \<le> unat a + 4095"
    unfolding e using div_mult_mod_eq [of "unat a + 4095" 4096]
      mod_less_divisor [of 4096 "unat a + 4095"] by linarith+
qed

lemma pmm_init_fields:
  fixes mem_base mem_size :: u64 and s :: "'a pmm_state_scheme"
  assumes "length (bitmap s) = BITMAP_SIZE"
  defines "t \<equiv> pmm_init mem_base mem_size s"
  shows "length (bitmap t) = BITMAP_SIZE" and "pmm_base t = PAGE_ALIGN mem_base"
    and "unat (pmm_total_pages t) = min (unat mem_size div 4096) 131072"
    and "pmm_free_pages t = pmm_total_pages t" and "pmm_last_alloc t = 0"
    and "free_pages t = {..<unat (pmm_total_pages t)}"
proof -
  let ?T = "min (unat mem_size div 4096) 131072"
  define s1 where "s1 = s\<lparr>pmm_base := PAGE_ALIGN mem_base,
    pmm_total_pages := if mem_size div PAGE_SIZE > PMM_MAX_PAGES then PMM_MAX_PAGES
      else mem_size div PAGE_SIZE, bitmap := replicate BITMAP_SIZE (NOT 0)\<rparr>"
  have T: "unat (pmm_total_pages s1) = ?T"
    by (auto simp: s1_def word_less_nat_alt unat_div)
  define s2 where "s2 = for_upto (unat (pmm_total_pages s1)) (\<lambda>i. pmm_set_free (of_nat i)) s1"
  have "for_upto BITMAP_SIZE (\<lambda>i s. s\<lparr>bitmap := (bitmap s)[i := NOT 0]\<rparr>)
      (s\<lparr>pmm_base := PAGE_ALIGN mem_base, pmm_total_pages := n\<rparr>)
    = s\<lparr>pmm_base := PAGE_ALIGN mem_base, pmm_total_pages := n, bitmap := replicate BITMAP_SIZE (NOT 0)\<rparr>" for n
    using assms(1) by (subst for_upto_list_fill) simp_all
  then have t: "bitmap t = bitmap s2" "pmm_base t = pmm_base s2" "pmm_total_pages t = pmm_total_pages s2"
    "pmm_free_pages t = pmm_total_pages s2" "pmm_last_alloc t = 0"
    by (simp_all add: t_def pmm_init_def Let_def s2_def s1_def kprintf_def)
  have "length (bitmap s1) = BITMAP_SIZE" "unat (pmm_total_pages s1) \<le> 131072"
    using T by (simp_all add: s1_def)
  note loop = set_free_loop [OF this, folded s2_def]
  then show "length (bitmap t) = BITMAP_SIZE" "pmm_base t = PAGE_ALIGN mem_base"
    "unat (pmm_total_pages t) = ?T" "pmm_free_pages t = pmm_total_pages t" "pmm_last_alloc t = 0"
    using T by (simp_all add: t s1_def)
  show "free_pages t = {..<unat (pmm_total_pages t)}"
    using loop by (auto simp: free_pages_def t)
qed

lemma pmm_init_inv:
  assumes "length (bitmap s) = BITMAP_SIZE" "mem_base \<noteq> 0"
    and "unat mem_base + 4096 + unat mem_size \<le> 2 ^ 64"
  shows "pmm_inv (pmm_init mem_base mem_size s)"
proof -
  note f = pmm_init_fields [OF assms(1), of mem_base mem_size]
  have "unat mem_base + 4096 \<le> 2 ^ 64" using assms(3) by linarith
  note al = PAGE_ALIGN_bounds [OF this]
  have "unat mem_base \<noteq> 0" using assms(2) by (simp add: unat_eq_0)
  then have nz: "PAGE_ALIGN mem_base \<noteq> 0" using al(2) by (auto simp: unat_eq_0)
  have "min (unat mem_size div 4096) 131072 * 4096 \<le> unat mem_size"
    by (simp add: min_def div_times_less_eq_dividend) linarith
  then have "unat (PAGE_ALIGN mem_base) + min (unat mem_size div 4096) 131072 * 4096 \<le> 2 ^ 64"
    using al(3) assms(3) by linarith
  moreover have "0 < pmm_total_pages t" if "pmm_total_pages t \<noteq> 0" for t :: "'a pmm_state_scheme"
    using that by (simp add: word_neq_0_conv)
  ultimately show ?thesis
    unfolding pmm_inv_def f(1-3,5,6) using f(3,4) nz al(1) by simp
qed

section \<open>Allocation\<close>

text \<open>The cyclic search order from the last allocation, and the state after taking a page.\<close>

definition scan_page :: "'a pmm_state_scheme \<Rightarrow> nat \<Rightarrow> nat" where
  "scan_page s i = (unat (pmm_last_alloc s) + i) mod unat (pmm_total_pages s)"

definition next_free :: "'a pmm_state_scheme \<Rightarrow> nat option" where
  "next_free s = find (\<lambda>p. \<not> page_used (bitmap s) p)
     (map (scan_page s) [0..<unat (pmm_total_pages s)])"

definition take_page :: "nat \<Rightarrow> 'a pmm_state_scheme \<Rightarrow> 'a pmm_state_scheme" where
  "take_page p s = (pmm_set_used (of_nat p) s)
     \<lparr>pmm_free_pages := pmm_free_pages s - 1,
      pmm_last_alloc := (of_nat p + 1) mod pmm_total_pages s\<rparr>"

lemma take_page_frame [simp]:
  "length (bitmap (take_page p s)) = length (bitmap s)" "con (take_page p s) = con s"
  "pmm_base (take_page p s) = pmm_base s" "pmm_total_pages (take_page p s) = pmm_total_pages s"
  "pmm_state.more (take_page p s) = pmm_state.more s"
  by (simp_all add: take_page_def)

lemma kprintf_frame [simp]:
  "bitmap (kprintf f xs s) = bitmap s" "pmm_base (kprintf f xs s) = pmm_base s"
  "pmm_total_pages (kprintf f xs s) = pmm_total_pages s"
  "pmm_free_pages (kprintf f xs s) = pmm_free_pages s"
  "pmm_last_alloc (kprintf f xs s) = pmm_last_alloc s"
  "pmm_state.more (kprintf f xs s) = pmm_state.more s"
  by (simp_all add: kprintf_def)

lemma kprintf_abs [simp]:
  "free_pages (kprintf f xs s) = free_pages s" "next_free (kprintf f xs s) = next_free s"
  "scan_page (kprintf f xs s) = scan_page s" "page_addr (kprintf f xs s) = page_addr s"
  "pmm_inv (kprintf f xs s) = pmm_inv s"
proof -
  show "scan_page (kprintf f xs s) = scan_page s" "page_addr (kprintf f xs s) = page_addr s"
    "free_pages (kprintf f xs s) = free_pages s"
    by (simp_all add: scan_page_def page_addr_def free_pages_def fun_eq_iff)
  then show "next_free (kprintf f xs s) = next_free s" "pmm_inv (kprintf f xs s) = pmm_inv s"
    by (simp_all add: next_free_def pmm_inv_def)
qed

lemma scan_word:
  assumes "unat (pmm_total_pages s) \<le> 131072" "pmm_last_alloc s < pmm_total_pages s"
    and "i < unat (pmm_total_pages s)"
  shows "(pmm_last_alloc s + of_nat i) mod pmm_total_pages s = of_nat (scan_page s i)"
proof -
  have "pmm_last_alloc s + of_nat i = of_nat (unat (pmm_last_alloc s) + i)" by simp
  moreover have "unat (pmm_last_alloc s) + i < 2 ^ 64"
    using assms by (simp add: word_less_nat_alt)
  ultimately have "unat (pmm_last_alloc s + of_nat i) = unat (pmm_last_alloc s) + i"
    by (simp only: unat_of_nat_u64)
  then have "unat ((pmm_last_alloc s + of_nat i) mod pmm_total_pages s) = scan_page s i"
    by (simp only: scan_page_def unat_mod)
  then show ?thesis by (rule word_eq_of_nat)
qed

lemma alloc_loop_find:
  assumes "unat (pmm_total_pages s) \<le> 131072" "pmm_last_alloc s < pmm_total_pages s"
    and "i + n = unat (pmm_total_pages s)"
  shows "pmm_alloc_loop n (of_nat i) s =
     (case find (\<lambda>p. \<not> page_used (bitmap s) p) (map (scan_page s) [i..<i + n]) of
        None \<Rightarrow> (0, s)
      | Some p \<Rightarrow> (page_addr s p, take_page p s))"
  using assms(3)
proof (induction n arbitrary: i)
  case 0
  then show ?case by simp
next
  case (Suc n)
  let ?p = "scan_page s i"
  have T: "0 < unat (pmm_total_pages s)" using Suc.prems by simp
  then have "?p < unat (pmm_total_pages s)" by (simp add: scan_page_def)
  then have p: "unat (of_nat ?p :: u64) = ?p"
    using assms(1) by (intro unat_of_nat_u64) simp
  have w: "(pmm_last_alloc s + of_nat i) mod pmm_total_pages s = of_nat ?p"
    using assms(1,2) Suc.prems by (intro scan_word) auto
  have used: "pmm_is_used (of_nat ?p) s \<longleftrightarrow> page_used (bitmap s) ?p"
    by (simp only: pmm_is_used_iff p)
  have "pmm_alloc_loop n (of_nat i + 1) s = pmm_alloc_loop n (of_nat (Suc i)) s"
    by (simp add: add.commute)
  moreover have "[i..<i + Suc n] = i # [Suc i..<Suc i + n]"
    by (simp add: upt_conv_Cons)
  ultimately show ?case
    using Suc.IH [of "Suc i"] Suc.prems
    by (simp add: Let_def w used take_page_def page_addr_def del: upt_Suc of_nat_Suc)
qed

lemma pmm_alloc_eq:
  assumes "pmm_inv s"
  shows "pmm_alloc s = (case next_free s of None \<Rightarrow> (0, pmm_alloc_log s)
    | Some p \<Rightarrow> (page_addr s p, take_page p (pmm_alloc_log s)))"
proof (cases "pmm_total_pages s = 0")
  case True
  then show ?thesis by (simp add: pmm_alloc_def Let_def next_free_def pmm_alloc_log_def)
next
  case False
  have "pmm_alloc_loop (unat (pmm_total_pages t)) (of_nat 0) t =
      (case next_free t of None \<Rightarrow> (0, t) | Some p \<Rightarrow> (page_addr t p, take_page p t))"
    if "pmm_inv t" "pmm_total_pages t \<noteq> 0" for t :: "'a pmm_state_scheme"
    unfolding next_free_def using that
    by (subst alloc_loop_find) (simp_all add: pmm_inv_def)
  from this [of "pmm_alloc_log s"] False assms
  show ?thesis by (simp add: pmm_alloc_def Let_def pmm_alloc_log_def split: option.split)
qed

lemma next_free_Some:
  assumes "next_free s = Some p"
  shows "p \<in> free_pages s"
    and "\<exists>i<unat (pmm_total_pages s). p = scan_page s i \<and> (\<forall>j<i. page_used (bitmap s) (scan_page s j))"
proof -
  from assms obtain i where i: "i < unat (pmm_total_pages s)" "p = scan_page s i"
    "\<not> page_used (bitmap s) p" "\<forall>j<i. page_used (bitmap s) (scan_page s j)"
    by (auto simp: next_free_def find_Some_iff)
  then show "\<exists>i<unat (pmm_total_pages s). p = scan_page s i \<and> (\<forall>j<i. page_used (bitmap s) (scan_page s j))"
    by blast
  have "p < unat (pmm_total_pages s)" using i(1,2) by (simp add: scan_page_def)
  with i(3) show "p \<in> free_pages s" by (simp add: free_pages_def)
qed

lemma scan_page_onto:
  assumes "unat (pmm_last_alloc s) < unat (pmm_total_pages s)" "p < unat (pmm_total_pages s)"
  shows "\<exists>i<unat (pmm_total_pages s). scan_page s i = p"
proof -
  let ?T = "unat (pmm_total_pages s)" and ?L = "unat (pmm_last_alloc s)"
  have "scan_page s (p - ?L) = p" if "?L \<le> p"
    using that assms(2) by (simp add: scan_page_def)
  moreover have "scan_page s (p + ?T - ?L) = p" if "p < ?L"
    using that assms by (simp add: scan_page_def)
  moreover have "p - ?L < ?T" using assms by linarith
  moreover have "p < ?L \<Longrightarrow> p + ?T - ?L < ?T" using assms by linarith
  ultimately show ?thesis by (metis not_le)
qed

lemma next_free_None_iff:
  assumes "pmm_inv s"
  shows "next_free s = None \<longleftrightarrow> free_pages s = {}"
proof
  assume none: "next_free s = None"
  show "free_pages s = {}"
  proof (rule ccontr)
    assume "free_pages s \<noteq> {}"
    then obtain p where p: "p < unat (pmm_total_pages s)" "\<not> page_used (bitmap s) p"
      by (auto simp: free_pages_def)
    moreover have "unat (pmm_last_alloc s) < unat (pmm_total_pages s)"
      using assms p(1) by (auto simp: pmm_inv_def word_less_nat_alt)
    ultimately obtain i where "i < unat (pmm_total_pages s)" "scan_page s i = p"
      using scan_page_onto by blast
    with none p(2) show False by (auto simp: next_free_def find_None_iff)
  qed
next
  assume "free_pages s = {}"
  then show "next_free s = None"
    using next_free_Some(1) [of s] by (cases "next_free s") auto
qed

lemma pmm_alloc_log_frame [simp]:
  "bitmap (pmm_alloc_log s) = bitmap s" "pmm_base (pmm_alloc_log s) = pmm_base s"
  "pmm_total_pages (pmm_alloc_log s) = pmm_total_pages s"
  "pmm_free_pages (pmm_alloc_log s) = pmm_free_pages s"
  "pmm_last_alloc (pmm_alloc_log s) = pmm_last_alloc s"
  "pmm_state.more (pmm_alloc_log s) = pmm_state.more s"
  "free_pages (pmm_alloc_log s) = free_pages s" "pmm_inv (pmm_alloc_log s) = pmm_inv s"
  by (simp_all add: pmm_alloc_log_def)

lemma free_pages_finite [simp]: "finite (free_pages s)"
  by (simp add: free_pages_def)

lemma free_page_word:
  assumes "pmm_inv s" "p \<in> free_pages s"
  shows "unat (of_nat p :: u64) = p" "unat (of_nat p :: u64) < 64 * length (bitmap s)"
proof -
  have "p < 131072" using assms by (auto simp: free_pages_def pmm_inv_def)
  then show "unat (of_nat p :: u64) = p" by (intro unat_of_nat_u64) simp
  with \<open>p < 131072\<close> show "unat (of_nat p :: u64) < 64 * length (bitmap s)"
    using assms by (simp only: pmm_inv_def)
qed

lemma free_pages_take_page:
  assumes "pmm_inv s" "p \<in> free_pages s"
  shows "free_pages (take_page p s) = free_pages s - {p}"
  using page_used_set_used [OF free_page_word(2) [OF assms]] free_page_word(1) [OF assms]
  by (auto simp: free_pages_def take_page_def)

lemma take_page_inv:
  assumes "pmm_inv s" "p \<in> free_pages s"
  shows "pmm_inv (take_page p s)"
proof -
  have "0 < card (free_pages s)" using assms(2) by (auto simp: card_gt_0_iff)
  then have nz: "pmm_free_pages s \<noteq> 0" using assms(1) by (auto simp: pmm_inv_def unat_eq_0)
  have "unat (pmm_free_pages (take_page p s)) = card (free_pages (take_page p s))"
    using assms by (simp add: free_pages_take_page)
      (simp add: take_page_def unat_minus_one nz pmm_inv_def)
  moreover have "pmm_last_alloc (take_page p s) < pmm_total_pages s" if "pmm_total_pages s \<noteq> 0"
    using that by (simp add: take_page_def word_less_nat_alt unat_mod unat_gt_0)
  ultimately show ?thesis using assms(1) by (simp add: pmm_inv_def)
qed

lemma page_addr_unat:
  assumes "pmm_inv s" "p < unat (pmm_total_pages s)"
  shows "unat (page_addr s p) = unat (pmm_base s) + p * 4096"
proof -
  have p: "p < 131072" and b: "unat (pmm_base s) + p * 4096 < 2 ^ 64"
    using assms by (auto simp: pmm_inv_def)
  have "page_addr s p = of_nat (unat (pmm_base s) + p * 4096)"
    by (simp add: page_addr_def)
  with b show ?thesis by (simp only: unat_of_nat_u64)
qed

lemma page_addr_page:
  assumes "pmm_inv s" "p < unat (pmm_total_pages s)"
  shows "page_addr s p \<noteq> 0" "4096 dvd unat (page_addr s p)" "pmm_base s \<le> page_addr s p"
    and "(page_addr s p - pmm_base s) div PAGE_SIZE = of_nat p"
proof -
  note u = page_addr_unat [OF assms]
  have b: "unat (pmm_base s) \<noteq> 0" "4096 dvd unat (pmm_base s)"
    using assms(1) by (auto simp: pmm_inv_def unat_eq_0)
  have "unat (page_addr s p) \<noteq> 0" using u b(1) by linarith
  then show "page_addr s p \<noteq> 0" by (simp add: unat_eq_0)
  show "4096 dvd unat (page_addr s p)" unfolding u using b(2) by simp
  show le: "pmm_base s \<le> page_addr s p" by (simp add: word_le_nat_alt u)
  have "unat (page_addr s p - pmm_base s) = p * 4096"
    using le u by (simp add: unat_sub)
  then have "unat ((page_addr s p - pmm_base s) div PAGE_SIZE) = p"
    by (simp add: unat_div)
  then show "(page_addr s p - pmm_base s) div PAGE_SIZE = of_nat p" by (rule word_eq_of_nat)
qed

lemma page_addr_inj:
  assumes "pmm_inv s" "p < unat (pmm_total_pages s)" "q < unat (pmm_total_pages s)"
    and "page_addr s p = page_addr s q"
  shows "p = q"
proof -
  have "unat (pmm_base s) + p * 4096 = unat (pmm_base s) + q * 4096"
    using page_addr_unat [OF assms(1,2)] page_addr_unat [OF assms(1,3)] assms(4) by argo
  then show ?thesis by simp
qed

section \<open>Freeing\<close>

definition release_page :: "nat \<Rightarrow> 'a pmm_state_scheme \<Rightarrow> 'a pmm_state_scheme" where
  "release_page p s = (pmm_set_free (of_nat p) s)\<lparr>pmm_free_pages := pmm_free_pages s + 1\<rparr>"

lemma release_page_frame [simp]:
  "length (bitmap (release_page p s)) = length (bitmap s)" "con (release_page p s) = con s"
  "pmm_base (release_page p s) = pmm_base s" "pmm_total_pages (release_page p s) = pmm_total_pages s"
  "pmm_last_alloc (release_page p s) = pmm_last_alloc s"
  "pmm_state.more (release_page p s) = pmm_state.more s"
  by (simp_all add: release_page_def)

lemma pmm_free_eq:
  fixes addr :: u64
  assumes "pmm_inv s"
  defines "p \<equiv> unat (addr - pmm_base s) div 4096"
  shows "pmm_free addr s =
    (if addr = 0 \<or> addr < pmm_base s \<or> unat (pmm_total_pages s) \<le> p \<or> p \<in> free_pages s then s
     else release_page p s)"
proof -
  have w: "unat ((addr - pmm_base s) div PAGE_SIZE) = p" by (simp add: p_def unat_div)
  then have "(addr - pmm_base s) div PAGE_SIZE = of_nat p" by (rule word_eq_of_nat)
  with w show ?thesis
    by (auto simp: pmm_free_def Let_def pmm_is_used_iff free_pages_def word_le_nat_alt release_page_def)
qed

lemma used_page_word:
  assumes "pmm_inv s" "p < unat (pmm_total_pages s)"
  shows "unat (of_nat p :: u64) = p" "unat (of_nat p :: u64) < 64 * length (bitmap s)"
proof -
  have "p < 131072" using assms by (auto simp: pmm_inv_def)
  then show "unat (of_nat p :: u64) = p" by (intro unat_of_nat_u64) simp
  with \<open>p < 131072\<close> show "unat (of_nat p :: u64) < 64 * length (bitmap s)"
    using assms by (simp only: pmm_inv_def)
qed

lemma free_pages_release_page:
  assumes "pmm_inv s" "p < unat (pmm_total_pages s)"
  shows "free_pages (release_page p s) = insert p (free_pages s)"
  using page_used_set_free [OF used_page_word(2) [OF assms]] used_page_word(1) [OF assms] assms(2)
  by (auto simp: free_pages_def release_page_def)

lemma card_free_pages: "card (free_pages s) \<le> unat (pmm_total_pages s)"
proof -
  have "free_pages s \<subseteq> {..<unat (pmm_total_pages s)}" by (auto simp: free_pages_def)
  then have "card (free_pages s) \<le> card {..<unat (pmm_total_pages s)}" by (intro card_mono) auto
  then show ?thesis by simp
qed

lemma release_page_inv:
  assumes "pmm_inv s" "p < unat (pmm_total_pages s)" "p \<notin> free_pages s"
  shows "pmm_inv (release_page p s)"
proof -
  have "unat (pmm_free_pages s) + unat (1 :: u64) < 2 ^ 64"
    using assms(1) card_free_pages [of s] by (simp add: pmm_inv_def)
  then have "unat (pmm_free_pages s + 1) = unat (pmm_free_pages s) + unat (1 :: u64)"
    by (rule unat_add_u64)
  then have "unat (pmm_free_pages (release_page p s)) = card (free_pages (release_page p s))"
    using assms by (simp add: free_pages_release_page) (simp add: release_page_def pmm_inv_def)
  then show ?thesis using assms(1) by (simp add: pmm_inv_def)
qed

lemma pmm_free_inv:
  assumes "pmm_inv s"
  shows "pmm_inv (pmm_free addr s)"
  using assms release_page_inv [OF assms] by (auto simp: pmm_free_eq not_le)

lemma pmm_free_frame [simp]:
  "con (pmm_free a s) = con s" "pmm_base (pmm_free a s) = pmm_base s"
  "pmm_total_pages (pmm_free a s) = pmm_total_pages s"
  "pmm_state.more (pmm_free a s) = pmm_state.more s"
  by (simp_all add: pmm_free_def Let_def)

lemma pmm_alloc_loop_frame [simp]:
  "pmm_base (snd (pmm_alloc_loop n i s)) = pmm_base s"
  "pmm_total_pages (snd (pmm_alloc_loop n i s)) = pmm_total_pages s"
  "con (snd (pmm_alloc_loop n i s)) = con s"
  "pmm_state.more (snd (pmm_alloc_loop n i s)) = pmm_state.more s"
  by (induction n i s rule: pmm_alloc_loop.induct) (simp_all add: Let_def)

lemma pmm_alloc_frame [simp]:
  "pmm_base (snd (pmm_alloc s)) = pmm_base s"
  "pmm_total_pages (snd (pmm_alloc s)) = pmm_total_pages s"
  "pmm_state.more (snd (pmm_alloc s)) = pmm_state.more s"
  by (simp_all add: pmm_alloc_def Let_def)

section \<open>The allocator keeps the page contract\<close>

definition pmm_avail :: "'a pmm_state_scheme \<Rightarrow> u64 set" where
  "pmm_avail s = page_addr s ` free_pages s"

definition pmm_pool :: "'a pmm_state_scheme \<Rightarrow> u64 set" where
  "pmm_pool s = page_addr s ` {..<unat (pmm_total_pages s)}"

lemma page_addr_cong [simp]:
  "page_addr (take_page p s) = page_addr s" "page_addr (release_page p s) = page_addr s"
  "page_addr (pmm_free a s) = page_addr s" "page_addr (snd (pmm_alloc s)) = page_addr s"
  "page_addr (pmm_alloc_log s) = page_addr s"
  by (simp_all add: page_addr_def fun_eq_iff)

lemma inj_page_addr: "pmm_inv s \<Longrightarrow> inj_on (page_addr s) {..<unat (pmm_total_pages s)}"
  by (auto intro!: inj_onI dest: page_addr_inj)

lemma free_pages_subset: "free_pages s \<subseteq> {..<unat (pmm_total_pages s)}"
  by (auto simp: free_pages_def)

lemma pmm_avail_take_page:
  assumes "pmm_inv s" "p \<in> free_pages s"
  shows "pmm_avail (take_page p s) = pmm_avail s - {page_addr s p}"
proof -
  have "inj_on (page_addr s) (free_pages s)"
    using inj_page_addr [OF assms(1)] free_pages_subset by (rule inj_on_subset)
  then show ?thesis
    using assms by (simp add: pmm_avail_def free_pages_take_page inj_on_image_set_diff [where C = "free_pages s"])
qed

lemma pmm_free_page_addr:
  assumes "pmm_inv s" "p < unat (pmm_total_pages s)"
  shows "pmm_free (page_addr s p) s = (if p \<in> free_pages s then s else release_page p s)"
proof -
  have "unat (page_addr s p - pmm_base s) = p * 4096"
    using page_addr_page(3) [OF assms] page_addr_unat [OF assms] by (simp add: unat_sub)
  then have "unat (page_addr s p - pmm_base s) div 4096 = p" by simp
  moreover have "\<not> page_addr s p < pmm_base s" "page_addr s p \<noteq> 0"
    using page_addr_page(1,3) [OF assms] by (simp_all add: not_less)
  ultimately show ?thesis using assms by (simp add: pmm_free_eq)
qed

interpretation pmm: page_allocator pmm_alloc pmm_free pmm_avail pmm_pool pmm_inv
proof unfold_locales
  fix s :: "'a pmm_state_scheme" and a
  assume inv: "pmm_inv s"
  show "pmm_avail s \<subseteq> pmm_pool s"
    using free_pages_subset by (auto simp: pmm_avail_def pmm_pool_def)
  show "finite (pmm_pool s)" by (simp add: pmm_pool_def)
  show "a \<in> pmm_pool s \<Longrightarrow> a \<noteq> 0 \<and> 4096 dvd unat a"
    using page_addr_page(1,2) [OF inv] by (auto simp: pmm_pool_def)
  show "pmm_inv (snd (pmm_alloc s))"
    using inv take_page_inv [of "pmm_alloc_log s"] next_free_Some(1) [of s]
    by (auto simp: pmm_alloc_eq split: option.split)
  show "pmm_pool (snd (pmm_alloc s)) = pmm_pool s" by (simp add: pmm_pool_def)
  show "pmm_avail s = {} \<Longrightarrow> fst (pmm_alloc s) = 0 \<and> pmm_avail (snd (pmm_alloc s)) = {}"
    using next_free_None_iff [OF inv] inv by (simp add: pmm_avail_def pmm_alloc_eq)
  show "pmm_inv (pmm_free a s)" by (rule pmm_free_inv [OF inv])
  show "pmm_pool (pmm_free a s) = pmm_pool s" by (simp add: pmm_pool_def)
  show "pmm_avail (pmm_free a s) = insert a (pmm_avail s)" if "a \<in> pmm_pool s"
  proof -
    from that obtain p where "a = page_addr s p" "p < unat (pmm_total_pages s)"
      by (auto simp: pmm_pool_def)
    with inv show ?thesis
      by (cases "p \<in> free_pages s")
        (simp_all add: pmm_avail_def pmm_free_page_addr free_pages_release_page insert_absorb)
  qed
  show "fst (pmm_alloc s) \<in> pmm_avail s \<and> pmm_avail (snd (pmm_alloc s)) = pmm_avail s - {fst (pmm_alloc s)}"
    if "pmm_avail s \<noteq> {}"
  proof -
    from that obtain p where p: "next_free s = Some p"
      using next_free_None_iff [OF inv] by (cases "next_free s") (auto simp: pmm_avail_def)
    note f = next_free_Some(1) [OF p]
    have "pmm_avail (take_page p (pmm_alloc_log s)) = pmm_avail (pmm_alloc_log s) - {page_addr s p}"
      using pmm_avail_take_page [of "pmm_alloc_log s" p] inv f by simp
    then show ?thesis using inv p f by (simp add: pmm_alloc_eq pmm_avail_def)
  qed
qed

end
