(* ===== verification/Kheap.thy ===== *)
theory Kheap
  imports Pmm
begin

text \<open>
  The kernel heap of \<^verbatim>\<open>kernel/mm/vmm.c\<close> (\<^verbatim>\<open>kmalloc\<close>, \<^verbatim>\<open>kfree\<close>): a bump allocator over
  4 MB with a first-fit list of the blocks handed out so far.  The block headers, which the C
  code keeps in front of each payload, are a map from header address to header.
  A header's \<open>size\<close> may come to lie: the first switch to a process writes behind its stack
  (\<open>store_over_header\<close>), so where a block ends is told by the header that follows it.
\<close>

section \<open>State and operations\<close>

abbreviation KHEAP_START :: u64 where "KHEAP_START \<equiv> 0x400000"
abbreviation KHEAP_SIZE :: u64 where "KHEAP_SIZE \<equiv> 0x400000"

text \<open>\<^verbatim>\<open>sizeof(heap_block_t)\<close>: a 64-bit size, an \<^verbatim>\<open>int\<close> flag padded to eight bytes, a pointer.\<close>

abbreviation HEADER_SIZE :: u64 where "HEADER_SIZE \<equiv> 24"

record heap_block =
  hb_size :: u64
  hb_free :: bool
  hb_next :: u64

record heap_state = pmm_state +
  heap_ptr :: u64
  heap_head :: u64
  blocks :: "u64 \<rightharpoonup> heap_block"

definition set_block_free :: "u64 \<Rightarrow> bool \<Rightarrow> (u64 \<rightharpoonup> heap_block) \<Rightarrow> (u64 \<rightharpoonup> heap_block)" where
  "set_block_free blk v h = h(blk := map_option (\<lambda>b. b\<lparr>hb_free := v\<rparr>) (h blk))"

text \<open>
  The first-fit walk: \<open>Some 0\<close> when the list ends without a fitting free block, \<open>None\<close> when the
  walk does not end or leaves the headers (a corrupted list).
\<close>

partial_function (option) kmalloc_find :: "(u64 \<rightharpoonup> heap_block) \<Rightarrow> u64 \<Rightarrow> u64 \<Rightarrow> u64 option" where
  "kmalloc_find h sz blk =
     (if blk = 0 then Some 0
      else case h blk of None \<Rightarrow> None
           | Some b \<Rightarrow>
               if hb_free b \<and> hb_size b \<ge> sz then Some blk
               else kmalloc_find h sz (hb_next b))"

definition kmalloc :: "u64 \<Rightarrow> 'a heap_state_scheme \<Rightarrow> (u64 \<times> 'a heap_state_scheme) option" where
  "kmalloc req s =
     (if req = 0 then Some (0, s)
      else
        let sz = ALIGN_UP req 16 in
        (case kmalloc_find (blocks s) sz (heap_head s) of
           None \<Rightarrow> None
         | Some blk \<Rightarrow>
             if blk \<noteq> 0 then
               Some (blk + HEADER_SIZE, s\<lparr>blocks := set_block_free blk False (blocks s)\<rparr>)
             else
               let total = HEADER_SIZE + sz in
               if heap_ptr s + total > KHEAP_START + KHEAP_SIZE then Some (0, s)
               else
                 let new = heap_ptr s in
                 Some (new + HEADER_SIZE,
                   s\<lparr>heap_ptr := heap_ptr s + total,
                     blocks := (blocks s)(new \<mapsto>
                       \<lparr>hb_size = sz, hb_free = False, hb_next = heap_head s\<rparr>),
                     heap_head := new\<rparr>)))"

text \<open>\<open>None\<close>: the pointer is no block of the heap, and the C code overwrites foreign memory.\<close>

definition kfree :: "u64 \<Rightarrow> 'a heap_state_scheme \<Rightarrow> 'a heap_state_scheme option" where
  "kfree ptr s =
     (if ptr = 0 then Some s
      else
        let blk = ptr - HEADER_SIZE in
        if blocks s blk = None then None
        else Some (s\<lparr>blocks := set_block_free blk True (blocks s)\<rparr>))"

text \<open>A 64-bit store at the address of a header replaces its first field.\<close>

definition store_over_header :: "u64 \<Rightarrow> u64 \<Rightarrow> (u64 \<rightharpoonup> heap_block) \<Rightarrow> (u64 \<rightharpoonup> heap_block)" where
  "store_over_header a v h = h(a := map_option (\<lambda>b. b\<lparr>hb_size := v\<rparr>) (h a))"

section \<open>The list of blocks\<close>

text \<open>
  \<open>heap_wf ok h e h0 bs\<close>: the list from \<open>h0\<close> is \<open>bs\<close>, newest block first, the blocks fill the bytes from
  the start of the heap up to \<open>e\<close> without gaps, and \<open>ok\<close> holds of each header and the length of
  its block.
\<close>

fun heap_wf :: "(heap_block \<Rightarrow> nat \<Rightarrow> bool) \<Rightarrow> (u64 \<rightharpoonup> heap_block) \<Rightarrow> nat \<Rightarrow> u64 \<Rightarrow> u64 list \<Rightarrow> bool" where
  "heap_wf ok h e h0 [] \<longleftrightarrow> e = 0x400000 \<and> h0 = 0"
| "heap_wf ok h e h0 (a # as) \<longleftrightarrow>
     h0 = a \<and> (\<exists>b n. h a = Some b \<and> 16 dvd n \<and> ok b n
       \<and> e = unat a + 24 + n \<and> heap_wf ok h (unat a) (hb_next b) as)"

definition heap_list :: "(heap_block \<Rightarrow> nat \<Rightarrow> bool) \<Rightarrow> 'a heap_state_scheme \<Rightarrow> u64 list \<Rightarrow> bool" where
  "heap_list ok s bs \<longleftrightarrow> heap_wf ok (blocks s) (unat (heap_ptr s)) (heap_head s) bs
     \<and> dom (blocks s) = set bs \<and> unat (heap_ptr s) \<le> 0x800000"

definition heap_with :: "(heap_block \<Rightarrow> nat \<Rightarrow> bool) \<Rightarrow> 'a heap_state_scheme \<Rightarrow> bool" where
  "heap_with ok s \<longleftrightarrow> (\<exists>bs. heap_list ok s bs)"

text \<open>
  Three conditions on headers: a free block is not larger than it is said to be; every block has the
  size in its header; no block is free.  The kernel never frees a block, and keeps the last one.
\<close>

definition fitting :: "heap_block \<Rightarrow> nat \<Rightarrow> bool" where
  "fitting b n \<longleftrightarrow> (hb_free b \<longrightarrow> unat (hb_size b) \<le> n)"

definition exact :: "heap_block \<Rightarrow> nat \<Rightarrow> bool" where
  "exact b n \<longleftrightarrow> unat (hb_size b) = n"

definition held :: "heap_block \<Rightarrow> nat \<Rightarrow> bool" where
  "held b n \<longleftrightarrow> \<not> hb_free b"

abbreviation heap_ok :: "'a heap_state_scheme \<Rightarrow> bool" where "heap_ok \<equiv> heap_with fitting"
abbreviation heap_exact :: "'a heap_state_scheme \<Rightarrow> bool" where "heap_exact \<equiv> heap_with exact"
abbreviation heap_inv :: "'a heap_state_scheme \<Rightarrow> bool" where "heap_inv \<equiv> heap_with held"

text \<open>What every such condition has: it is kept when a block is taken, and holds of a new one.\<close>

definition header_ok :: "(heap_block \<Rightarrow> nat \<Rightarrow> bool) \<Rightarrow> bool" where
  "header_ok ok \<longleftrightarrow> (\<forall>b n. ok b n \<longrightarrow> fitting b n \<and> ok (b\<lparr>hb_free := False\<rparr>) n) \<and>
     (\<forall>sz nx. ok \<lparr>hb_size = sz, hb_free = False, hb_next = nx\<rparr> (unat sz))"

lemma header_ok_conditions: "header_ok fitting" "header_ok exact" "header_ok held"
  by (simp_all add: header_ok_def fitting_def exact_def held_def)

definition live :: "'a heap_state_scheme \<Rightarrow> u64 set" where
  "live s = {ptr. \<exists>b. blocks s (ptr - HEADER_SIZE) = Some b \<and> \<not> hb_free b}"

text \<open>The bytes of a block: up to the next header or the end of the heap.\<close>

definition payload :: "'a heap_state_scheme \<Rightarrow> u64 \<Rightarrow> nat set" where
  "payload s ptr = {x. unat ptr \<le> x \<and> x < unat (heap_ptr s) \<and>
     (\<forall>a\<in>dom (blocks s). \<not> (unat ptr \<le> unat a \<and> unat a \<le> x))}"

lemma heap_wf_ConsE:
  assumes "heap_wf ok h e h0 (a # as)"
  obtains b n where "h0 = a" "h a = Some b" "16 dvd n" "ok b n" "e = unat a + 24 + n" "heap_wf ok h (unat a) (hb_next b) as"
  using assms [unfolded heap_wf.simps] by (elim conjE exE) (rule that)

lemma heap_wf_start: "heap_wf ok h e h0 bs \<Longrightarrow> 0x400000 \<le> e"
proof (induction bs arbitrary: e h0)
  case (Cons a as)
  from Cons.prems obtain b :: heap_block and n where "heap_wf ok h (unat a) (hb_next b) as" "e = unat a + 24 + n"
    by (elim heap_wf_ConsE)
  with Cons.IH [of "unat a" "hb_next b"] show ?case by linarith
qed simp

lemma heap_wf_below: "heap_wf ok h e h0 bs \<Longrightarrow> a \<in> set bs \<Longrightarrow> unat a + 24 \<le> e"
proof (induction bs arbitrary: e h0)
  case (Cons c as)
  from Cons.prems(1) obtain b :: heap_block and n where c: "heap_wf ok h (unat c) (hb_next b) as" "e = unat c + 24 + n"
    by (elim heap_wf_ConsE)
  then show ?case using Cons.IH [OF c(1)] Cons.prems(2) by (cases "a = c") auto
qed simp

text \<open>The length of a block of the list: it ends where the heap or the next block does.\<close>

lemma heap_wf_member:
  assumes "heap_wf ok h e h0 bs" "a \<in> set bs"
  shows "\<exists>b n. h a = Some b \<and> 16 dvd n \<and> ok b n \<and> 0x400000 \<le> unat a \<and> unat a + 24 + n \<le> e \<and>
    (\<forall>c\<in>set bs. unat a < unat c \<longrightarrow> unat a + 24 + n \<le> unat c) \<and>
    (unat a + 24 + n = e \<or> (\<exists>c\<in>set bs. unat c = unat a + 24 + n))"
  using assms
proof (induction bs arbitrary: e h0)
  case (Cons c as)
  from Cons.prems(1) obtain b n where c: "h c = Some b" "16 dvd n" "ok b n" "e = unat c + 24 + n"
      "heap_wf ok h (unat c) (hb_next b) as" by (rule heap_wf_ConsE)
  show ?case
  proof (cases "a = c")
    case True
    have "\<not> unat c < unat d" if "d \<in> set as" for d using heap_wf_below [OF c(5) that] by simp
    then show ?thesis using True c heap_wf_start [OF c(5)] by auto
  next
    case False
    then obtain b' n' where "h a = Some b'" "16 dvd n'" "ok b' n'" "0x400000 \<le> unat a" "unat a + 24 + n' \<le> unat c"
      "\<forall>d\<in>set as. unat a < unat d \<longrightarrow> unat a + 24 + n' \<le> unat d"
      "unat a + 24 + n' = unat c \<or> (\<exists>d\<in>set as. unat d = unat a + 24 + n')"
      using Cons.IH [OF c(5)] Cons.prems(2) by auto
    then show ?thesis using c(4) by (intro exI [of _ b'] exI [of _ n']) auto
  qed
qed simp

lemma heap_wf_cong:
  assumes "\<And>a. a \<in> set bs \<Longrightarrow> rel_option (\<lambda>b b'. hb_next b = hb_next b' \<and> (\<forall>n. ok b n = ok' b' n)) (h a) (h' a)"
  shows "heap_wf ok h e h0 bs = heap_wf ok' h' e h0 bs"
  using assms
proof (induction bs arbitrary: e h0)
  case (Cons a as)
  have "rel_option (\<lambda>b b'. hb_next b = hb_next b' \<and> (\<forall>n. ok b n = ok' b' n)) (h a) (h' a)" by (rule Cons.prems) simp
  moreover have "heap_wf ok h e h0 as = heap_wf ok' h' e h0 as" for e h0 by (rule Cons.IH) (use Cons.prems in simp)
  ultimately show ?case by (auto simp: option_rel_Some1 option_rel_Some2)
qed simp

lemma heap_wf_mono:
  assumes "heap_wf ok h e h0 bs" "\<And>b n. ok b n \<Longrightarrow> ok' b n"
  shows "heap_wf ok' h e h0 bs"
  using assms(1)
proof (induction bs arbitrary: e h0)
  case (Cons a as)
  from Cons.prems obtain b n where "h0 = a" "h a = Some b" "16 dvd n" "ok b n" "e = unat a + 24 + n"
    "heap_wf ok h (unat a) (hb_next b) as" by (rule heap_wf_ConsE)
  then show ?case using Cons.IH assms(2) by auto
qed simp

lemma heap_with_mono: "heap_with ok s \<Longrightarrow> (\<And>b n. ok b n \<Longrightarrow> ok' b n) \<Longrightarrow> heap_with ok' s"
  unfolding heap_with_def heap_list_def using heap_wf_mono by metis

section \<open>Facts about the first-fit walk\<close>

definition fits :: "(u64 \<rightharpoonup> heap_block) \<Rightarrow> u64 \<Rightarrow> u64 \<Rightarrow> bool" where
  "fits h sz a \<longleftrightarrow> (case h a of None \<Rightarrow> False | Some b \<Rightarrow> hb_free b \<and> sz \<le> hb_size b)"

lemma kmalloc_find_eq:
  assumes "heap_wf ok h e h0 bs"
  shows "kmalloc_find h sz h0 = Some (case find (fits h sz) bs of None \<Rightarrow> 0 | Some a \<Rightarrow> a)"
  using assms
proof (induction bs arbitrary: e h0)
  case Nil
  then show ?case by (subst kmalloc_find.simps) simp
next
  case (Cons a as)
  from Cons.prems obtain b where b: "h0 = a" "h a = Some b" "heap_wf ok h (unat a) (hb_next b) as"
    by (elim heap_wf_ConsE)
  then have "a \<noteq> 0" using heap_wf_start [OF b(3)] by auto
  with b Cons.IH [OF b(3)] show ?case
    by (subst kmalloc_find.simps) (simp add: fits_def [of h sz a])
qed

lemma heap_wf_nonzero: "heap_wf ok h e h0 bs \<Longrightarrow> a \<in> set bs \<Longrightarrow> a \<noteq> 0"
  using heap_wf_member by fastforce

lemma unat_align16:
  assumes "unat n + 16 \<le> 2 ^ 64"
  shows "16 dvd unat (ALIGN_UP n 16)" "unat n \<le> unat (ALIGN_UP n 16)"
    "unat (ALIGN_UP n 16) \<le> unat n + 15"
proof -
  have e: "unat (ALIGN_UP n 16) = (unat n + 15) div 16 * 16"
    using unat_ALIGN_UP [of 16 4 n] assms by simp
  show "16 dvd unat (ALIGN_UP n 16)" unfolding e by simp
  show "unat n \<le> unat (ALIGN_UP n 16)" "unat (ALIGN_UP n 16) \<le> unat n + 15"
    unfolding e using div_mult_mod_eq [of "unat n + 15" 16]
      mod_less_divisor [of 16 "unat n + 15"] by linarith+
qed

section \<open>What kmalloc and kfree do to a well-formed heap\<close>

text \<open>The three ways a request that does not overflow can end.\<close>

definition first_fit :: "'a heap_state_scheme \<Rightarrow> u64 list \<Rightarrow> u64 \<Rightarrow> u64 option" where
  "first_fit s bs n = find (fits (blocks s) (ALIGN_UP n 16)) bs"

lemma kmalloc_cases:
  assumes "heap_list ok s bs" "n \<noteq> 0" "unat n \<le> 2 ^ 63"
  obtains (reuse) a where "first_fit s bs n = Some a" "a \<in> set bs"
      "kmalloc n s = Some (a + 24, s\<lparr>blocks := set_block_free a False (blocks s)\<rparr>)"
  | (full) "first_fit s bs n = None" "0x800000 < unat (heap_ptr s) + 24 + unat (ALIGN_UP n 16)"
      "kmalloc n s = Some (0, s)"
  | (grow) "first_fit s bs n = None" "unat (heap_ptr s) + 24 + unat (ALIGN_UP n 16) \<le> 0x800000"
      "kmalloc n s = Some (heap_ptr s + 24,
         s\<lparr>heap_ptr := heap_ptr s + (24 + ALIGN_UP n 16),
          blocks := (blocks s)(heap_ptr s \<mapsto>
            \<lparr>hb_size = ALIGN_UP n 16, hb_free = False, hb_next = heap_head s\<rparr>),
          heap_head := heap_ptr s\<rparr>)"
proof -
  let ?n = "ALIGN_UP n 16"
  from assms(1) have wf: "heap_wf ok (blocks s) (unat (heap_ptr s)) (heap_head s) bs"
    and le: "unat (heap_ptr s) \<le> 0x800000" by (auto simp: heap_list_def)
  have al: "unat ?n \<le> 2 ^ 63 + 15" using unat_align16(3) [of n] assms(3) by simp
  have t: "unat (24 + ?n) = 24 + unat ?n"
    using al by (subst unat_add_u64) simp_all
  have u: "unat (heap_ptr s + (24 + ?n)) = unat (heap_ptr s) + 24 + unat ?n"
    using al le t by (subst unat_add_u64) simp_all
  note find = kmalloc_find_eq [OF wf, of ?n, folded first_fit_def]
  show thesis
  proof (cases "first_fit s bs n")
    case (Some a)
    then have "a \<in> set bs" by (auto simp: first_fit_def find_Some_iff)
    with Some find assms(2) heap_wf_nonzero [OF wf this] show thesis
      by (intro reuse) (simp_all add: kmalloc_def Let_def)
  next
    case None
    have gt: "heap_ptr s + (24 + ?n) > 0x800000 \<longleftrightarrow> 0x800000 < unat (heap_ptr s) + 24 + unat ?n"
      by (simp only: word_less_nat_alt u) simp
    show thesis
    proof (cases "0x800000 < unat (heap_ptr s) + 24 + unat ?n")
      case True
      have "kmalloc n s = Some (0, s)"
        using None find assms(2) True gt by (simp add: kmalloc_def Let_def)
      with None True show thesis by (rule full)
    next
      case False
      with None find assms(2) gt show thesis
        by (intro grow) (simp_all add: kmalloc_def Let_def)
    qed
  qed
qed

lemma rel_set_block_free:
  "(\<And>b. h c = Some b \<Longrightarrow> c = a \<Longrightarrow> R b (b\<lparr>hb_free := v\<rparr>)) \<Longrightarrow> (\<And>b. R b b) \<Longrightarrow> rel_option R (h c) (set_block_free a v h c)"
  by (cases "h c") (auto simp: set_block_free_def)

lemma dom_set_block_free [simp]: "dom (set_block_free a v h) = dom h"
  by (auto simp: set_block_free_def dom_def split: if_splits)

text \<open>Taking a block, giving it back, and overwriting a header.\<close>

lemma heap_wf_change:
  assumes "heap_wf ok h e h0 bs" "\<And>a b n. h a = Some b \<Longrightarrow> ok b n \<Longrightarrow> \<exists>b'. h' a = Some b' \<and> hb_next b' = hb_next b \<and> ok' b' n"
  shows "heap_wf ok' h' e h0 bs"
  using assms(1)
proof (induction bs arbitrary: e h0)
  case (Cons a as)
  from Cons.prems obtain b n where a: "h0 = a" "h a = Some b" "16 dvd n" "ok b n" "e = unat a + 24 + n"
    "heap_wf ok h (unat a) (hb_next b) as" by (rule heap_wf_ConsE)
  obtain b' where "h' a = Some b'" "hb_next b' = hb_next b" "ok' b' n" using assms(2) [OF a(2,4)] by blast
  then show ?case using a Cons.IH [OF a(6)] by auto
qed simp

lemma heap_list_take:
  assumes "heap_list ok s bs" "header_ok ok"
  shows "heap_list ok (s\<lparr>blocks := set_block_free a False (blocks s)\<rparr>) bs"
proof -
  have "heap_wf ok (set_block_free a False (blocks s)) (unat (heap_ptr s)) (heap_head s) bs"
    by (rule heap_wf_change [of ok "blocks s"])
      (use assms in \<open>auto simp: heap_list_def header_ok_def set_block_free_def\<close>)
  then show ?thesis using assms(1) by (simp add: heap_list_def)
qed

lemma heap_exact_give:
  assumes "heap_list exact s bs"
  shows "heap_list exact (s\<lparr>blocks := set_block_free a True (blocks s)\<rparr>) bs"
proof -
  have "heap_wf exact (set_block_free a True (blocks s)) (unat (heap_ptr s)) (heap_head s) bs"
    by (rule heap_wf_change [of exact "blocks s"]) (use assms in \<open>auto simp: heap_list_def exact_def set_block_free_def\<close>)
  then show ?thesis using assms(1) by (simp add: heap_list_def)
qed

lemma dom_store_over_header [simp]: "dom (store_over_header a v h) = dom h"
  by (auto simp: store_over_header_def dom_def split: if_splits)

lemma heap_wf_store_over_header [simp]:
  "heap_wf held (store_over_header a v h) e h0 bs = heap_wf held h e h0 bs"
  by (rule heap_wf_cong) (auto simp: store_over_header_def held_def option.rel_map option.rel_refl)

text \<open>The bytes of a block of the list.\<close>

lemma heap_list_member:
  assumes "heap_list ok s bs" "a \<in> set bs"
  obtains b n where "blocks s a = Some b" "16 dvd n" "ok b n" "0x400000 \<le> unat a" "a \<noteq> 0" "unat (a + 24) = unat a + 24"
    "unat a + 24 + n \<le> unat (heap_ptr s)" "payload s (a + 24) = {unat (a + 24) ..< unat (a + 24) + n}"
    "\<forall>c\<in>set bs. unat a < unat c \<longrightarrow> unat a + 24 + n \<le> unat c"
proof -
  from assms(1) have wf: "heap_wf ok (blocks s) (unat (heap_ptr s)) (heap_head s) bs" and dom: "dom (blocks s) = set bs"
    by (auto simp: heap_list_def)
  obtain b n where b: "blocks s a = Some b" "16 dvd n" "ok b n" "0x400000 \<le> unat a" "unat a + 24 + n \<le> unat (heap_ptr s)"
    "\<forall>c\<in>set bs. unat a < unat c \<longrightarrow> unat a + 24 + n \<le> unat c"
    "unat a + 24 + n = unat (heap_ptr s) \<or> (\<exists>c\<in>set bs. unat c = unat a + 24 + n)"
    using heap_wf_member [OF wf assms(2)] by blast
  have "unat (heap_ptr s) < 2 ^ 64" by (rule unat_less_u64)
  then have "unat a + unat (24 :: u64) < 2 ^ 64" using b(5) by simp
  from unat_add_u64 [OF this] have u: "unat (a + 24) = unat a + 24" by simp
  have "payload s (a + 24) = {unat a + 24 ..< unat a + 24 + n}"
  proof (intro set_eqI iffI)
    fix x assume x: "x \<in> payload s (a + 24)"
    have "x < unat a + 24 + n"
    proof (rule ccontr)
      assume "\<not> ?thesis"
      then show False using x b(7) by (auto simp: payload_def u dom)
    qed
    then show "x \<in> {unat a + 24 ..< unat a + 24 + n}" using x by (simp add: payload_def u)
  next
    fix x assume x: "x \<in> {unat a + 24 ..< unat a + 24 + n}"
    have "\<not> (unat a + 24 \<le> unat c \<and> unat c \<le> x)" if "c \<in> set bs" for c
    proof
      assume c: "unat a + 24 \<le> unat c \<and> unat c \<le> x"
      then have "unat a < unat c" by linarith
      then have "unat a + 24 + n \<le> unat c" using b(6) that by blast
      then show False using c x by auto
    qed
    then show "x \<in> payload s (a + 24)" using x b(5) by (auto simp: payload_def u dom)
  qed
  moreover have "a \<noteq> 0" using b(4) by auto
  ultimately show thesis using that [OF b(1-4) _ u b(5) _ b(6)] u by simp
qed

lemma live_member:
  assumes "heap_list ok s bs" "p \<in> live s"
  shows "p - 24 \<in> set bs"
  using assms by (auto simp: live_def heap_list_def dom_def)

lemma live_block:
  assumes "heap_list ok s bs" "p \<in> live s"
  obtains b n where "blocks s (p - 24) = Some b" "16 dvd n" "ok b n" "0x400000 \<le> unat (p - 24)" "unat p = unat (p - 24) + 24"
    "unat p + n \<le> unat (heap_ptr s)" "payload s p = {unat p ..< unat p + n}"
    "\<forall>c\<in>set bs. unat (p - 24) < unat c \<longrightarrow> unat p + n \<le> unat c"
proof -
  obtain b n where "blocks s (p - 24) = Some b" "16 dvd n" "ok b n" "0x400000 \<le> unat (p - 24)"
    "unat (p - 24 + 24) = unat (p - 24) + 24"
    "unat (p - 24) + 24 + n \<le> unat (heap_ptr s)" "payload s (p - 24 + 24) = {unat (p - 24 + 24) ..< unat (p - 24 + 24) + n}"
    "\<forall>c\<in>set bs. unat (p - 24) < unat c \<longrightarrow> unat (p - 24) + 24 + n \<le> unat c"
    by (rule heap_list_member [OF assms(1) live_member [OF assms]])
  then show thesis by (intro that) (simp_all only: diff_add_cancel)
qed

lemma live_disjoint:
  assumes "heap_list ok s bs" "p \<in> live s" "q \<in> live s" "p \<noteq> q"
  shows "payload s p \<inter> payload s q = {}"
proof -
  obtain b n where p: "unat p = unat (p - 24) + 24" "payload s p = {unat p ..< unat p + n}"
    "\<forall>c\<in>set bs. unat (p - 24) < unat c \<longrightarrow> unat p + n \<le> unat c" by (rule live_block [OF assms(1,2)])
  obtain b' n' where q: "unat q = unat (q - 24) + 24" "payload s q = {unat q ..< unat q + n'}"
    "\<forall>c\<in>set bs. unat (q - 24) < unat c \<longrightarrow> unat q + n' \<le> unat c" by (rule live_block [OF assms(1,3)])
  have m: "p - 24 \<in> set bs" "q - 24 \<in> set bs" using live_member [OF assms(1)] assms(2,3) by blast+
  have "unat (p - 24) \<noteq> unat (q - 24)" using assms(4) p(1) q(1) word_unat_eq_iff by metis
  then consider "unat (p - 24) < unat (q - 24)" | "unat (q - 24) < unat (p - 24)" by linarith
  then show ?thesis
  proof cases
    case 1
    then have "unat p + n \<le> unat (q - 24)" using p(3) m(2) by blast
    then show ?thesis using p(1,2) q(1,2) by auto
  next
    case 2
    then have "unat q + n' \<le> unat (p - 24)" using q(3) m(1) by blast
    then show ?thesis using p(1,2) q(1,2) by auto
  qed
qed

lemma live_area:
  assumes "heap_list ok s bs" "p \<in> live s"
  shows "payload s p \<subseteq> {0x400018..<0x800000}"
proof -
  obtain b n where "0x400000 \<le> unat (p - 24)" "unat p = unat (p - 24) + 24" "unat p + n \<le> unat (heap_ptr s)"
    "payload s p = {unat p ..< unat p + n}" by (rule live_block [OF assms])
  moreover have "unat (heap_ptr s) \<le> 0x800000" using assms(1) by (simp add: heap_list_def)
  ultimately show ?thesis by auto
qed

text \<open>A first-fit hit turns a free block back into one in use.\<close>

lemma payload_same_dom:
  "dom (blocks t) = dom (blocks s) \<Longrightarrow> heap_ptr t = heap_ptr s \<Longrightarrow> payload t q = payload s q"
  by (simp add: payload_def)

lemma reuse_block:
  assumes "heap_list ok s bs" "header_ok ok" "first_fit s bs n = Some a" "unat n \<le> 2 ^ 63"
  defines "s' \<equiv> s\<lparr>blocks := set_block_free a False (blocks s)\<rparr>"
  shows "heap_list ok s' bs" "a + 24 \<notin> live s" "live s' = insert (a + 24) (live s)"
    "{unat (a + 24) ..< unat (a + 24) + unat n} \<subseteq> payload s' (a + 24)" "payload s' q = payload s q"
proof -
  show "heap_list ok s' bs" unfolding s'_def by (rule heap_list_take [OF assms(1,2)])
  from assms(3) have "fits (blocks s) (ALIGN_UP n 16) a" and a: "a \<in> set bs" by (auto simp: first_fit_def find_Some_iff)
  then obtain b where b: "blocks s a = Some b" "hb_free b" "ALIGN_UP n 16 \<le> hb_size b"
    by (auto simp: fits_def split: option.splits)
  then show "a + 24 \<notin> live s" by (simp add: live_def)
  show "live s' = insert (a + 24) (live s)"
    using b(1) by (auto simp: live_def s'_def set_block_free_def split: if_splits)
  show p: "payload s' q = payload s q" for q by (rule payload_same_dom) (simp_all add: s'_def)
  have "unat n \<le> unat (ALIGN_UP n 16)" using assms(4) by (intro unat_align16) simp
  also have "\<dots> \<le> unat (hb_size b)" using b(3) by (simp add: word_le_nat_alt)
  finally have n: "unat n \<le> unat (hb_size b)" .
  obtain b' k where k: "blocks s a = Some b'" "ok b' k" "payload s (a + 24) = {unat (a + 24) ..< unat (a + 24) + k}"
    by (rule heap_list_member [OF assms(1) a])
  then have "unat (hb_size b) \<le> k" using b assms(2) by (auto simp: header_ok_def fitting_def)
  then show "{unat (a + 24) ..< unat (a + 24) + unat n} \<subseteq> payload s' (a + 24)" unfolding p k(3) using n by auto
qed

text \<open>Growing the heap puts the new block at its end.\<close>

lemma grow_block:
  assumes "heap_list ok s bs" "header_ok ok" "unat n \<le> 2 ^ 63"
    and "unat (heap_ptr s) + 24 + unat (ALIGN_UP n 16) \<le> 0x800000"
  defines "s' \<equiv> s\<lparr>heap_ptr := heap_ptr s + (24 + ALIGN_UP n 16),
      blocks := (blocks s)(heap_ptr s \<mapsto>
        \<lparr>hb_size = ALIGN_UP n 16, hb_free = False, hb_next = heap_head s\<rparr>),
      heap_head := heap_ptr s\<rparr>"
  shows "heap_list ok s' (heap_ptr s # bs)" "heap_ptr s + 24 \<notin> live s"
    "live s' = insert (heap_ptr s + 24) (live s)"
    "{unat (heap_ptr s + 24) ..< unat (heap_ptr s + 24) + unat n} \<subseteq> payload s' (heap_ptr s + 24)"
    "q \<in> live s \<Longrightarrow> payload s' q = payload s q" "heap_ptr s \<notin> dom (blocks s)"
proof -
  let ?new = "heap_ptr s" and ?h' = "blocks s'"
  have n16: "16 dvd unat (ALIGN_UP n 16)" "unat n \<le> unat (ALIGN_UP n 16)"
    using assms(3) by (auto intro!: unat_align16)
  have "unat (24 + ALIGN_UP n 16) = 24 + unat (ALIGN_UP n 16)"
    using assms(4) by (subst unat_add_u64) simp_all
  then have e: "unat (heap_ptr s') = unat ?new + 24 + unat (ALIGN_UP n 16)"
    using assms(4) by (simp add: s'_def) (subst unat_add_u64; simp)
  have wf: "heap_wf ok (blocks s) (unat ?new) (heap_head s) bs" and dom: "dom (blocks s) = set bs"
    using assms(1) by (simp_all add: heap_list_def)
  have below: "unat c + 24 \<le> unat ?new" if "c \<in> set bs" for c using heap_wf_below [OF wf that] .
  then have new: "?new \<notin> set bs" by fastforce
  have h': "?h' = (blocks s)(?new \<mapsto> \<lparr>hb_size = ALIGN_UP n 16, hb_free = False, hb_next = heap_head s\<rparr>)"
    by (simp add: s'_def)
  have "heap_wf ok ?h' (unat ?new) (heap_head s) bs"
    using wf new by (subst heap_wf_cong [of bs ok ok _ "blocks s"]) (auto simp: h' option.rel_refl)
  then show hl: "heap_list ok s' (?new # bs)"
    using n16 e dom assms(2,4) by (simp add: heap_list_def h' header_ok_def) (simp add: s'_def)
  show nd: "?new \<notin> dom (blocks s)" using new dom by simp
  then show "?new + 24 \<notin> live s" by (auto simp: live_def)
  show "live s' = insert (?new + 24) (live s)"
    using nd by (auto simp: live_def h' diff_eq_eq split: if_splits)
  have u: "unat (?new + 24) = unat ?new + 24" using assms(4) by (subst unat_add_u64) simp_all
  have "\<not> (unat (?new + 24) \<le> unat c)" if "c \<in> set (?new # bs)" for c using below [of c] that u by auto
  moreover have d': "dom ?h' = set (?new # bs)" using dom by (auto simp: h')
  ultimately show "{unat (?new + 24) ..< unat (?new + 24) + unat n} \<subseteq> payload s' (?new + 24)"
    using e n16(2) u unfolding payload_def by auto
  show "payload s' q = payload s q" if q: "q \<in> live s"
  proof -
    obtain b k where "blocks s (q - 24) = Some b" "unat q + k \<le> unat ?new" by (rule live_block [OF assms(1) q])
    then show ?thesis using e unfolding payload_def d' dom by auto
  qed
qed

section \<open>The heap keeps the contract of an allocator\<close>

lemma heap_with_allocator:
  assumes "header_ok ok"
  shows "block_allocator kmalloc live payload {0x400018..<0x800000} (heap_with ok)"
proof unfold_locales
  fix s s' :: "'a heap_state_scheme" and n p q :: u64
  assume "heap_with ok s"
  then obtain bs where bs: "heap_list ok s bs" by (auto simp: heap_with_def)
  show "p \<in> live s \<Longrightarrow> payload s p \<subseteq> {0x400018..<0x800000}" by (rule live_area [OF bs])
  show "p \<in> live s \<Longrightarrow> q \<in> live s \<Longrightarrow> p \<noteq> q \<Longrightarrow> payload s p \<inter> payload s q = {}"
    by (rule live_disjoint [OF bs])
  assume n: "unat n \<le> 2 ^ 63"
  note r = reuse_block [OF bs assms _ n] and g = grow_block [OF bs assms n]
  have null: "kmalloc 0 s = Some (0, s)" by (simp add: kmalloc_def)
  show "\<exists>p s'. kmalloc n s = Some (p, s') \<and> heap_with ok s'"
  proof (cases "n = 0")
    case False
    then show ?thesis
    proof (cases rule: kmalloc_cases [OF bs False n, case_names reuse full grow])
      case (grow)
      with g(1) [OF grow(2)] show ?thesis by (auto simp only: heap_with_def)
    qed (use bs r(1) in \<open>auto simp: heap_with_def\<close>)
  qed (use null bs in \<open>auto simp: heap_with_def\<close>)
  show "live s' = live s" if "kmalloc n s = Some (0, s')"
  proof (cases "n = 0")
    case False
    then show ?thesis
    proof (cases rule: kmalloc_cases [OF bs False n, case_names reuse full grow])
      case (reuse a)
      obtain "unat (a + 24) = unat a + 24" by (rule heap_list_member [OF bs reuse(2)])
      then have "a + 24 \<noteq> 0" by (metis add_is_0 unat_0 zero_neq_numeral)
      with reuse that show ?thesis by simp
    next
      case grow
      have "unat (heap_ptr s + 24) = unat (heap_ptr s) + 24"
        using grow(2) by (subst unat_add_u64) simp_all
      then have "heap_ptr s + 24 \<noteq> 0" by (metis add_is_0 unat_0 zero_neq_numeral)
      with grow that show ?thesis by simp
    qed (use that in simp)
  qed (use null that in simp)
  show "p \<notin> live s \<and> live s' = insert p (live s) \<and> {unat p..<unat p + unat n} \<subseteq> payload s' p"
    if "kmalloc n s = Some (p, s')" "p \<noteq> 0"
  proof (cases "n = 0")
    case False
    then show ?thesis
      by (cases rule: kmalloc_cases [OF bs False n, case_names reuse full grow])
        (use that r(2-4) g(2-4) in auto)
  qed (use null that in simp)
  show "payload s' q = payload s q" if "kmalloc n s = Some (p, s')" "q \<in> live s"
  proof (cases "n = 0")
    case False
    then show ?thesis
      by (cases rule: kmalloc_cases [OF bs False n, case_names reuse full grow])
        (use that r(5) g(5) in auto)
  qed (use null that in simp)
qed

interpretation kheap: block_allocator kmalloc live payload "{0x400018..<0x800000}" heap_ok
  by (rule heap_with_allocator) (rule header_ok_conditions)

interpretation held_heap: block_allocator kmalloc live payload "{0x400018..<0x800000}" heap_inv
  by (rule heap_with_allocator) (rule header_ok_conditions)

text \<open>\<^verbatim>\<open>kfree\<close> of a block in use.\<close>

lemma kfree_live:
  assumes "heap_list ok s bs" "p \<in> live s"
  shows "kfree p s = Some (s\<lparr>blocks := set_block_free (p - 24) True (blocks s)\<rparr>)"
proof -
  obtain "unat p = unat (p - 24) + 24" by (rule live_block [OF assms])
  then have "p \<noteq> 0" by (metis add_is_0 unat_0 zero_neq_numeral)
  then show ?thesis using assms(2) by (auto simp: kfree_def live_def Let_def)
qed

lemma live_set_free: "live (s\<lparr>blocks := set_block_free (p - 24) True (blocks s)\<rparr>) = live s - {p}"
  by (auto simp: live_def set_block_free_def diff_eq_eq split: if_splits)

text \<open>The block given back fits every request it had room for.\<close>

lemma freed_block_fits:
  assumes "heap_list exact s bs" "p \<in> live s" "n \<noteq> 0" "{unat p ..< unat p + unat n} \<subseteq> payload s p"
  shows "\<exists>q s''. kmalloc n (s\<lparr>blocks := set_block_free (p - 24) True (blocks s)\<rparr>) = Some (q, s'') \<and> q \<noteq> 0"
proof -
  let ?s = "s\<lparr>blocks := set_block_free (p - 24) True (blocks s)\<rparr>"
  have m: "p - 24 \<in> set bs" by (rule live_member [OF assms(1,2)])
  obtain b k where b: "blocks s (p - 24) = Some b" "16 dvd k" "exact b k" "unat p + k \<le> unat (heap_ptr s)"
    "payload s p = {unat p ..< unat p + k}" by (rule live_block [OF assms(1,2)])
  have k: "k = unat (hb_size b)" using b(3) by (simp add: exact_def)
  have hl: "heap_list exact ?s bs" by (rule heap_exact_give [OF assms(1)])
  have le: "unat (heap_ptr s) \<le> 0x800000" using assms(1) by (simp add: heap_list_def)
  have "0 < unat n" using assms(3) by (simp add: unat_gt_0)
  then have nk: "unat n \<le> k" using assms(4) b(5) by simp
  then have small: "unat n \<le> 0x800000" using b(4) le by simp
  then have n: "unat n \<le> 2 ^ 63" by simp
  note al = unat_align16 [of n]
  have "16 dvd unat (ALIGN_UP n 16)" "unat (ALIGN_UP n 16) \<le> k + 15" using al small nk by simp_all
  then have "unat (ALIGN_UP n 16) \<le> k" using b(2) by (auto elim!: dvdE)
  then have "fits (blocks ?s) (ALIGN_UP n 16) (p - 24)"
    using b(1) k by (simp add: fits_def set_block_free_def word_le_nat_alt)
  then have ff: "first_fit ?s bs n \<noteq> None" using m by (auto simp: first_fit_def find_None_iff)
  from hl assms(3) n show ?thesis
  proof (cases rule: kmalloc_cases)
    case (reuse a)
    obtain "unat (a + 24) = unat a + 24" by (rule heap_list_member [OF hl reuse(2)])
    then have "a + 24 \<noteq> 0" by (metis add_is_0 unat_0 zero_neq_numeral)
    with reuse(3) show ?thesis by blast
  qed (use ff in simp_all)
qed

interpretation exact_heap: reusing_allocator kmalloc live payload "{0x400018..<0x800000}" heap_exact kfree
proof (intro reusing_allocator.intro heap_with_allocator header_ok_conditions reusing_allocator_axioms.intro)
  fix s s' :: "'a heap_state_scheme" and n p q :: u64
  assume "heap_exact s" and p: "p \<in> live s"
  then obtain bs where bs: "heap_list exact s bs" by (auto simp: heap_with_def)
  note f = kfree_live [OF bs p]
  show "\<exists>s'. kfree p s = Some s' \<and> heap_exact s'"
    using f heap_exact_give [OF bs] unfolding heap_with_def by blast
  assume s': "kfree p s = Some s'"
  show "live s' = live s - {p}" using f s' live_set_free by simp
  show "payload s' q = payload s q" by (rule payload_same_dom) (use f s' in auto)
  assume "n \<noteq> 0" "{unat p..<unat p + unat n} \<subseteq> payload s p"
  with freed_block_fits [OF bs p] f s' show "\<exists>q s''. kmalloc n s' = Some (q, s'') \<and> q \<noteq> 0" by simp
qed

end
