(* ===== verification/Vmm.thy ===== *)
theory Vmm
  imports Kheap
begin

text \<open>
  Four-level paging, \<^verbatim>\<open>kernel/mm/vmm.c\<close>.  Page tables are 512 little-endian 64-bit entries in
  byte-addressed memory; the code reaches a table through the physical address stored in its
  parent, so \<open>mem\<close> is indexed by that address.  The address of the static table pool
  \<^verbatim>\<open>pt_pool\<close> is the linker's choice and a field of the state.
\<close>

section \<open>State\<close>

record vmm_state = heap_state +
  mem :: memory
  pt_pool :: u64
  pt_pool_used :: u64
  kernel_pml4 :: u64
  cr3 :: u64
  tlb_flushed :: "u64 list"

abbreviation PT_POOL_SIZE :: u64 where "PT_POOL_SIZE \<equiv> 262144"

abbreviation PTE_PRESENT :: u64 where "PTE_PRESENT \<equiv> 1"
abbreviation PTE_WRITABLE :: u64 where "PTE_WRITABLE \<equiv> 2"
abbreviation PTE_USER :: u64 where "PTE_USER \<equiv> 4"
abbreviation PTE_ADDR_MASK :: u64 where "PTE_ADDR_MASK \<equiv> 0x000FFFFFFFFFF000"

definition PML4_IDX :: "u64 \<Rightarrow> u64" where "PML4_IDX va = drop_bit 39 va AND 0x1FF"
definition PDP_IDX :: "u64 \<Rightarrow> u64" where "PDP_IDX va = drop_bit 30 va AND 0x1FF"
definition PD_IDX :: "u64 \<Rightarrow> u64" where "PD_IDX va = drop_bit 21 va AND 0x1FF"
definition PT_IDX :: "u64 \<Rightarrow> u64" where "PT_IDX va = drop_bit 12 va AND 0x1FF"

definition PTE_PHYS :: "u64 \<Rightarrow> u64" where "PTE_PHYS e = e AND PTE_ADDR_MASK"

definition present :: "u64 \<Rightarrow> bool" where "present e \<longleftrightarrow> e AND PTE_PRESENT \<noteq> 0"

text \<open>The address of entry \<open>i\<close> of the table at \<open>t\<close>: C's \<^verbatim>\<open>&t[i]\<close>.\<close>

definition cell :: "u64 \<Rightarrow> u64 \<Rightarrow> u64" where "cell t i = t + 8 * i"

definition tlb_flush :: "u64 \<Rightarrow> 'a vmm_state_scheme \<Rightarrow> 'a vmm_state_scheme" where
  "tlb_flush va s = s\<lparr>tlb_flushed := va # tlb_flushed s\<rparr>"

section \<open>Operations\<close>

definition zero_table :: "u64 \<Rightarrow> memory \<Rightarrow> memory" where
  "zero_table t m = for_upto 512 (\<lambda>j m. store64 m (cell t (of_nat j)) 0) m"

definition alloc_table :: "'a vmm_state_scheme \<Rightarrow> (u64 \<times> 'a vmm_state_scheme) result" where
  "alloc_table s =
     (if pt_pool_used s + PAGE_SIZE \<le> PT_POOL_SIZE then
        let t = pt_pool s + pt_pool_used s;
            s1 = s\<lparr>pt_pool_used := pt_pool_used s + PAGE_SIZE\<rparr>
        in Inr (t, s1\<lparr>mem := zero_table t (mem s1)\<rparr>)
      else
        let (t, s1) = pmm_alloc s in
        if t = 0 then Inl (Panic ''vmm: out of memory for page table'') else Inr (t, s1))"

text \<open>
  One level of \<^verbatim>\<open>vmm_map\<close>: the block \<^verbatim>\<open>if (!(tbl[i] & PTE_PRESENT)) { ... }\<close> and the read of
  the next table's address, which the function repeats for the three upper levels.
\<close>

definition vmm_descend ::
  "u64 \<Rightarrow> u64 \<Rightarrow> u64 \<Rightarrow> 'a vmm_state_scheme \<Rightarrow> (u64 \<times> 'a vmm_state_scheme) result" where
  "vmm_descend t i flags s =
     try_then
       (if \<not> present (load64 (mem s) (cell t i)) then
          try_then (alloc_table s) (\<lambda>(n, s1).
            Inr (s1\<lparr>mem := store64 (mem s1) (cell t i)
              (n OR PTE_PRESENT OR PTE_WRITABLE OR (flags AND PTE_USER))\<rparr>))
        else Inr s)
       (\<lambda>s2. Inr (PTE_PHYS (load64 (mem s2) (cell t i)), s2))"

definition vmm_map ::
  "u64 \<Rightarrow> u64 \<Rightarrow> u64 \<Rightarrow> u64 \<Rightarrow> 'a vmm_state_scheme \<Rightarrow> (int \<times> 'a vmm_state_scheme) result" where
  "vmm_map pml4 virt phys flags s =
     try_then (vmm_descend pml4 (PML4_IDX virt) flags s) (\<lambda>(pdp, s1).
     try_then (vmm_descend pdp (PDP_IDX virt) flags s1) (\<lambda>(pd, s2).
     try_then (vmm_descend pd (PD_IDX virt) flags s2) (\<lambda>(pt, s3).
       let s4 = s3\<lparr>mem := store64 (mem s3) (cell pt (PT_IDX virt))
                  ((phys AND PTE_ADDR_MASK) OR (flags OR PTE_PRESENT))\<rparr>
       in Inr (0, tlb_flush virt s4))))"

definition vmm_unmap :: "u64 \<Rightarrow> u64 \<Rightarrow> 'a vmm_state_scheme \<Rightarrow> 'a vmm_state_scheme" where
  "vmm_unmap pml4 virt s =
     (let e4 = load64 (mem s) (cell pml4 (PML4_IDX virt)) in
      if \<not> present e4 then s
      else let e3 = load64 (mem s) (cell (PTE_PHYS e4) (PDP_IDX virt)) in
      if \<not> present e3 then s
      else let e2 = load64 (mem s) (cell (PTE_PHYS e3) (PD_IDX virt)) in
      if \<not> present e2 then s
      else tlb_flush virt (s\<lparr>mem := store64 (mem s) (cell (PTE_PHYS e2) (PT_IDX virt)) 0\<rparr>))"

definition vmm_resolve :: "u64 \<Rightarrow> u64 \<Rightarrow> 'a vmm_state_scheme \<Rightarrow> u64" where
  "vmm_resolve pml4 virt s =
     (let e4 = load64 (mem s) (cell pml4 (PML4_IDX virt)) in
      if \<not> present e4 then 0
      else let e3 = load64 (mem s) (cell (PTE_PHYS e4) (PDP_IDX virt)) in
      if \<not> present e3 then 0
      else let e2 = load64 (mem s) (cell (PTE_PHYS e3) (PD_IDX virt)) in
      if \<not> present e2 then 0
      else let e1 = load64 (mem s) (cell (PTE_PHYS e2) (PT_IDX virt)) in
      if \<not> present e1 then 0
      else PTE_PHYS e1 OR (virt AND 0xFFF))"

definition vmm_switch :: "u64 \<Rightarrow> 'a vmm_state_scheme \<Rightarrow> 'a vmm_state_scheme" where
  "vmm_switch pml4 s = s\<lparr>cr3 := pml4\<rparr>"

definition vmm_map_page ::
  "u64 \<Rightarrow> u64 \<Rightarrow> u64 \<Rightarrow> u64 \<Rightarrow> 'a vmm_state_scheme \<Rightarrow> 'a vmm_state_scheme result" where
  "vmm_map_page pml4 va pa flags s =
     try_then (vmm_map pml4 va pa flags s) (\<lambda>(_, s1). Inr s1)"

definition vmm_new_pagedir :: "'a vmm_state_scheme \<Rightarrow> (u64 \<times> 'a vmm_state_scheme) result" where
  "vmm_new_pagedir s =
     try_then (alloc_table s) (\<lambda>(pml4, s1).
       Inr (pml4,
         if kernel_pml4 s1 \<noteq> 0 then
           s1\<lparr>mem := for_upto 256 (\<lambda>k m.
              store64 m (cell pml4 (256 + of_nat k))
                (load64 m (cell (kernel_pml4 s1) (256 + of_nat k)))) (mem s1)\<rparr>
         else s1))"

definition vmm_free_pagedir :: "u64 \<Rightarrow> 'a vmm_state_scheme \<Rightarrow> 'a vmm_state_scheme" where
  "vmm_free_pagedir pml4 s =
     (let s1 = for_upto 256 (\<lambda>p4 s.
        let e4 = load64 (mem s) (cell pml4 (of_nat p4)) in
        if \<not> present e4 then s
        else
          let pdp = PTE_PHYS e4;
              s' = for_upto 512 (\<lambda>p3 s.
                let e3 = load64 (mem s) (cell pdp (of_nat p3)) in
                if \<not> present e3 then s
                else
                  let pd = PTE_PHYS e3;
                      s'' = for_upto 512 (\<lambda>p2 s.
                        let e2 = load64 (mem s) (cell pd (of_nat p2)) in
                        if \<not> present e2 then s else pmm_free (PTE_PHYS e2) s) s
                  in pmm_free pd s'') s
          in pmm_free pdp s') s
      in pmm_free pml4 s1)"

text \<open>
  The three page loops.  Each counts an address up by a page; near the end of the address space
  the counter can wrap, and the C loop then runs on: \<open>None\<close> is a loop that does not end.
\<close>

partial_function (option) vmm_map_user_stack_loop ::
  "u64 \<Rightarrow> u64 \<Rightarrow> u64 \<Rightarrow> u64 \<Rightarrow> 'a vmm_state_scheme \<Rightarrow> 'a vmm_state_scheme result option" where
  "vmm_map_user_stack_loop root base len off s =
     (if off < len then
        (case pmm_alloc_page s of (phys, s1) \<Rightarrow>
          if phys = 0 then Some (Inl (Panic ''no memory for user stack''))
          else
            (case vmm_map_page root (base + off) phys PTE_WRITABLE s1 of
               Inl e \<Rightarrow> Some (Inl e)
             | Inr s2 \<Rightarrow> vmm_map_user_stack_loop root base len (off + 0x1000) s2))
      else Some (Inr s))"

text \<open>\<open>root\<close> is \<^verbatim>\<open>p->cr3\<close>, the only field of the process the function reads.\<close>

definition vmm_map_user_stack ::
  "u64 \<Rightarrow> u64 \<Rightarrow> u64 \<Rightarrow> 'a vmm_state_scheme \<Rightarrow> 'a vmm_state_scheme result option" where
  "vmm_map_user_stack root base len s = vmm_map_user_stack_loop root base len 0 s"

partial_function (option) identity_loop ::
  "u64 \<Rightarrow> u64 \<Rightarrow> 'a vmm_state_scheme \<Rightarrow> 'a vmm_state_scheme result option" where
  "identity_loop va pmm_end s =
     (if va < pmm_end then
        (case vmm_map_page (kernel_pml4 s) va va (PTE_PRESENT OR PTE_WRITABLE) s of
           Inl e \<Rightarrow> Some (Inl e)
         | Inr s1 \<Rightarrow> identity_loop (va + PAGE_SIZE) pmm_end s1)
      else Some (Inr s))"

partial_function (option) heap_map_loop ::
  "u64 \<Rightarrow> 'a vmm_state_scheme \<Rightarrow> 'a vmm_state_scheme result option" where
  "heap_map_loop va s =
     (if va < KHEAP_START + KHEAP_SIZE then
        (case pmm_alloc_page s of (pa, s1) \<Rightarrow>
          if pa = 0 then Some (Inl (Panic ''vmm_init: pmm_alloc_page failed''))
          else
            (case vmm_map_page (kernel_pml4 s1) va pa (PTE_PRESENT OR PTE_WRITABLE) s1 of
               Inl e \<Rightarrow> Some (Inl e)
             | Inr s2 \<Rightarrow> heap_map_loop (va + PAGE_SIZE) s2))
      else Some (Inr s))"

definition vmm_init_log :: "'a vmm_state_scheme \<Rightarrow> 'a vmm_state_scheme" where
  "vmm_init_log s =
     kprintf ''[VMM] heap %p - %p
''     [Num KHEAP_START, Num (KHEAP_START + KHEAP_SIZE)]
      (kprintf ''[VMM] kernel PML4=%p
''      [Num (kernel_pml4 s)] s)"

definition vmm_init :: "'a vmm_state_scheme \<Rightarrow> 'a vmm_state_scheme result option" where
  "vmm_init s =
     (let s1 = vmm_init_log (s\<lparr>kernel_pml4 := cr3 s\<rparr>);
          pmm_end = pmm_base s1 + pmm_total_pages s1 * PAGE_SIZE
      in case identity_loop (pmm_base s1) pmm_end s1 of
           None \<Rightarrow> None
         | Some (Inl e) \<Rightarrow> Some (Inl e)
         | Some (Inr s2) \<Rightarrow>
             (case heap_map_loop KHEAP_START s2 of
                None \<Rightarrow> None
              | Some (Inl e) \<Rightarrow> Some (Inl e)
              | Some (Inr s3) \<Rightarrow> Some (Inr (s3\<lparr>cr3 := kernel_pml4 s3\<rparr>))))"

end
