(* ===== verification/Arch.thy ===== *)
theory Arch
  imports Vmm
begin

text \<open>
  The processor's descriptor tables and the interrupt controller: \<^verbatim>\<open>kernel/arch/x86_64/gdt.c\<close>,
  \<^verbatim>\<open>idt.c\<close> (the gates; the dispatcher is in theory Syscall) and \<^verbatim>\<open>pic_pit.c\<close>.  The addresses of
  \<^verbatim>\<open>gdt\<close>, \<^verbatim>\<open>idt\<close>, \<^verbatim>\<open>tss\<close> and of the assembly stubs are the linker's: fields of the state that no
  operation changes.
\<close>

section \<open>Descriptors\<close>

record gdt_entry =
  limit_low :: u16
  base_low :: u16
  base_mid :: u8
  access :: u8
  granularity :: u8
  base_high :: u8

record gdt_tss_entry =
  tss_limit_low :: u16
  tss_base_low :: u16
  tss_base_mid1 :: u8
  tss_access :: u8
  tss_flags :: u8
  tss_base_mid2 :: u8
  tss_base_high :: u32
  tss_reserved :: u32

record tss_t =
  tss_rsp :: "u64 list"
  tss_ist :: "u64 list"
  iomap_base :: u16

record table_reg =
  tr_limit :: u16
  tr_base :: u64

record idt_entry =
  offset_low :: u16
  selector :: u16
  gate_ist :: u8
  type_attr :: u8
  offset_mid :: u16
  offset_high :: u32
  gate_reserved :: u32

text \<open>
  \<open>gdt\<close> is the array of \<^verbatim>\<open>GDT_NORMAL_ENTRIES\<close> entries, \<open>gdt_tail\<close> the sixteen bytes the linker
  puts behind it, which \<^verbatim>\<open>gdt_init\<close> writes the task descriptor to.
\<close>

record arch_state = vmm_state +
  gdt :: "gdt_entry list"
  gdt_tail :: "u8 list"
  gdt_tss :: gdt_tss_entry
  tss :: tss_t
  gdtr :: table_reg
  task_reg :: u16
  seg_cs :: u16
  seg_data :: u16
  idt :: "idt_entry list"
  idtr :: table_reg
  cr2 :: u64
  iflag :: bool
  addr_gdt :: u64
  addr_tss :: u64
  addr_idt :: u64
  isr_stub_table :: "u64 list"

abbreviation GDT_NORMAL_ENTRIES :: nat where "GDT_NORMAL_ENTRIES \<equiv> 6"
abbreviation IDT_SIZE :: nat where "IDT_SIZE \<equiv> 256"
abbreviation GDT_KERNEL_CODE :: u16 where "GDT_KERNEL_CODE \<equiv> 0x08"
abbreviation IDT_IRQ_BASE :: u64 where "IDT_IRQ_BASE \<equiv> 0x20"
abbreviation IDT_PAGE_FAULT :: u64 where "IDT_PAGE_FAULT \<equiv> 14"

abbreviation PIC_MASTER_CMD :: u16 where "PIC_MASTER_CMD \<equiv> 0x20"
abbreviation PIC_MASTER_DATA :: u16 where "PIC_MASTER_DATA \<equiv> 0x21"
abbreviation PIC_SLAVE_CMD :: u16 where "PIC_SLAVE_CMD \<equiv> 0xA0"
abbreviation PIC_SLAVE_DATA :: u16 where "PIC_SLAVE_DATA \<equiv> 0xA1"

text \<open>The instructions that load the table registers and the task register, and the fault address.\<close>

abbreviation lgdt :: "table_reg \<Rightarrow> 'a arch_state_scheme \<Rightarrow> 'a arch_state_scheme" where
  "lgdt p s \<equiv> s\<lparr>gdtr := p\<rparr>"

abbreviation lidt :: "table_reg \<Rightarrow> 'a arch_state_scheme \<Rightarrow> 'a arch_state_scheme" where
  "lidt p s \<equiv> s\<lparr>idtr := p\<rparr>"

abbreviation ltr :: "u16 \<Rightarrow> 'a arch_state_scheme \<Rightarrow> 'a arch_state_scheme" where
  "ltr sel s \<equiv> s\<lparr>task_reg := sel\<rparr>"

abbreviation read_cr2 :: "'a arch_state_scheme \<Rightarrow> u64" where
  "read_cr2 s \<equiv> cr2 s"

section \<open>Global descriptor table\<close>

definition set_entry ::
  "nat \<Rightarrow> u32 \<Rightarrow> u32 \<Rightarrow> u8 \<Rightarrow> u8 \<Rightarrow> gdt_entry list \<Rightarrow> gdt_entry list" where
  "set_entry i base limit acc gran g = g[i := \<lparr>
     limit_low = ucast (limit AND 0xFFFF),
     base_low = ucast (base AND 0xFFFF),
     base_mid = ucast (drop_bit 16 base AND 0xFF),
     access = acc,
     granularity = ucast (drop_bit 16 limit AND 0x0F) OR (gran AND 0xF0),
     base_high = ucast (drop_bit 24 base AND 0xFF)\<rparr>]"

definition tss_descriptor :: "u64 \<Rightarrow> u32 \<Rightarrow> gdt_tss_entry" where
  "tss_descriptor tss_base tss_limit = \<lparr>
     tss_limit_low = ucast (tss_limit AND 0xFFFF),
     tss_base_low = ucast (tss_base AND 0xFFFF),
     tss_base_mid1 = ucast (drop_bit 16 tss_base AND 0xFF),
     tss_access = 0x89,
     tss_flags = ucast (drop_bit 16 tss_limit AND 0x0F),
     tss_base_mid2 = ucast (drop_bit 24 tss_base AND 0xFF),
     tss_base_high = ucast (drop_bit 32 tss_base),
     tss_reserved = 0\<rparr>"

definition le_bytes :: "nat \<Rightarrow> 'a::len word \<Rightarrow> u8 list" where
  "le_bytes n v = map (\<lambda>i. ucast (drop_bit (8 * i) v)) [0..<n]"

definition tss_entry_bytes :: "gdt_tss_entry \<Rightarrow> u8 list" where
  "tss_entry_bytes e = le_bytes 2 (tss_limit_low e) @ le_bytes 2 (tss_base_low e) @
     [tss_base_mid1 e, tss_access e, tss_flags e, tss_base_mid2 e] @
     le_bytes 4 (tss_base_high e) @ le_bytes 4 (tss_reserved e)"

definition gdt_entry_bytes :: "gdt_entry \<Rightarrow> u8 list" where
  "gdt_entry_bytes e = le_bytes 2 (limit_low e) @ le_bytes 2 (base_low e) @
     [base_mid e, access e, granularity e, base_high e]"

text \<open>\<^verbatim>\<open>sizeof(tss_t)\<close> is 104; the loop copies the descriptor to \<^verbatim>\<open>&gdt[6]\<close>, one past the array.\<close>

definition gdt_init :: "'a arch_state_scheme \<Rightarrow> 'a arch_state_scheme" where
  "gdt_init s =
     (let g = set_entry 5 0 0xFFFFF 0xFA 0xA0 (set_entry 4 0 0xFFFFF 0xF2 0xC0
                (set_entry 3 0 0xFFFFF 0xFA 0xCF (set_entry 2 0 0xFFFFF 0x92 0xC0
                (set_entry 1 0 0xFFFFF 0x9A 0xA0 (set_entry 0 0 0 0 0 (gdt s))))));
          td = tss_descriptor (addr_tss s) (104 - 1);
          s0 = lgdt \<lparr>tr_limit = 6 * 8 + 16 - 1, tr_base = addr_gdt s\<rparr>
                 (s\<lparr>gdt := g, gdt_tss := td, gdt_tail := tss_entry_bytes td\<rparr>);
          s1 = ltr 0x30 (s0\<lparr>seg_data := 0x10, seg_cs := 0x08\<rparr>)
      in kprintf ''[GDT] initialized (kcode=0x08 kdata=0x10 udata=0x23 ucode64=0x2B TSS=0x30)
'' [] s1)"

definition gdt_set_tss_rsp0 :: "u64 \<Rightarrow> 'a arch_state_scheme \<Rightarrow> 'a arch_state_scheme" where
  "gdt_set_tss_rsp0 rsp0 s = s\<lparr>tss := (tss s)\<lparr>tss_rsp := (tss_rsp (tss s))[0 := rsp0]\<rparr>\<rparr>"

section \<open>Interrupt descriptor table\<close>

definition set_gate :: "u8 \<Rightarrow> u64 \<Rightarrow> u8 \<Rightarrow> u8 \<Rightarrow> idt_entry list \<Rightarrow> idt_entry list" where
  "set_gate num handler ist dpl t = t[unat num := \<lparr>
     offset_low = ucast (handler AND 0xFFFF),
     selector = GDT_KERNEL_CODE,
     gate_ist = ist AND 0x7,
     type_attr = 0x8E OR push_bit 5 (dpl AND 3),
     offset_mid = ucast (drop_bit 16 handler AND 0xFFFF),
     offset_high = ucast (drop_bit 32 handler AND 0xFFFFFFFF),
     gate_reserved = 0\<rparr>]"

definition idt_set_gate ::
  "u8 \<Rightarrow> u64 \<Rightarrow> u8 \<Rightarrow> u8 \<Rightarrow> 'a arch_state_scheme \<Rightarrow> 'a arch_state_scheme" where
  "idt_set_gate num handler ist dpl s = s\<lparr>idt := set_gate num handler ist dpl (idt s)\<rparr>"

definition idt_init :: "'a arch_state_scheme \<Rightarrow> 'a arch_state_scheme" where
  "idt_init s =
     (let st = isr_stub_table s;
          t1 = for_upto 48 (\<lambda>i t. if st ! i \<noteq> 0 then set_gate (of_nat i) (st ! i) 0 0 t else t) (idt s);
          t2 = (if st ! 128 \<noteq> 0 then set_gate 0x80 (st ! 128) 0 3 t1 else t1)
      in kprintf ''[IDT] initialized
'' [] (lidt \<lparr>tr_limit = 256 * 16 - 1, tr_base = addr_idt s\<rparr> (s\<lparr>idt := t2\<rparr>)))"

section \<open>Interrupt controller and timer\<close>

definition port_out :: "u16 \<Rightarrow> u8 \<Rightarrow> 'a con_state_scheme \<Rightarrow> 'a con_state_scheme" where
  "port_out port val s = s\<lparr>con := outb port val (con s)\<rparr>"

definition io_wait :: "'a con_state_scheme \<Rightarrow> 'a con_state_scheme" where
  "io_wait s = port_out 0x80 0 s"

definition pic_init :: "'a con_state_scheme \<Rightarrow> 'a con_state_scheme" where
  "pic_init s =
     (let s1 = io_wait (port_out PIC_SLAVE_CMD 0x11 (port_out PIC_MASTER_CMD 0x11 s));
          s2 = io_wait (port_out PIC_SLAVE_DATA 0x28 (port_out PIC_MASTER_DATA 0x20 s1));
          s3 = io_wait (port_out PIC_SLAVE_DATA 0x02 (port_out PIC_MASTER_DATA 0x04 s2));
          s4 = io_wait (port_out PIC_SLAVE_DATA 0x01 (port_out PIC_MASTER_DATA 0x01 s3));
          s5 = port_out PIC_SLAVE_DATA 0xFF (port_out PIC_MASTER_DATA 0xFE s4)
      in kprintf ''[PIC] remapped to 0x%02x-0x%02x
'' [Num 0x20, Num 0x2F] s5)"

definition pic_send_eoi :: "u8 \<Rightarrow> 'a con_state_scheme \<Rightarrow> 'a con_state_scheme" where
  "pic_send_eoi irq s =
     (let s1 = (if 8 \<le> irq then port_out PIC_SLAVE_CMD 0x20 s else s)
      in port_out PIC_MASTER_CMD 0x20 s1)"

text \<open>\<open>inb\<close> is what the device answers when the port is read.\<close>

definition pic_mask_irq ::
  "(u16 \<Rightarrow> u8) \<Rightarrow> u8 \<Rightarrow> 'a con_state_scheme \<Rightarrow> 'a con_state_scheme" where
  "pic_mask_irq inb irq s =
     (let port = (if irq < 8 then PIC_MASTER_DATA else PIC_SLAVE_DATA);
          line = (if 8 \<le> irq then irq - 8 else irq)
      in port_out port (inb port OR ucast (push_bit (unat line) (1 :: u32))) s)"

definition pic_unmask_irq ::
  "(u16 \<Rightarrow> u8) \<Rightarrow> u8 \<Rightarrow> 'a con_state_scheme \<Rightarrow> 'a con_state_scheme" where
  "pic_unmask_irq inb irq s =
     (let port = (if irq < 8 then PIC_MASTER_DATA else PIC_SLAVE_DATA);
          line = (if 8 \<le> irq then irq - 8 else irq)
      in port_out port (inb port AND NOT (ucast (push_bit (unat line) (1 :: u32)))) s)"

definition pit_init :: "'a con_state_scheme \<Rightarrow> 'a con_state_scheme" where
  "pit_init s =
     (let divisor = (1193182 :: u32) div 100;
          s1 = port_out 0x40 (ucast (drop_bit 8 divisor AND 0xFF))
                 (port_out 0x40 (ucast (divisor AND 0xFF)) (port_out 0x43 0x36 s))
      in kprintf ''[PIT] %d Hz (divisor=%d)
'' [Num 100, Num (ucast divisor)] s1)"

text \<open>\<^verbatim>\<open>save_flags()\<close>, \<^verbatim>\<open>cli()\<close>, \<^verbatim>\<open>sti()\<close> and \<^verbatim>\<open>restore_flags()\<close> on the interrupt flag.\<close>

definition cli :: "'a arch_state_scheme \<Rightarrow> 'a arch_state_scheme" where
  "cli s = s\<lparr>iflag := False\<rparr>"

definition sti :: "'a arch_state_scheme \<Rightarrow> 'a arch_state_scheme" where
  "sti s = s\<lparr>iflag := True\<rparr>"

definition restore_flags :: "bool \<Rightarrow> 'a arch_state_scheme \<Rightarrow> 'a arch_state_scheme" where
  "restore_flags f s = s\<lparr>iflag := f\<rparr>"

text \<open>\<^verbatim>\<open>panic(msg)\<close>: the state in which the machine then halts for ever.\<close>

definition panic :: "string \<Rightarrow> 'a arch_state_scheme \<Rightarrow> 'a arch_state_scheme" where
  "panic msg s =
     kprintf ''System halted.
'' [] (kprintf ''
[PANIC] %s
'' [Str (Some (bytes_of msg))] (cli s))"

section \<open>Decoding\<close>

text \<open>What the processor reads back from a descriptor: base, limit, and the long-mode bit.\<close>

definition entry_base :: "gdt_entry \<Rightarrow> u32" where
  "entry_base e = ucast (base_low e) OR push_bit 16 (ucast (base_mid e)) OR push_bit 24 (ucast (base_high e))"

definition entry_limit :: "gdt_entry \<Rightarrow> u32" where
  "entry_limit e = ucast (limit_low e) OR push_bit 16 (ucast (granularity e AND 0x0F))"

definition entry_dpl :: "gdt_entry \<Rightarrow> u8" where
  "entry_dpl e = drop_bit 5 (access e) AND 3"

definition entry_long :: "gdt_entry \<Rightarrow> bool" where
  "entry_long e \<longleftrightarrow> bit (granularity e) 5 \<and> bit (access e) 3"

definition gate_offset :: "idt_entry \<Rightarrow> u64" where
  "gate_offset e = ucast (offset_low e) OR push_bit 16 (ucast (offset_mid e)) OR push_bit 32 (ucast (offset_high e))"

definition tss_entry_base :: "gdt_tss_entry \<Rightarrow> u64" where
  "tss_entry_base e = ucast (tss_base_low e) OR push_bit 16 (ucast (tss_base_mid1 e)) OR
     push_bit 24 (ucast (tss_base_mid2 e)) OR push_bit 32 (ucast (tss_base_high e))"

text \<open>The entry a segment selector names.\<close>

definition selected :: "u16 \<Rightarrow> gdt_entry list \<Rightarrow> gdt_entry" where
  "selected sel g = g ! unat (drop_bit 3 sel)"

lemma set_entry_decode:
  assumes "i < length g"
  shows "entry_base (set_entry i base limit acc gran g ! i) = base"
    and "entry_limit (set_entry i base limit acc gran g ! i) = limit AND 0xFFFFF"
    and "access (set_entry i base limit acc gran g ! i) = acc"
proof -
  have m: "(0xFFFF :: u32) = mask 16" "(0xFF :: u32) = mask 8" "(0x0F :: u32) = mask 4"
    "(0xFFFFF :: u32) = mask 20" "(0x0F :: u8) = mask 4" "(0xF0 :: u8) = push_bit 4 (mask 4)"
    by (simp_all add: mask_eq_exp_minus_1)
  show "entry_base (set_entry i base limit acc gran g ! i) = base"
    unfolding entry_base_def set_entry_def m
    apply (rule bit_word_eqI)
    subgoal for n using assms by (cases "n < 16"; cases "n < 24"; simp add: bit_simps less_diff_conv2 not_less)
    done
  show "entry_limit (set_entry i base limit acc gran g ! i) = limit AND 0xFFFFF"
    unfolding entry_limit_def set_entry_def m using assms
    by (intro bit_word_eqI) (auto simp: bit_simps)
  show "access (set_entry i base limit acc gran g ! i) = acc"
    using assms by (simp add: set_entry_def)
qed

lemma gate_decode:
  assumes "unat num < length t"
  shows "gate_offset (set_gate num handler ist dpl t ! unat num) = handler"
proof -
  have m: "(0xFFFF :: u64) = mask 16" "(0xFFFFFFFF :: u64) = mask 32"
    by (simp_all add: mask_eq_exp_minus_1)
  show ?thesis
    unfolding gate_offset_def set_gate_def m
    apply (rule bit_word_eqI)
    subgoal for n using assms by (cases "n < 16"; cases "n < 32"; simp add: bit_simps less_diff_conv2 not_less)
    done
qed

lemma tss_descriptor_decode: "tss_entry_base (tss_descriptor b l) = b"
proof -
  have m: "(0xFFFF :: u64) = mask 16" "(0xFF :: u64) = mask 8"
    by (simp_all add: mask_eq_exp_minus_1)
  show ?thesis
    unfolding tss_entry_base_def tss_descriptor_def m
    apply (rule bit_word_eqI)
    subgoal for n by (cases "n < 16"; cases "n < 24"; cases "n < 32"; simp add: bit_simps less_diff_conv2 not_less)
    done
qed

end
