(* ===== verification/Paging.thy ===== *)
theory Paging
  imports Vmm
begin

text \<open>
  What the page-table walk of \<^verbatim>\<open>kernel/mm/vmm.c\<close> means: the tables reached from a root, the
  tree invariant (no table is reached along two paths), and the page-table entry of an address
  as the abstract view that mapping and unmapping update at one page.
\<close>

section \<open>The walk\<close>

definition ix :: "nat \<Rightarrow> u64 \<Rightarrow> u64" where
  "ix k va = drop_bit (39 - 9 * k) va AND 0x1FF"

lemma ix_levels:
  "PML4_IDX va = ix 0 va" "PDP_IDX va = ix 1 va" "PD_IDX va = ix 2 va" "PT_IDX va = ix 3 va"
  by (simp_all add: ix_def PML4_IDX_def PDP_IDX_def PD_IDX_def PT_IDX_def)

lemma ix_less: "unat (ix k va) < 512"
proof -
  have "ix k va = take_bit 9 (drop_bit (39 - 9 * k) va)"
    by (simp add: ix_def take_bit_eq_mask mask_eq_exp_minus_1)
  then show ?thesis by (simp only: unat_take_bit) simp
qed

text \<open>\<open>tbl m r k va\<close>: the table consulted at depth \<open>k\<close> for \<open>va\<close>, if the levels above are present.\<close>

primrec tbl :: "memory \<Rightarrow> u64 \<Rightarrow> nat \<Rightarrow> u64 \<Rightarrow> u64 option" where
  "tbl m r 0 va = Some r"
| "tbl m r (Suc k) va =
     (case tbl m r k va of None \<Rightarrow> None
      | Some t \<Rightarrow>
          let e = load64 m (cell t (ix k va)) in if present e then Some (PTE_PHYS e) else None)"

definition pte :: "memory \<Rightarrow> u64 \<Rightarrow> u64 \<Rightarrow> u64" where
  "pte m r va = (case tbl m r 3 va of None \<Rightarrow> 0 | Some t \<Rightarrow> load64 m (cell t (ix 3 va)))"

definition tables :: "memory \<Rightarrow> u64 \<Rightarrow> u64 set" where
  "tables m r = {t. \<exists>k\<le>3. \<exists>va. tbl m r k va = Some t}"

definition same_path :: "nat \<Rightarrow> u64 \<Rightarrow> u64 \<Rightarrow> bool" where
  "same_path k va va' \<longleftrightarrow> (\<forall>j<k. ix j va = ix j va')"

abbreviation same_page :: "u64 \<Rightarrow> u64 \<Rightarrow> bool" where
  "same_page va va' \<equiv> same_path 4 va va'"

definition pt_inv :: "memory \<Rightarrow> u64 \<Rightarrow> bool" where
  "pt_inv m r \<longleftrightarrow> 4096 dvd unat r \<and>
     (\<forall>k\<le>3. \<forall>k'\<le>3. \<forall>va va' t. tbl m r k va = Some t \<longrightarrow> tbl m r k' va' = Some t \<longrightarrow>
        k = k' \<and> same_path k va va')"

lemma pt_invD:
  assumes "pt_inv m r" "tbl m r k va = Some t" "tbl m r k' va' = Some t" "k \<le> 3" "k' \<le> 3"
  shows "k = k'" "same_path k va va'"
  using assms unfolding pt_inv_def by blast+

lemma same_path_refl [simp]: "same_path k va va"
  by (simp add: same_path_def)

lemma same_path_Suc: "same_path (Suc k) va va' \<longleftrightarrow> same_path k va va' \<and> ix k va = ix k va'"
  by (auto simp: same_path_def less_Suc_eq)

lemma same_path_mono: "same_path k va va' \<Longrightarrow> j \<le> k \<Longrightarrow> same_path j va va'"
  by (auto simp: same_path_def)

lemma same_path_sym: "same_path k va va' \<longleftrightarrow> same_path k va' va"
  by (auto simp: same_path_def)

lemma tbl_same_path: "same_path k va va' \<Longrightarrow> tbl m r k va' = tbl m r k va"
  by (induction k) (auto simp: same_path_Suc split: option.split)

lemma pte_same_page: "same_page va va' \<Longrightarrow> pte m r va' = pte m r va"
proof -
  assume s: "same_page va va'"
  then have "same_path 3 va va'" "ix 3 va = ix 3 va'" by (auto simp: same_path_def)
  then show ?thesis using tbl_same_path by (simp add: pte_def split: option.split)
qed

lemma tbl_Suc_Some:
  "tbl m r (Suc k) va = Some t \<longleftrightarrow>
    (\<exists>u. tbl m r k va = Some u \<and> present (load64 m (cell u (ix k va)))
      \<and> t = PTE_PHYS (load64 m (cell u (ix k va))))"
  by (auto simp: Let_def split: option.splits if_splits)

lemma tbl_mono: "tbl m r k va = Some t \<Longrightarrow> j \<le> k \<Longrightarrow> \<exists>u. tbl m r j va = Some u"
proof (induction k arbitrary: t)
  case (Suc k)
  then show ?case by (cases "j = Suc k") (auto simp: tbl_Suc_Some simp del: tbl.simps)
qed simp

lemma tables_root: "r \<in> tables m r"
  by (auto simp: tables_def intro!: exI [of _ 0])

lemma tablesI: "tbl m r k va = Some t \<Longrightarrow> k \<le> 3 \<Longrightarrow> t \<in> tables m r"
  by (auto simp: tables_def)

section \<open>Cells of page-aligned tables\<close>

lemma aligned_PTE_PHYS: "4096 dvd unat (PTE_PHYS e)"
proof -
  have "PTE_PHYS e = (PTE_PHYS e) AND NOT (mask 12)"
    by (simp add: PTE_PHYS_def and.assoc mask_eq_exp_minus_1)
  then have "unat (PTE_PHYS e) = unat (PTE_PHYS e) div 2 ^ 12 * 2 ^ 12"
    by (metis unat_and_not_mask)
  then have "2 ^ 12 dvd unat (PTE_PHYS e)" by (metis dvd_triv_right)
  then show ?thesis by simp
qed

lemma aligned_tbl:
  assumes "4096 dvd unat r" "tbl m r k va = Some t"
  shows "4096 dvd unat t"
  using assms aligned_PTE_PHYS by (cases k) (auto simp: tbl_Suc_Some simp del: tbl.simps(2))

lemma unat_cell:
  assumes "4096 dvd unat t" "unat i < 512"
  shows "unat (cell t i) = unat t + 8 * unat i"
proof -
  obtain q where q: "unat t = 4096 * q" using assms(1) by (rule dvdE)
  have "unat t < 2 ^ 64" by (rule unat_less_u64)
  with q assms(2) have lt: "unat t + 8 * unat i < 2 ^ 64" by simp
  then have "unat (8 * i) = 8 * unat i" by (subst unat_mult_u64) simp_all
  with lt show ?thesis by (simp add: cell_def) (subst unat_add_u64; simp)
qed

lemma aligned8_cell: "4096 dvd unat t \<Longrightarrow> unat i < 512 \<Longrightarrow> aligned8 (cell t i)"
  by (auto simp: aligned8_def unat_cell elim!: dvdE)

lemma cell_inject:
  assumes "4096 dvd unat t" "4096 dvd unat u" "unat i < 512" "unat j < 512"
  shows "cell t i = cell u j \<longleftrightarrow> t = u \<and> i = j"
proof
  assume eq: "cell t i = cell u j"
  obtain q p where q: "unat t = 4096 * q" and p: "unat u = 4096 * p"
    using assms(1,2) by (auto elim!: dvdE)
  from eq have "unat t + 8 * unat i = unat u + 8 * unat j"
    using unat_cell [OF assms(1,3)] unat_cell [OF assms(2,4)] by simp
  with q p have e: "512 * q + unat i = 512 * p + unat j" by simp
  then have "(512 * q + unat i) div 512 = (512 * p + unat j) div 512" by simp
  then have "q = p" using assms(3,4) by simp
  with e q p show "t = u \<and> i = j" by (simp add: word_unat_eq_iff)
qed auto

section \<open>What the walk reads\<close>

text \<open>Two memories with the same entries in the tables of a tree have the same walks.\<close>

lemma tbl_cong_mem:
  assumes "\<And>t i. t \<in> tables m r \<Longrightarrow> unat i < 512 \<Longrightarrow> load64 m' (cell t i) = load64 m (cell t i)"
    and "k \<le> 4"
  shows "tbl m' r k va = tbl m r k va"
  using assms(2)
proof (induction k)
  case (Suc k)
  then show ?case
    using assms(1) [OF tablesI, of k va _ "ix k va"] ix_less
    by (simp add: Let_def split: option.split)
qed simp

lemma pte_cong_mem:
  assumes "\<And>t i. t \<in> tables m r \<Longrightarrow> unat i < 512 \<Longrightarrow> load64 m' (cell t i) = load64 m (cell t i)"
  shows "pte m' r va = pte m r va"
  using tbl_cong_mem [OF assms, where k = 3 and va = va] assms [OF tablesI, of 3 va _ "ix 3 va"] ix_less
  by (simp add: pte_def split: option.split)

lemma tables_cong_mem:
  assumes "\<And>t i. t \<in> tables m r \<Longrightarrow> unat i < 512 \<Longrightarrow> load64 m' (cell t i) = load64 m (cell t i)"
  shows "tables m' r = tables m r" "pt_inv m' r = pt_inv m r"
proof -
  have "tbl m' r k va = tbl m r k va" if "k \<le> 3" for k va
    using tbl_cong_mem [OF assms, where k = k and va = va] that by simp
  then show "tables m' r = tables m r" "pt_inv m' r = pt_inv m r"
    by (simp_all add: tables_def pt_inv_def cong: conj_cong imp_cong)
qed

lemma tables_aligned: "4096 dvd unat r \<Longrightarrow> t \<in> tables m r \<Longrightarrow> 4096 dvd unat t"
  by (auto simp: tables_def dest: aligned_tbl)

section \<open>Writing one entry\<close>

text \<open>Tables at the written table's depth or above are found as before.\<close>

lemma tbl_store_above:
  assumes "pt_inv m r" "tbl m r k va = Some t" "k \<le> 3" "j \<le> k"
  shows "tbl (store64 m (cell t (ix k va)) e) r j va' = tbl m r j va'"
  using assms(4)
proof (induction j)
  case (Suc j)
  have al: "4096 dvd unat r" using assms(1) by (simp add: pt_inv_def)
  have "u \<noteq> t" if "tbl m r j va' = Some u" for u
    using pt_invD(1) [OF assms(1) that, of k va] assms(2,3) Suc.prems that by auto
  then have "load64 (store64 m (cell t (ix k va)) e) (cell u (ix j va')) = load64 m (cell u (ix j va'))"
    if "tbl m r j va' = Some u" for u
    using that aligned_tbl [OF al] assms(2) ix_less
    by (subst load64_store64_other) (auto intro!: aligned8_cell simp: cell_inject)
  with Suc show ?case by (simp add: Let_def split: option.split)
qed simp

text \<open>Writing a leaf entry changes the entry of one page and no table.\<close>

lemma store_leaf:
  fixes e :: u64
  assumes "pt_inv m r" "tbl m r 3 va = Some t"
  defines "m' \<equiv> store64 m (cell t (ix 3 va)) e"
  shows "tables m' r = tables m r" "pt_inv m' r" "j \<le> 3 \<Longrightarrow> tbl m' r j va' = tbl m r j va'"
    "pte m' r va' = (if same_page va va' then e else pte m r va')"
proof -
  have same: "tbl m' r j va' = tbl m r j va'" if "j \<le> 3" for j va'
    unfolding m'_def using tbl_store_above [OF assms(1,2)] that by simp
  then show "j \<le> 3 \<Longrightarrow> tbl m' r j va' = tbl m r j va'" .
  show "tables m' r = tables m r" using same by (simp add: tables_def cong: conj_cong)
  show "pt_inv m' r" using assms(1) same by (simp add: pt_inv_def cong: imp_cong)
  show "pte m' r va' = (if same_page va va' then e else pte m r va')"
  proof (cases "tbl m r 3 va'")
    case None
    then have "\<not> same_path 3 va va'" using tbl_same_path assms(2) by fastforce
    then have "\<not> same_page va va'" using same_path_mono [of 4 va va' 3] by auto
    with None same [of 3 va'] show ?thesis by (simp add: pte_def)
  next
    case (Some u)
    have al: "4096 dvd unat t" "4096 dvd unat u"
      using assms(1,2) Some aligned_tbl by (auto simp: pt_inv_def)
    have "t = u \<and> ix 3 va = ix 3 va' \<longleftrightarrow> same_page va va'"
    proof -
      have "t = u \<longleftrightarrow> same_path 3 va va'"
        using Some assms(2) pt_invD(2) [OF assms(1), of 3 va t 3 va'] tbl_same_path by fastforce
      then show ?thesis using same_path_Suc [of 3 va va'] by (simp add: numeral_eq_Suc)
    qed
    then show ?thesis
      using Some same [of 3 va'] al ix_less
      by (simp add: pte_def m'_def load64_store64 aligned8_cell cell_inject)
  qed
qed

text \<open>
  Hanging a fresh, zeroed table into an empty slot: the walks that pass the slot now reach it
  and stop there, all other walks and every page's entry are unchanged.
\<close>

lemma store_table:
  fixes e :: u64
  assumes inv: "pt_inv m r" and t: "tbl m r k va = Some t" "k < 3"
    and slot: "\<not> present (load64 m (cell t (ix k va)))"
    and n: "4096 dvd unat n" "n \<notin> tables m r" "\<And>i. unat i < 512 \<Longrightarrow> load64 m (cell n i) = 0"
    and e: "PTE_PHYS e = n" "present e"
  defines "m' \<equiv> store64 m (cell t (ix k va)) e"
  shows "j \<le> 3 \<Longrightarrow> tbl m' r j va' = (if j = Suc k \<and> same_path (Suc k) va va' then Some n else tbl m r j va')"
    and "tables m' r = insert n (tables m r)" and "pt_inv m' r" and "pte m' r va' = pte m r va'"
proof -
  have al: "4096 dvd unat r" using inv by (simp add: pt_inv_def)
  have alt: "4096 dvd unat t" using aligned_tbl [OF al t(1)] .
  have nt: "n \<noteq> t" using n(2) tablesI [OF t(1)] t(2) by auto
  have load: "load64 m' (cell u i) = (if u = t \<and> i = ix k va then e else load64 m (cell u i))"
    if "4096 dvd unat u" "unat i < 512" for u i
    using that alt ix_less by (auto simp: m'_def load64_store64 aligned8_cell cell_inject)
  have off: "same_path (Suc k) va va' \<Longrightarrow> tbl m r (Suc k) va' = None" for va'
    using t(1) slot tbl_same_path [of "Suc k" va va'] by (simp add: Let_def)
  have notpres0: "\<not> present 0" by (simp add: present_def)
  have main: "tbl m' r j va' = (if j = Suc k \<and> same_path (Suc k) va va' then Some n else tbl m r j va')"
    if "j \<le> 3" for j va'
    using that
  proof (induction j)
    case 0
    then show ?case by simp
  next
    case (Suc j)
    consider "Suc j \<le> k" | "j = k" | "k < j" by linarith
    then show ?case
    proof cases
      case 1
      then show ?thesis
        using tbl_store_above [OF inv t(1), where j = "Suc j"] t(2) by (simp add: m'_def del: tbl.simps)
    next
      case 2
      have above: "tbl m' r k va' = tbl m r k va'"
        using tbl_store_above [OF inv t(1)] t(2) by (simp add: m'_def)
      show ?thesis
      proof (cases "tbl m r k va'")
        case None
        then have "\<not> same_path (Suc k) va va'"
          using t(1) tbl_same_path [of k va va'] by (auto simp: same_path_Suc)
        with None above 2 show ?thesis by simp
      next
        case (Some u)
        have "u = t \<longleftrightarrow> same_path k va va'"
          using Some t pt_invD(2) [OF inv t(1), of k va'] tbl_same_path [of k va va'] by fastforce
        then show ?thesis
          using 2 above Some load [OF aligned_tbl [OF al Some] ix_less] e
          by (auto simp: same_path_Suc Let_def)
      qed
    next
      case 3
      show ?thesis
      proof (cases "j = Suc k \<and> same_path (Suc k) va va'")
        case True
        then have "tbl m' r j va' = Some n" using Suc by simp
        moreover have "load64 m' (cell n (ix j va')) = 0"
          using load [OF n(1) ix_less] n(3) [OF ix_less] nt by simp
        moreover have "tbl m r j va' = None" using True off by simp
        ultimately show ?thesis using True by (simp add: notpres0)
      next
        case False
        then have same: "tbl m' r j va' = tbl m r j va'"
          using Suc.IH Suc.prems by (simp only: if_False simp_thms Suc_leD)
        have "u \<noteq> t" if "tbl m r j va' = Some u" for u
          using pt_invD(1) [OF inv that, of k va] t 3 Suc.prems that by auto
        with same 3 load [OF aligned_tbl [OF al] ix_less] show ?thesis
          by (auto simp: Let_def split: option.split)
      qed
    qed
  qed
  then show "j \<le> 3 \<Longrightarrow> tbl m' r j va' = (if j = Suc k \<and> same_path (Suc k) va va' then Some n else tbl m r j va')" .
  have new: "tbl m' r (Suc k) va = Some n" using main [of "Suc k" va] t(2) by simp
  show tabs: "tables m' r = insert n (tables m r)"
  proof (intro equalityI subsetI)
    fix x assume "x \<in> tables m' r"
    then show "x \<in> insert n (tables m r)"
      by (auto simp: tables_def main split: if_splits)
  next
    fix x assume "x \<in> insert n (tables m r)"
    then consider "x = n" | j v where "j \<le> 3" "tbl m r j v = Some x" by (auto simp: tables_def)
    then show "x \<in> tables m' r"
    proof cases
      case 1
      then show ?thesis using tablesI [OF new] t(2) by simp
    next
      case 2
      then have "tbl m' r j v = Some x" using main [OF 2(1), of v] off by auto
      then show ?thesis using 2(1) by (rule tablesI)
    qed
  qed
  have notn: "tbl m r j v \<noteq> Some n" if "j \<le> 3" for j v using n(2) tablesI that by blast
  show "pt_inv m' r"
    unfolding pt_inv_def
  proof (intro conjI allI impI)
    fix j j' v v' x
    assume j: "j \<le> 3" "j' \<le> 3" and x: "tbl m' r j v = Some x" "tbl m' r j' v' = Some x"
    have c: "x = n \<and> j = Suc k \<and> same_path (Suc k) va v \<or> x \<noteq> n \<and> tbl m r j v = Some x"
      using x(1) main [OF j(1), of v] notn [OF j(1), of v] by (auto split: if_splits)
    have c': "x = n \<and> j' = Suc k \<and> same_path (Suc k) va v' \<or> x \<noteq> n \<and> tbl m r j' v' = Some x"
      using x(2) main [OF j(2), of v'] notn [OF j(2), of v'] by (auto split: if_splits)
    have "j = j' \<and> same_path j v v'"
    proof (cases "x = n")
      case True
      with c c' show ?thesis by (auto simp: same_path_def)
    next
      case False
      with c c' have "tbl m r j v = Some x" "tbl m r j' v' = Some x" by auto
      from pt_invD [OF inv this j] show ?thesis by simp
    qed
    then show "j = j'" "same_path j v v'" by auto
  qed (rule al)
  show "pte m' r va' = pte m r va'"
  proof (cases "3 = Suc k \<and> same_path (Suc k) va va'")
    case True
    then have "tbl m' r 3 va' = Some n" "tbl m r 3 va' = None"
      using main [of 3 va'] off by auto
    moreover have "load64 m' (cell n (ix 3 va')) = 0"
      using load [OF n(1) ix_less] n(3) [OF ix_less] nt by simp
    ultimately show ?thesis by (simp add: pte_def)
  next
    case False
    then have same: "tbl m' r 3 va' = tbl m r 3 va'" using main [of 3 va'] by auto
    have "u \<noteq> t" if "tbl m r 3 va' = Some u" for u
      using pt_invD(1) [OF inv that, of k va] t that by auto
    with same load [OF aligned_tbl [OF al] ix_less] show ?thesis
      by (auto simp: pte_def split: option.split)
  qed
qed

end
