(* ===== verification/Mapping_Spec.thy ===== *)
theory Mapping_Spec
  imports Paging
begin

text \<open>
  The paging operations of \<^verbatim>\<open>kernel/mm/vmm.c\<close> against the abstract view of an address space as
  a function from addresses to page-table entries: \<^verbatim>\<open>vmm_map\<close> and \<^verbatim>\<open>vmm_unmap\<close> update it at one
  page, \<^verbatim>\<open>vmm_resolve\<close> reads it, and the tree invariant is kept.
\<close>

section \<open>The invariant of an address space\<close>

definition zero_page :: "memory \<Rightarrow> u64 \<Rightarrow> bool" where
  "zero_page m t \<longleftrightarrow> (\<forall>i. unat i < 512 \<longrightarrow> load64 m (cell t i) = 0)"

definition spare_pool :: "'a vmm_state_scheme \<Rightarrow> u64 set" where
  "spare_pool s = {t. \<exists>q. unat (pt_pool_used s) div 4096 \<le> q \<and> q < 64 \<and> t = pt_pool s + of_nat (4096 * q)}"

definition pool_ok :: "'a vmm_state_scheme \<Rightarrow> bool" where
  "pool_ok s \<longleftrightarrow>
     4096 dvd unat (pt_pool s) \<and> unat (pt_pool s) + 262144 \<le> 2 ^ 52 \<and>
     4096 dvd unat (pt_pool_used s) \<and> unat (pt_pool_used s) \<le> 262144 \<and>
     unat (pmm_base s) + unat (pmm_total_pages s) * 4096 \<le> 2 ^ 52 \<and>
     (unat (pt_pool s) + 262144 \<le> unat (pmm_base s) \<or>
      unat (pmm_base s) + unat (pmm_total_pages s) * 4096 \<le> unat (pt_pool s))"

definition spare :: "'a vmm_state_scheme \<Rightarrow> u64 set" where
  "spare s = spare_pool s \<union> pmm_avail s"

text \<open>
  The pages that may still become tables are outside the tree, and those of the page allocator
  are zero: \<^verbatim>\<open>alloc_table\<close> clears the pages of its static pool only.
\<close>

definition vm_inv :: "'a vmm_state_scheme \<Rightarrow> u64 \<Rightarrow> bool" where
  "vm_inv s r \<longleftrightarrow> pmm_inv s \<and> pool_ok s \<and> pt_inv (mem s) r \<and>
     spare s \<inter> tables (mem s) r = {} \<and> (\<forall>t\<in>pmm_avail s. zero_page (mem s) t)"

section \<open>Frames\<close>

lemma vmm_more_fields:
  assumes "pmm_state.more s = pmm_state.more t"
  shows "mem s = mem t" "pt_pool s = pt_pool t" "pt_pool_used s = pt_pool_used t"
    "kernel_pml4 s = kernel_pml4 t" "cr3 s = cr3 t" "tlb_flushed s = tlb_flushed t"
    "heap_ptr s = heap_ptr t" "heap_head s = heap_head t" "blocks s = blocks t"
  using assms by (cases s; cases t; simp)+

lemmas pmm_alloc_vmm_frame [simp] = vmm_more_fields [OF pmm_alloc_frame(3)]

lemma pmm_set_mem [simp]:
  "pmm_inv (s\<lparr>mem := m\<rparr>) = pmm_inv s" "pmm_avail (s\<lparr>mem := m\<rparr>) = pmm_avail s"
  "pmm_inv (s\<lparr>pt_pool_used := u\<rparr>) = pmm_inv s" "pmm_avail (s\<lparr>pt_pool_used := u\<rparr>) = pmm_avail s"
  "pmm_inv (s\<lparr>tlb_flushed := l\<rparr>) = pmm_inv s" "pmm_avail (s\<lparr>tlb_flushed := l\<rparr>) = pmm_avail s"
  by (simp_all add: pmm_inv_def pmm_avail_def free_pages_def page_addr_def)

lemma spare_pool_mem [simp]: "spare_pool (s\<lparr>mem := m\<rparr>) = spare_pool s"
  by (simp add: spare_pool_def)

lemma spare_set_mem [simp]:
  "spare (s\<lparr>mem := m\<rparr>) = spare s" "pool_ok (s\<lparr>mem := m\<rparr>) = pool_ok s"
  "spare (s\<lparr>tlb_flushed := l\<rparr>) = spare s" "pool_ok (s\<lparr>tlb_flushed := l\<rparr>) = pool_ok s"
  by (simp_all add: spare_def spare_pool_def pool_ok_def)

section \<open>Taking a table\<close>

lemma load64_zero_loop:
  assumes "4096 dvd unat t" "4096 dvd unat u" "unat i < 512" "n \<le> 512"
  shows "load64 (for_upto n (\<lambda>j m. store64 m (cell t (of_nat j)) 0) m) (cell u i)
    = (if u = t \<and> unat i < n then 0 else load64 m (cell u i))"
  using assms(4)
proof (induction n)
  case (Suc n)
  have n: "unat (of_nat n :: u64) = n" using Suc.prems by (intro unat_of_nat_u64) simp
  then have "i = of_nat n \<longleftrightarrow> unat i = n" by auto
  with Suc n assms(1-3) show ?case
    by (simp add: load64_store64 aligned8_cell cell_inject) auto
qed simp

lemma load64_zero_table:
  assumes "4096 dvd unat t" "4096 dvd unat u" "unat i < 512"
  shows "load64 (zero_table t m) (cell u i) = (if u = t then 0 else load64 m (cell u i))"
  using load64_zero_loop [OF assms, of 512 m] assms(3) by (simp add: zero_table_def)

lemma pool_page_unat:
  assumes "pool_ok s" "q < 64"
  shows "unat (pt_pool s + of_nat (4096 * q)) = unat (pt_pool s) + 4096 * q"
proof -
  have "unat (pt_pool s) + 4096 * q < 2 ^ 64" using assms by (simp add: pool_ok_def)
  then have "unat (of_nat (unat (pt_pool s) + 4096 * q) :: u64) = unat (pt_pool s) + 4096 * q"
    by (rule unat_of_nat_u64)
  then show ?thesis by simp
qed

lemma spare_page:
  assumes "pmm_inv s" "pool_ok s" "t \<in> spare s"
  shows "4096 dvd unat t" "unat t < 2 ^ 52"
proof -
  from assms(3) consider q where "q < 64" "t = pt_pool s + of_nat (4096 * q)"
    | p where "t = page_addr s p" "p < unat (pmm_total_pages s)"
    by (auto simp: spare_def spare_pool_def pmm_avail_def free_pages_def)
  then have "4096 dvd unat t \<and> unat t < 2 ^ 52"
  proof cases
    case 1
    with pool_page_unat [OF assms(2) 1(1)] assms(2) show ?thesis by (auto simp: pool_ok_def)
  next
    case 2
    have "p * 4096 + 4096 \<le> unat (pmm_total_pages s) * 4096" using 2(2) by simp
    with 2 page_addr_unat [OF assms(1) 2(2)] page_addr_page(2) [OF assms(1) 2(2)] assms(2)
    show ?thesis by (simp add: pool_ok_def)
  qed
  then show "4096 dvd unat t" "unat t < 2 ^ 52" by auto
qed

lemma spare_pool_disjoint:
  assumes "pmm_inv s" "pool_ok s"
  shows "spare_pool s \<inter> pmm_avail s = {}"
proof (rule ccontr)
  assume "spare_pool s \<inter> pmm_avail s \<noteq> {}"
  then obtain t where "t \<in> spare_pool s" "t \<in> pmm_avail s" by blast
  then obtain q p where q: "q < 64" and p: "p < unat (pmm_total_pages s)"
    and eq: "pt_pool s + of_nat (4096 * q) = page_addr s p"
    unfolding spare_pool_def pmm_avail_def free_pages_def by blast
  have "unat (pt_pool s) + 4096 * q = unat (pmm_base s) + p * 4096"
    using pool_page_unat [OF assms(2) q] page_addr_unat [OF assms(1) p] eq by simp
  moreover have "p * 4096 + 4096 \<le> unat (pmm_total_pages s) * 4096" using p by simp
  ultimately show False using assms(2) q by (auto simp: pool_ok_def)
qed

text \<open>The two sources of a table: the static pool, then the page allocator.\<close>

lemma alloc_table_pool:
  assumes "pool_ok s" "pt_pool_used s + PAGE_SIZE \<le> PT_POOL_SIZE"
  defines "t \<equiv> pt_pool s + pt_pool_used s"
  shows "alloc_table s = Inr (t, s\<lparr>pt_pool_used := pt_pool_used s + PAGE_SIZE, mem := zero_table t (mem s)\<rparr>)"
    and "t \<in> spare_pool s"
    and "spare_pool (s\<lparr>pt_pool_used := pt_pool_used s + PAGE_SIZE\<rparr>) = spare_pool s - {t}"
    and "pool_ok (s\<lparr>pt_pool_used := pt_pool_used s + PAGE_SIZE\<rparr>)"
proof -
  show "alloc_table s = Inr (t, s\<lparr>pt_pool_used := pt_pool_used s + PAGE_SIZE, mem := zero_table t (mem s)\<rparr>)"
    using assms(2) by (simp add: alloc_table_def t_def Let_def)
  obtain q where q: "unat (pt_pool_used s) = 4096 * q" using assms(1) by (auto simp: pool_ok_def)
  have u: "unat (pt_pool_used s + PAGE_SIZE) = unat (pt_pool_used s) + 4096"
    using assms(1) by (subst unat_add_u64) (simp_all add: pool_ok_def)
  with assms(2) q have q64: "q < 64" by (simp add: word_le_nat_alt)
  have t: "t = pt_pool s + of_nat (4096 * q)" using q by (metis t_def word_eq_of_nat)
  then show "t \<in> spare_pool s" using q q64 by (auto simp: spare_pool_def)
  have neq: "pt_pool s + of_nat (4096 * p) = t \<longleftrightarrow> p = q" if "p < 64" for p
    using pool_page_unat [OF assms(1) that] pool_page_unat [OF assms(1) q64] t
    by (metis mult_cancel1 nat_add_left_cancel_less add_left_cancel zero_neq_numeral)
  have "Suc q \<le> p \<longleftrightarrow> q \<le> p \<and> p \<noteq> q" for p by auto
  then show "spare_pool (s\<lparr>pt_pool_used := pt_pool_used s + PAGE_SIZE\<rparr>) = spare_pool s - {t}"
    using neq by (auto simp: spare_pool_def u q simp del: of_nat_mult)
  show "pool_ok (s\<lparr>pt_pool_used := pt_pool_used s + PAGE_SIZE\<rparr>)"
    using assms(1) u q q64 by (simp add: pool_ok_def)
qed

text \<open>
  Either way a new table is a zeroed page outside the tree, no longer spare, and the tree is
  as before.
\<close>

lemma alloc_table_spec:
  assumes inv: "vm_inv s r" and a: "alloc_table s = Inr (n, s')"
  shows "n \<in> spare s" "zero_page (mem s') n" "n \<notin> tables (mem s) r"
    "tables (mem s') r = tables (mem s) r" "pt_inv (mem s') r" "pte (mem s') r va = pte (mem s) r va"
    "k \<le> 3 \<Longrightarrow> tbl (mem s') r k va = tbl (mem s) r k va"
    "\<And>u i. u \<in> tables (mem s) r \<Longrightarrow> unat i < 512 \<Longrightarrow> load64 (mem s') (cell u i) = load64 (mem s) (cell u i)"
    "spare s' = spare s - {n}" "vm_inv s' r"
    "\<And>u i. 4096 dvd unat u \<Longrightarrow> unat i < 512 \<Longrightarrow> u \<noteq> n \<Longrightarrow> load64 (mem s') (cell u i) = load64 (mem s) (cell u i)"
proof -
  have pi: "pmm_inv s" and po: "pool_ok s" and pt: "pt_inv (mem s) r"
    and dis: "spare s \<inter> tables (mem s) r = {}" and z: "\<forall>t\<in>pmm_avail s. zero_page (mem s) t"
    using inv by (auto simp: vm_inv_def)
  have al: "4096 dvd unat r" using pt by (simp add: pt_inv_def)
  have "n \<in> spare s \<and> zero_page (mem s') n \<and> spare s' = spare s - {n} \<and> pmm_inv s' \<and> pool_ok s'
    \<and> (\<forall>t\<in>pmm_avail s'. zero_page (mem s') t)
    \<and> (\<forall>u i. 4096 dvd unat u \<longrightarrow> unat i < 512 \<longrightarrow> u \<noteq> n \<longrightarrow> load64 (mem s') (cell u i) = load64 (mem s) (cell u i))"
  proof (cases "pt_pool_used s + PAGE_SIZE \<le> PT_POOL_SIZE")
    case True
    note pool = alloc_table_pool [OF po True]
    let ?t = "pt_pool s + pt_pool_used s"
    from pool(1) a have n: "n = ?t"
      and s': "s' = s\<lparr>pt_pool_used := pt_pool_used s + PAGE_SIZE, mem := zero_table n (mem s)\<rparr>"
      by auto
    have nsp: "n \<in> spare s" using pool(2) n by (simp add: spare_def)
    have aln: "4096 dvd unat n" by (rule spare_page(1) [OF pi po nsp])
    have av: "pmm_avail s' = pmm_avail s" "pmm_inv s'" using pi by (simp_all add: s')
    have po': "pool_ok s'" using pool(4) by (simp add: s')
    have "spare_pool s' = spare_pool s - {n}" using pool(3) by (simp add: s' n)
    then have "spare s' = spare s - {n}"
      using av(1) spare_pool_disjoint [OF pi po] pool(2) n unfolding spare_def by blast
    note sp = this av po'
    have ld: "load64 (mem s') (cell u i) = (if u = n then 0 else load64 (mem s) (cell u i))"
      if "4096 dvd unat u" "unat i < 512" for u i
      using load64_zero_table [OF aln that] by (simp add: s')
    have "zero_page (mem s') t" if "t \<in> pmm_avail s" for t
      using z that ld spare_page(1) [OF pi po, of t] by (auto simp: zero_page_def spare_def)
    moreover have "zero_page (mem s') n" using ld aln by (simp add: zero_page_def)
    ultimately show ?thesis using nsp sp ld by auto
  next
    case False
    obtain n' s1 where p: "pmm_alloc s = (n', s1)" by fastforce
    with False a have n: "n' = n" "s1 = s'" "n \<noteq> 0" by (auto simp: alloc_table_def split: if_splits)
    have ne: "pmm_avail s \<noteq> {}" using pmm.alloc_null_iff [OF pi] p n by auto
    note fr = pmm.alloc_fresh [OF pi ne] pmm.alloc_inv [OF pi]
    have more: "mem s' = mem s" "pt_pool s' = pt_pool s" "pt_pool_used s' = pt_pool_used s"
      "pmm_base s' = pmm_base s" "pmm_total_pages s' = pmm_total_pages s"
      using pmm_alloc_vmm_frame [of s] pmm_alloc_frame(1,2) [of s] p n by auto
    then have po': "pool_ok s'" "spare_pool s' = spare_pool s"
      using po by (simp_all add: pool_ok_def spare_pool_def)
    have "n \<notin> spare_pool s" using fr(1) p n spare_pool_disjoint [OF pi po] by auto
    then have "spare s' = spare s - {n}" using fr(1) p n(1,2) po'(2) unfolding spare_def by auto
    with fr p n z po' more show ?thesis by (auto simp: spare_def)
  qed
  note all = this
  then show r: "n \<in> spare s" "zero_page (mem s') n" "spare s' = spare s - {n}"
    and frame: "\<And>u i. 4096 dvd unat u \<Longrightarrow> unat i < 512 \<Longrightarrow> u \<noteq> n \<Longrightarrow> load64 (mem s') (cell u i) = load64 (mem s) (cell u i)"
    by auto
  show notin: "n \<notin> tables (mem s) r" using r(1) dis by auto
  show ld: "\<And>u i. u \<in> tables (mem s) r \<Longrightarrow> unat i < 512 \<Longrightarrow> load64 (mem s') (cell u i) = load64 (mem s) (cell u i)"
    using frame tables_aligned [OF al] notin by blast
  show "vm_inv s' r"
    unfolding vm_inv_def using all dis tables_cong_mem [of "mem s" r "mem s'", OF ld] pt by blast
  show "tables (mem s') r = tables (mem s) r" "pt_inv (mem s') r" "pte (mem s') r va = pte (mem s) r va"
    using tables_cong_mem [OF ld] pte_cong_mem [OF ld] pt by auto
  show "k \<le> 3 \<Longrightarrow> tbl (mem s') r k va = tbl (mem s) r k va"
    using tbl_cong_mem [OF ld] by simp
qed

section \<open>Steps that grow a tree\<close>

text \<open>
  \<open>grows r s s'\<close>: the invariant holds after, tables were only added, from the spare pages, and
  no entry outside the tree and the pages taken has changed.
\<close>

definition grows :: "u64 \<Rightarrow> 'a vmm_state_scheme \<Rightarrow> 'a vmm_state_scheme \<Rightarrow> bool" where
  "grows r s s' \<longleftrightarrow> vm_inv s' r \<and> spare s' \<subseteq> spare s \<and>
     tables (mem s) r \<subseteq> tables (mem s') r \<and>
     tables (mem s') r \<subseteq> tables (mem s) r \<union> (spare s - spare s') \<and>
     (\<forall>u i. 4096 dvd unat u \<longrightarrow> unat i < 512 \<longrightarrow> u \<notin> tables (mem s) r \<union> (spare s - spare s') \<longrightarrow>
        load64 (mem s') (cell u i) = load64 (mem s) (cell u i))"

lemma grows_refl: "vm_inv s r \<Longrightarrow> grows r s s"
  by (auto simp: grows_def)

lemma grows_inv: "grows r s s' \<Longrightarrow> vm_inv s' r"
  by (simp add: grows_def)

lemma grows_trans:
  assumes "grows r s s'" "grows r s' s''"
  shows "grows r s s''"
proof -
  have sp: "spare s'' \<subseteq> spare s'" "spare s' \<subseteq> spare s" using assms by (auto simp: grows_def)
  have t: "tables (mem s') r \<subseteq> tables (mem s) r \<union> (spare s - spare s')"
    and t': "tables (mem s'') r \<subseteq> tables (mem s') r \<union> (spare s' - spare s'')"
    using assms by (auto simp: grows_def)
  have m: "load64 (mem s'') (cell u i) = load64 (mem s) (cell u i)"
    if "4096 dvd unat u" "unat i < 512" "u \<notin> tables (mem s) r \<union> (spare s - spare s'')" for u i
  proof -
    from that(3) sp t have "u \<notin> tables (mem s) r \<union> (spare s - spare s')"
      "u \<notin> tables (mem s') r \<union> (spare s' - spare s'')" by blast+
    with assms that(1,2) show ?thesis unfolding grows_def by metis
  qed
  show ?thesis
    unfolding grows_def
  proof (intro conjI)
    show "vm_inv s'' r" by (rule grows_inv [OF assms(2)])
    show "spare s'' \<subseteq> spare s" using sp by blast
    show "tables (mem s) r \<subseteq> tables (mem s'') r" using assms unfolding grows_def by blast
    show "tables (mem s'') r \<subseteq> tables (mem s) r \<union> (spare s - spare s'')" using sp t t' by blast
  qed (use m in blast)
qed

lemma table_entry:
  fixes n flags :: u64
  assumes "4096 dvd unat n" "unat n < 2 ^ 52"
  defines "e \<equiv> n OR PTE_PRESENT OR PTE_WRITABLE OR (flags AND PTE_USER)"
  shows "PTE_PHYS e = n" "present e"
proof -
  have "unat (n AND NOT (mask 12)) = unat n" using assms(1) by (simp add: unat_and_not_mask)
  then have low: "n AND NOT (mask 12) = n" by (simp add: word_unat_eq_iff)
  have "unat (take_bit 52 n) = unat n" using assms(2) by (simp only: unat_take_bit mod_less)
  then have "take_bit 52 n = n" by (simp add: word_unat_eq_iff)
  then have high: "n AND mask 52 = n" by (simp add: take_bit_eq_mask)
  have m: "PTE_ADDR_MASK = mask 52 AND NOT (mask 12)" by (simp add: mask_eq_exp_minus_1)
  have n: "n AND PTE_ADDR_MASK = n" unfolding m using low high by (metis and.assoc)
  have f: "(flags AND PTE_USER) AND PTE_ADDR_MASK = 0" by (simp add: and.assoc)
  show "PTE_PHYS e = n"
    unfolding PTE_PHYS_def e_def bit.conj_disj_distrib2 n f by simp
  have "n AND 1 = (n AND NOT (mask 12)) AND 1" by (simp add: low)
  also have "\<dots> = 0" by (simp add: and.assoc mask_eq_exp_minus_1)
  finally show "present e"
    unfolding present_def e_def
    by (simp add: bit.conj_disj_distrib2)
qed

lemma vmm_descend_spec:
  assumes inv: "vm_inv s r" and t: "tbl (mem s) r k va = Some t" "k < 3"
    and d: "vmm_descend t (ix k va) flags s = Inr (u, s')"
  shows "grows r s s'" "tbl (mem s') r (Suc k) va = Some u" "pte (mem s') r va' = pte (mem s) r va'"
proof -
  have al: "4096 dvd unat t" using inv t aligned_tbl by (auto simp: vm_inv_def pt_inv_def)
  have "grows r s s' \<and> tbl (mem s') r (Suc k) va = Some u \<and> (\<forall>va'. pte (mem s') r va' = pte (mem s) r va')"
  proof (cases "present (load64 (mem s) (cell t (ix k va)))")
    case True
    with d t inv show ?thesis by (auto simp: vmm_descend_def grows_refl Let_def)
  next
    case False
    then obtain n s1 where a: "alloc_table s = Inr (n, s1)"
      using d by (auto simp: vmm_descend_def elim!: try_then_InrE)
    let ?e = "n OR PTE_PRESENT OR PTE_WRITABLE OR (flags AND PTE_USER)"
    let ?m = "store64 (mem s1) (cell t (ix k va)) ?e"
    from d False a have s': "s' = s1\<lparr>mem := ?m\<rparr>" and u: "u = PTE_PHYS (load64 ?m (cell t (ix k va)))"
      by (auto simp: vmm_descend_def)
    note sp = alloc_table_spec [OF inv a]
    have pn: "4096 dvd unat n" "unat n < 2 ^ 52"
      using inv spare_page sp(1) by (auto simp: vm_inv_def)
    note e = table_entry [OF pn, of flags]
    have t1: "tbl (mem s1) r k va = Some t" using sp(7) t by simp
    have slot: "\<not> present (load64 (mem s1) (cell t (ix k va)))"
      using sp(8) [OF tablesI [OF t(1)]] t(2) ix_less False by simp
    have z: "load64 (mem s1) (cell n i) = 0" if "unat i < 512" for i
      using sp(2) that by (simp add: zero_page_def)
    have nt: "n \<notin> tables (mem s1) r" using sp(3,4) by simp
    note st = store_table [OF sp(5) t1 t(2) slot pn(1) nt z e]
    have ts: "t \<in> tables (mem s) r" using tablesI [OF t(1)] t(2) by simp
    have ld: "load64 ?m (cell v i) = load64 (mem s1) (cell v i)"
      if "4096 dvd unat v" "unat i < 512" "v \<noteq> t" for v i
      using that al ix_less by (subst load64_store64_other) (auto simp: aligned8_cell cell_inject)
    have inv1: "vm_inv s1 r" by (rule sp(10))
    have dis: "spare s \<inter> tables (mem s) r = {}" using inv by (simp add: vm_inv_def)
    have zs: "zero_page ?m v" if "v \<in> pmm_avail s1" for v
    proof -
      have vs: "v \<in> spare s1" using that by (simp add: spare_def)
      then have "v \<noteq> t" "4096 dvd unat v"
        using ts dis sp(9) spare_page(1) [of s1 v] inv1 by (auto simp: vm_inv_def)
      with ld that inv1 show ?thesis by (auto simp: zero_page_def vm_inv_def)
    qed
    have g: "grows r s s'"
      unfolding grows_def
    proof (intro conjI allI impI)
      have "spare s' \<inter> tables (mem s') r = {}"
        using st(2) sp(4,9) dis by (auto simp: s')
      then show "vm_inv s' r"
        using inv1 st(3) zs by (simp add: vm_inv_def s')
      show "spare s' \<subseteq> spare s" using sp(9) by (auto simp: s')
      show "tables (mem s) r \<subseteq> tables (mem s') r"
        "tables (mem s') r \<subseteq> tables (mem s) r \<union> (spare s - spare s')"
        using st(2) sp(1,4,9) by (auto simp: s')
      fix v i :: u64
      assume v: "4096 dvd unat v" "unat i < 512" "v \<notin> tables (mem s) r \<union> (spare s - spare s')"
      then have "v \<noteq> t" "v \<noteq> n" using ts sp(1,9) by (auto simp: s')
      then show "load64 (mem s') (cell v i) = load64 (mem s) (cell v i)"
        using ld v(1,2) sp(11) by (simp add: s')
    qed
    have "tbl ?m r (Suc k) va = Some n" using st(1) [of "Suc k" va] t(2) by (simp del: tbl.simps)
    moreover have "u = n" using u e(1) load64_store64_same by simp
    ultimately show ?thesis using g st(4) sp(6) by (simp add: s' del: tbl.simps)
  qed
  then show "grows r s s'" "tbl (mem s') r (Suc k) va = Some u" "pte (mem s') r va' = pte (mem s) r va'"
    by blast+
qed

section \<open>The page of an address\<close>

lemma bit_ix: "bit (ix k va) n \<longleftrightarrow> n < 9 \<and> bit va (39 - 9 * k + n)"
proof -
  have "ix k va = take_bit 9 (drop_bit (39 - 9 * k) va)"
    by (simp add: ix_def take_bit_eq_mask mask_eq_exp_minus_1)
  then show ?thesis by (simp add: bit_simps)
qed

lemma word_eq_bits: "v = w \<longleftrightarrow> (\<forall>n. bit v n = bit w n)" for v w :: u64
  by (auto intro: bit_eqI)

lemma ix_eq_iff: "ix k va = ix k va' \<longleftrightarrow> (\<forall>i<9. bit va (39 - 9 * k + i) = bit va' (39 - 9 * k + i))"
  unfolding word_eq_bits [of "ix k va"] bit_ix by blast

text \<open>Two addresses have the same leaf entry when bits 12 to 47 agree: the upper 16 are ignored.\<close>

lemma same_page_iff:
  "same_page va va' \<longleftrightarrow> va AND 0x0000FFFFFFFFF000 = va' AND 0x0000FFFFFFFFF000"
proof -
  have m: "(0x0000FFFFFFFFF000 :: u64) = mask 48 AND NOT (mask 12)"
    by (simp add: mask_eq_exp_minus_1)
  have b: "bit (va AND 0x0000FFFFFFFFF000) n \<longleftrightarrow> bit va n \<and> 12 \<le> n \<and> n < 48" for n and va :: u64
    unfolding m by (auto simp: bit_simps dest: bit_imp_le_length)
  have lev: "(\<exists>j<4. \<exists>i<9. n = 39 - 9 * j + i) \<longleftrightarrow> 12 \<le> n \<and> n < 48" for n :: nat
  proof
    assume n: "12 \<le> n \<and> n < 48"
    define q where "q = (n - 12) div 9"
    have e: "n - 12 = 9 * q + (n - 12) mod 9" "(n - 12) mod 9 < 9" by (simp_all add: q_def)
    then have "q \<le> 3" using n by linarith
    then have "3 - q < 4" "n = 39 - 9 * (3 - q) + (n - 12) mod 9" using n e by linarith+
    with e(2) show "\<exists>j<4. \<exists>i<9. n = 39 - 9 * j + i" by blast
  qed auto
  have "same_page va va' \<longleftrightarrow> (\<forall>j<4. \<forall>i<9. bit va (39 - 9 * j + i) = bit va' (39 - 9 * j + i))"
    by (simp only: same_path_def ix_eq_iff)
  also have "\<dots> \<longleftrightarrow> (\<forall>n. 12 \<le> n \<and> n < 48 \<longrightarrow> bit va n = bit va' n)"
    unfolding lev [symmetric] by blast
  also have "\<dots> \<longleftrightarrow> va AND 0x0000FFFFFFFFF000 = va' AND 0x0000FFFFFFFFF000"
    using b by (auto simp: word_eq_bits [of "va AND _"])
  finally show ?thesis .
qed

section \<open>The operations\<close>

definition leaf_entry :: "u64 \<Rightarrow> u64 \<Rightarrow> u64" where
  "leaf_entry phys flags = (phys AND PTE_ADDR_MASK) OR (flags OR PTE_PRESENT)"

lemma leaf_entry_present: "present (leaf_entry phys flags)"
  by (simp add: leaf_entry_def present_def bit.conj_disj_distrib2)

lemma leaf_entry_phys:
  assumes "flags AND PTE_ADDR_MASK = 0"
  shows "PTE_PHYS (leaf_entry phys flags) = phys AND PTE_ADDR_MASK"
  using assms by (simp add: leaf_entry_def PTE_PHYS_def bit.conj_disj_distrib2 and.assoc)

lemma grows_leaf:
  fixes e va' :: u64
  assumes inv: "vm_inv s r" and t: "tbl (mem s) r 3 va = Some t"
  defines "s' \<equiv> tlb_flush va' (s\<lparr>mem := store64 (mem s) (cell t (ix 3 va)) e\<rparr>)"
  shows "grows r s s'" "spare s' = spare s"
    "pte (mem s') r va'' = (if same_page va va'' then e else pte (mem s) r va'')"
proof -
  have pt: "pt_inv (mem s) r" using inv by (simp add: vm_inv_def)
  note st = store_leaf [OF pt t, where e = e]
  have ts: "t \<in> tables (mem s) r" by (rule tablesI [OF t]) simp
  have al: "4096 dvd unat t" using pt t aligned_tbl by (auto simp: pt_inv_def)
  have ld: "load64 (store64 (mem s) (cell t (ix 3 va)) e) (cell v i) = load64 (mem s) (cell v i)"
    if "4096 dvd unat v" "unat i < 512" "v \<noteq> t" for v i
    using that al ix_less by (subst load64_store64_other) (auto simp: aligned8_cell cell_inject)
  have "zero_page (mem s') v" if v: "v \<in> pmm_avail s" for v
  proof -
    have "v \<in> spare s" using v by (simp add: spare_def)
    then have "v \<noteq> t" "4096 dvd unat v" using ts inv spare_page(1) [of s v] by (auto simp: vm_inv_def)
    with ld v inv show ?thesis by (auto simp: zero_page_def vm_inv_def s'_def tlb_flush_def)
  qed
  then have "vm_inv s' r"
    using inv st by (auto simp: vm_inv_def s'_def tlb_flush_def)
  then show "grows r s s'"
    using st(1) ld ts unfolding grows_def by (auto simp: s'_def tlb_flush_def)
  show "spare s' = spare s" by (simp add: s'_def tlb_flush_def)
  show "pte (mem s') r va'' = (if same_page va va'' then e else pte (mem s) r va'')"
    using st(4) by (simp add: s'_def tlb_flush_def)
qed

text \<open>\<^verbatim>\<open>vmm_map\<close> updates the address space at exactly one page.\<close>

lemma vmm_map_spec:
  assumes inv: "vm_inv s r" and m: "vmm_map r va pa flags s = Inr (c, s')"
  shows "c = 0" "grows r s s'" "va \<in> set (tlb_flushed s')"
    "pte (mem s') r va' = (if same_page va va' then leaf_entry pa flags else pte (mem s) r va')"
proof -
  from m obtain t1 s1 t2 s2 t3 s3 where
    d1: "vmm_descend r (ix 0 va) flags s = Inr (t1, s1)" and
    d2: "vmm_descend t1 (ix 1 va) flags s1 = Inr (t2, s2)" and
    d3: "vmm_descend t2 (ix 2 va) flags s2 = Inr (t3, s3)" and
    c: "c = 0" and
    s': "s' = tlb_flush va (s3\<lparr>mem := store64 (mem s3) (cell t3 (ix 3 va)) (leaf_entry pa flags)\<rparr>)"
    by (auto simp: vmm_map_def ix_levels leaf_entry_def Let_def elim!: try_then_InrE)
  note p1 = vmm_descend_spec [OF inv _ _ d1, simplified]
  note i1 = grows_inv [OF p1(1)]
  have tb1: "tbl (mem s1) r 1 va = Some t1" using p1(2) by simp
  note p2 = vmm_descend_spec [OF i1 tb1 _ d2]
  note i2 = grows_inv [OF p2(1)]
  have tb2: "tbl (mem s2) r 2 va = Some t2" using p2(2) by (simp add: numeral_eq_Suc del: tbl.simps)
  note p3 = vmm_descend_spec [OF i2 tb2 _ d3]
  note i3 = grows_inv [OF p3(1)]
  have tb3: "tbl (mem s3) r 3 va = Some t3" using p3(2) by (simp add: numeral_eq_Suc del: tbl.simps)
  note p4 = grows_leaf [OF i3 tb3, of va "leaf_entry pa flags", folded s']
  show "c = 0" by (rule c)
  show "grows r s s'"
    using grows_trans [OF grows_trans [OF grows_trans [OF p1(1) p2(1)] p3(1)] p4(1)] by simp
  show "va \<in> set (tlb_flushed s')" by (simp add: s' tlb_flush_def)
  show "pte (mem s') r va' = (if same_page va va' then leaf_entry pa flags else pte (mem s) r va')"
    using p4(3) p3(3) p2(3) p1(3) by simp
qed

lemma vmm_resolve_eq:
  "vmm_resolve r va s =
    (if present (pte (mem s) r va) then PTE_PHYS (pte (mem s) r va) OR (va AND 0xFFF) else 0)"
  by (simp add: vmm_resolve_def pte_def ix_levels Let_def numeral_eq_Suc present_def)

lemma vmm_unmap_eq:
  "vmm_unmap r va s = (case tbl (mem s) r 3 va of None \<Rightarrow> s
     | Some t \<Rightarrow> tlb_flush va (s\<lparr>mem := store64 (mem s) (cell t (ix 3 va)) 0\<rparr>))"
  by (simp add: vmm_unmap_def ix_levels Let_def numeral_eq_Suc)

text \<open>\<^verbatim>\<open>vmm_unmap\<close> clears the entry of exactly one page and keeps the tables.\<close>

lemma vmm_unmap_spec:
  assumes "vm_inv s r"
  shows "grows r s (vmm_unmap r va s)" "spare (vmm_unmap r va s) = spare s"
    "pte (mem (vmm_unmap r va s)) r va' = (if same_page va va' then 0 else pte (mem s) r va')"
proof -
  have "grows r s (vmm_unmap r va s) \<and> spare (vmm_unmap r va s) = spare s \<and>
    pte (mem (vmm_unmap r va s)) r va' = (if same_page va va' then 0 else pte (mem s) r va')"
  proof (cases "tbl (mem s) r 3 va")
    case None
    then have "same_page va va' \<Longrightarrow> pte (mem s) r va' = 0"
      using pte_same_page [of va va'] by (simp add: pte_def)
    with None assms show ?thesis by (auto simp: vmm_unmap_eq grows_refl)
  next
    case (Some t)
    with grows_leaf [OF assms Some] show ?thesis by (simp add: vmm_unmap_eq)
  qed
  then show "grows r s (vmm_unmap r va s)" "spare (vmm_unmap r va s) = spare s"
    "pte (mem (vmm_unmap r va s)) r va' = (if same_page va va' then 0 else pte (mem s) r va')"
    by blast+
qed

end
