(* ===== verification/Address_Space.thy ===== *)
theory Address_Space
  imports Mapping_Spec
begin

text \<open>
  Consequences of the specification of \<^verbatim>\<open>vmm_map\<close> and \<^verbatim>\<open>vmm_unmap\<close>: mapping succeeds while pages
  are left, one address space does not disturb another, and \<^verbatim>\<open>vmm_init\<close> builds the kernel's
  mapping.
\<close>

section \<open>Mapping succeeds while three pages are left\<close>

lemma finite_spare: "pmm_inv s \<Longrightarrow> finite (spare s)"
proof -
  assume "pmm_inv s"
  then have "finite (pmm_avail s)" by (rule pmm.avail_finite)
  moreover have "spare_pool s \<subseteq> (\<lambda>q. pt_pool s + of_nat (4096 * q)) ` {..<64}"
    by (auto simp: spare_pool_def simp del: of_nat_mult)
  then have "finite (spare_pool s)" by (rule finite_subset) simp
  ultimately show ?thesis by (simp add: spare_def)
qed

lemma alloc_table_total:
  assumes "vm_inv s r" "spare s \<noteq> {}"
  shows "\<exists>n s'. alloc_table s = Inr (n, s')"
proof (cases "pt_pool_used s + PAGE_SIZE \<le> PT_POOL_SIZE")
  case True
  then show ?thesis by (simp add: alloc_table_def Let_def)
next
  case False
  have pi: "pmm_inv s" and po: "pool_ok s" using assms(1) by (auto simp: vm_inv_def)
  have "unat (pt_pool_used s + PAGE_SIZE) = unat (pt_pool_used s) + 4096"
    using po by (subst unat_add_u64) (simp_all add: pool_ok_def)
  with False have "262144 < unat (pt_pool_used s) + 4096" by (simp add: word_le_nat_alt not_le)
  then have "\<not> unat (pt_pool_used s) div 4096 < 64"
    using po by (auto simp: pool_ok_def elim!: dvdE)
  then have "spare_pool s = {}" by (auto simp: spare_pool_def)
  with assms(2) have "pmm_avail s \<noteq> {}" by (simp add: spare_def)
  then have "fst (pmm_alloc s) \<noteq> 0" using pmm.alloc_null_iff [OF pi] by simp
  with False show ?thesis by (simp add: alloc_table_def split_beta)
qed

lemma vmm_descend_total:
  assumes inv: "vm_inv s r" and ne: "spare s \<noteq> {}"
  shows "\<exists>u s'. vmm_descend t i flags s = Inr (u, s') \<and> card (spare s) \<le> Suc (card (spare s'))"
proof (cases "present (load64 (mem s) (cell t i))")
  case True
  then show ?thesis by (simp add: vmm_descend_def)
next
  case False
  obtain n s1 where a: "alloc_table s = Inr (n, s1)" using alloc_table_total [OF inv ne] by blast
  have "pmm_inv s" using inv by (simp add: vm_inv_def)
  then have "card (spare s1) = card (spare s) - 1"
    using alloc_table_spec(1,9) [OF inv a] finite_spare by simp
  with False a show ?thesis by (simp add: vmm_descend_def)
qed

lemma vmm_map_total:
  assumes inv: "vm_inv s r" and c: "3 \<le> card (spare s)"
  shows "\<exists>s'. vmm_map r va pa flags s = Inr (0, s') \<and> card (spare s) \<le> 3 + card (spare s')"
proof -
  have ne: "spare s \<noteq> {}" using c by auto
  obtain t1 s1 where d1: "vmm_descend r (ix 0 va) flags s = Inr (t1, s1)"
    and c1: "card (spare s) \<le> Suc (card (spare s1))"
    using vmm_descend_total [OF inv ne] by blast
  note p1 = vmm_descend_spec [OF inv _ _ d1, simplified]
  note i1 = grows_inv [OF p1(1)]
  have tb1: "tbl (mem s1) r 1 va = Some t1" using p1(2) by simp
  have ne1: "spare s1 \<noteq> {}" using c c1 by auto
  obtain t2 s2 where d2: "vmm_descend t1 (ix 1 va) flags s1 = Inr (t2, s2)"
    and c2: "card (spare s1) \<le> Suc (card (spare s2))"
    using vmm_descend_total [OF i1 ne1] by blast
  note p2 = vmm_descend_spec [OF i1 tb1 _ d2]
  note i2 = grows_inv [OF p2(1)]
  have ne2: "spare s2 \<noteq> {}" using c c1 c2 by auto
  obtain t3 s3 where d3: "vmm_descend t2 (ix 2 va) flags s2 = Inr (t3, s3)"
    and c3: "card (spare s2) \<le> Suc (card (spare s3))"
    using vmm_descend_total [OF i2 _] ne2 by fastforce
  from d1 d2 d3 c1 c2 c3 show ?thesis
    by (simp add: vmm_map_def ix_levels Let_def tlb_flush_def)
qed

section \<open>Address spaces do not disturb each other\<close>

text \<open>
  Growing one tree leaves every entry of a tree that shares no table with it, and the two still
  share none afterwards.
\<close>

lemma grows_isolated:
  assumes g: "grows r s s'" and dis: "tables (mem s) r \<inter> tables (mem s) q = {}"
    and inv: "vm_inv s q"
  shows "vm_inv s' q" "tables (mem s') r \<inter> tables (mem s') q = {}"
    "pte (mem s') q va = pte (mem s) q va"
proof -
  have pt: "pt_inv (mem s) q" using inv by (simp add: vm_inv_def)
  have sp: "spare s' \<subseteq> spare s" "spare s \<inter> tables (mem s) q = {}"
    and tr: "tables (mem s') r \<subseteq> tables (mem s) r \<union> (spare s - spare s')"
    using g inv by (auto simp: grows_def vm_inv_def)
  have ld: "load64 (mem s') (cell t i) = load64 (mem s) (cell t i)"
    if "t \<in> tables (mem s) q" "unat i < 512" for t i
  proof -
    have "4096 dvd unat t" using that(1) pt tables_aligned by (auto simp: pt_inv_def)
    moreover have "t \<notin> tables (mem s) r \<union> (spare s - spare s')" using that(1) sp dis by auto
    ultimately show ?thesis using g that(2) unfolding grows_def by blast
  qed
  note same = tables_cong_mem [of "mem s" q "mem s'", OF ld]
  show "vm_inv s' q"
    unfolding vm_inv_def using g same pt sp by (auto simp: grows_def vm_inv_def)
  show "tables (mem s') r \<inter> tables (mem s') q = {}" using same(1) tr dis sp by auto
  show "pte (mem s') q va = pte (mem s) q va" by (rule pte_cong_mem [OF ld])
qed

section \<open>What the operations leave alone\<close>

definition same_config :: "'a vmm_state_scheme \<Rightarrow> 'a vmm_state_scheme \<Rightarrow> bool" where
  "same_config s s' \<longleftrightarrow> kernel_pml4 s' = kernel_pml4 s \<and> cr3 s' = cr3 s \<and>
     pmm_base s' = pmm_base s \<and> pmm_total_pages s' = pmm_total_pages s \<and> pt_pool s' = pt_pool s \<and>
     heap_ptr s' = heap_ptr s \<and> heap_head s' = heap_head s \<and> blocks s' = blocks s \<and>
     vmm_state.more s' = vmm_state.more s"

lemma same_config_refl [simp]: "same_config s s"
  by (simp add: same_config_def)

lemma same_config_trans: "same_config s s' \<Longrightarrow> same_config s' s'' \<Longrightarrow> same_config s s''"
  by (simp add: same_config_def)

lemma vmm_more_more:
  assumes "pmm_state.more s = pmm_state.more t"
  shows "vmm_state.more s = vmm_state.more t"
  using assms by (cases s; cases t) simp

lemma same_config_pmm_alloc: "same_config s (snd (pmm_alloc s))"
  by (simp add: same_config_def vmm_more_more [OF pmm_alloc_frame(3)])

lemma same_config_mem [simp]:
  "same_config s (t\<lparr>mem := m\<rparr>) = same_config s t"
  "same_config s (t\<lparr>pt_pool_used := u\<rparr>) = same_config s t"
  "same_config s (tlb_flush va t) = same_config s t"
  by (simp_all add: same_config_def tlb_flush_def)

lemma same_config_alloc_table: "alloc_table s = Inr (n, s') \<Longrightarrow> same_config s s'"
  using same_config_pmm_alloc [of s]
  by (auto simp: alloc_table_def Let_def split_beta split: if_splits)

lemma same_config_vmm_descend: "vmm_descend t i flags s = Inr (u, s') \<Longrightarrow> same_config s s'"
  using same_config_alloc_table
  by (fastforce simp: vmm_descend_def elim!: try_then_InrE split: if_splits)

lemma same_config_vmm_map: "vmm_map r va pa flags s = Inr (c, s') \<Longrightarrow> same_config s s'"
  by (auto simp: vmm_map_def Let_def elim!: try_then_InrE
      dest!: same_config_vmm_descend intro: same_config_trans)

section \<open>Pages of the lower half\<close>

lemma same_page_low:
  assumes "unat va < 2 ^ 48" "unat x < 2 ^ 48"
  shows "same_page va x \<longleftrightarrow> unat va div 4096 = unat x div 4096"
proof -
  have m: "(0x0000FFFFFFFFF000 :: u64) = mask 48 AND NOT (mask 12)"
    by (simp add: mask_eq_exp_minus_1)
  have u: "unat (y AND 0x0000FFFFFFFFF000) = unat y div 4096 * 4096" if "unat y < 2 ^ 48" for y :: u64
  proof -
    have "unat (take_bit 48 y) = unat y" using that by (simp only: unat_take_bit mod_less)
    then have "y AND mask 48 = y" by (simp add: word_unat_eq_iff take_bit_eq_mask)
    then have "y AND 0x0000FFFFFFFFF000 = y AND NOT (mask 12)" unfolding m by (metis and.assoc)
    then show ?thesis by (simp add: unat_and_not_mask)
  qed
  show ?thesis
    unfolding same_page_iff word_unat_eq_iff u [OF assms(1)] u [OF assms(2)] by simp
qed

lemma spare_pool_pool:
  assumes "pmm_inv s" "pool_ok s"
  shows "spare_pool s \<inter> pmm_pool s = {}"
proof (rule ccontr)
  assume "spare_pool s \<inter> pmm_pool s \<noteq> {}"
  then obtain t where "t \<in> spare_pool s" "t \<in> pmm_pool s" by blast
  then obtain q p where q: "q < 64" and p: "p < unat (pmm_total_pages s)"
    and eq: "pt_pool s + of_nat (4096 * q) = page_addr s p"
    unfolding spare_pool_def pmm_pool_def by blast
  have "unat (pt_pool s) + 4096 * q = unat (pmm_base s) + p * 4096"
    using pool_page_unat [OF assms(2) q] page_addr_unat [OF assms(1) p] eq by simp
  moreover have "p * 4096 + 4096 \<le> unat (pmm_total_pages s) * 4096" using p by simp
  ultimately show False using assms(2) q by (auto simp: pool_ok_def)
qed

lemma grows_avail:
  assumes "grows r s s'" "same_config s s'" "vm_inv s r"
  shows "pmm_avail s' \<subseteq> pmm_avail s"
proof -
  have inv: "pmm_inv s" "pool_ok s" "pmm_inv s'" using assms by (auto simp: vm_inv_def grows_def)
  have "pmm_pool s' = pmm_pool s"
    using assms(2) by (simp add: same_config_def pmm_pool_def page_addr_def)
  then have "pmm_avail s' \<subseteq> pmm_pool s" using pmm.avail_pool [OF inv(3)] by simp
  moreover have "pmm_avail s' \<subseteq> spare_pool s \<union> pmm_avail s"
    using assms(1) by (auto simp: grows_def spare_def)
  ultimately show ?thesis using spare_pool_pool [OF inv(1,2)] by blast
qed

lemma grows_pmm_alloc:
  assumes inv: "vm_inv s r" and a: "pmm_alloc s = (pa, s1)" "pa \<noteq> 0"
  shows "grows r s s1" "pa \<in> pmm_avail s" "pmm_avail s1 = pmm_avail s - {pa}" "mem s1 = mem s"
proof -
  have pi: "pmm_inv s" using inv by (simp add: vm_inv_def)
  have "pmm_avail s \<noteq> {}" using pmm.alloc_null_iff [OF pi] a by auto
  note fr = pmm.alloc_fresh [OF pi this] pmm.alloc_inv [OF pi]
  have more: "mem s1 = mem s" "pt_pool s1 = pt_pool s" "pt_pool_used s1 = pt_pool_used s"
    "pmm_base s1 = pmm_base s" "pmm_total_pages s1 = pmm_total_pages s"
    using pmm_alloc_vmm_frame [of s] pmm_alloc_frame(1,2) [of s] a by auto
  then have po: "pool_ok s1 = pool_ok s" "spare_pool s1 = spare_pool s"
    by (simp_all add: pool_ok_def spare_pool_def)
  show "pa \<in> pmm_avail s" "pmm_avail s1 = pmm_avail s - {pa}" using fr a by simp_all
  then have "spare s1 \<subseteq> spare s" "pmm_avail s1 \<subseteq> pmm_avail s" using po by (auto simp: spare_def)
  then have "vm_inv s1 r"
    using fr(2) a po more inv unfolding vm_inv_def by auto
  then show "grows r s s1" using \<open>spare s1 \<subseteq> spare s\<close> more unfolding grows_def by auto
  show "mem s1 = mem s" by (rule more)
qed

section \<open>The loops of \<open>vmm_init\<close>\<close>

lemma leaf_in_page:
  assumes "unat va < 2 ^ 48" "unat x < 2 ^ 48" "4096 dvd unat va"
  shows "same_page va x \<longleftrightarrow> unat va \<le> unat x \<and> unat x < unat va + 4096"
proof -
  obtain q where q: "unat va = 4096 * q" using assms(3) by (rule dvdE)
  have "unat va div 4096 = unat x div 4096 \<longleftrightarrow> 4096 * q \<le> unat x \<and> unat x < 4096 * q + 4096"
    using q div_mult_mod_eq [of "unat x" 4096] mod_less_divisor [of 4096 "unat x"] by auto
  then show ?thesis using same_page_low [OF assms(1,2)] q by simp
qed

lemma page_mask_eq:
  assumes "unat va < 2 ^ 48" "4096 dvd unat va" "unat va \<le> unat x" "unat x < unat va + 4096"
  shows "x AND PTE_ADDR_MASK = va AND PTE_ADDR_MASK"
proof -
  have x: "unat x < 2 ^ 48" using assms by (auto elim!: dvdE)
  then have "va AND 0x0000FFFFFFFFF000 = x AND 0x0000FFFFFFFFF000"
    using leaf_in_page [OF assms(1) x assms(2)] assms(3,4) by (simp add: same_page_iff)
  moreover have "y AND PTE_ADDR_MASK = y AND 0x0000FFFFFFFFF000" if "unat y < 2 ^ 48" for y :: u64
  proof -
    have "unat (take_bit 48 y) = unat y" using that by (simp only: unat_take_bit mod_less)
    then have y: "y AND mask 48 = y" by (simp add: word_unat_eq_iff take_bit_eq_mask)
    have "mask 48 AND PTE_ADDR_MASK = (0x0000FFFFFFFFF000 :: u64)" by (simp add: mask_eq_exp_minus_1)
    then show ?thesis using y by (metis and.assoc)
  qed
  ultimately show ?thesis using x assms(1) by simp
qed

abbreviation RW :: u64 where "RW \<equiv> PTE_PRESENT OR PTE_WRITABLE"

lemma identity_loop_spec:
  assumes "vm_inv s r" "kernel_pml4 s = r" "4096 dvd unat va" "4096 dvd unat stop" "unat stop \<le> 2 ^ 48"
  shows "\<exists>res. identity_loop va stop s = Some res \<and>
    (\<forall>s'. res = Inr s' \<longrightarrow> grows r s s' \<and> same_config s s' \<and>
      (\<forall>x. unat x < 2 ^ 48 \<longrightarrow> pte (mem s') r x =
         (if unat va \<le> unat x \<and> unat x < unat stop then leaf_entry x RW else pte (mem s) r x)))"
  using assms
proof (induction "unat stop - unat va" arbitrary: va s rule: less_induct)
  case less
  show ?case
  proof (cases "va < stop")
    case False
    then have "unat stop \<le> unat va" by (simp add: word_le_nat_alt not_less)
    with False less.prems(1) show ?thesis by (subst identity_loop.simps) (auto simp: grows_refl)
  next
    case True
    then have lt: "unat va < unat stop" by (simp add: word_less_nat_alt)
    with less.prems(3,4) have lt4: "unat va + 4096 \<le> unat stop" by (auto elim!: dvdE)
    then have step: "unat (va + PAGE_SIZE) = unat va + 4096"
      using less.prems(5) by (subst unat_add_u64) simp_all
    have va48: "unat va < 2 ^ 48" using lt less.prems(5) by simp
    show ?thesis
    proof (cases "vmm_map_page (kernel_pml4 s) va va RW s")
      case (Inl e)
      with True show ?thesis by (subst identity_loop.simps) auto
    next
      case (Inr s1)
      then obtain c where m: "vmm_map r va va RW s = Inr (c, s1)"
        using less.prems(2) by (auto simp: vmm_map_page_def elim!: try_then_InrE)
      note sp = vmm_map_spec [OF less.prems(1) m]
      note inv1 = grows_inv [OF sp(2)]
      note cfg = same_config_vmm_map [OF m]
      have k1: "kernel_pml4 s1 = r" using cfg less.prems(2) by (simp add: same_config_def)
      have "4096 dvd unat (va + PAGE_SIZE)" using step less.prems(3) by simp
      from less.hyps [OF _ inv1 k1 this less.prems(4,5)] step lt4 lt obtain res where
        l: "identity_loop (va + PAGE_SIZE) stop s1 = Some res" and
        r: "\<And>s'. res = Inr s' \<Longrightarrow> grows r s1 s' \<and> same_config s1 s' \<and>
          (\<forall>x. unat x < 2 ^ 48 \<longrightarrow> pte (mem s') r x =
            (if unat va + 4096 \<le> unat x \<and> unat x < unat stop then leaf_entry x RW
             else pte (mem s1) r x))"
        by (auto simp: diff_less_mono2)
      have "identity_loop va stop s = Some res"
        using True Inr l by (subst identity_loop.simps) simp
      moreover have "grows r s s' \<and> same_config s s' \<and>
          (\<forall>x. unat x < 2 ^ 48 \<longrightarrow> pte (mem s') r x =
            (if unat va \<le> unat x \<and> unat x < unat stop then leaf_entry x RW else pte (mem s) r x))"
        if "res = Inr s'" for s'
      proof (intro conjI allI impI)
        show "grows r s s'" using r [OF that] grows_trans [OF sp(2)] by blast
        show "same_config s s'" using r [OF that] same_config_trans [OF cfg] by blast
        fix x :: u64
        assume x: "unat x < 2 ^ 48"
        note same = leaf_in_page [OF va48 x less.prems(3)]
        have "leaf_entry va RW = leaf_entry x RW" if "unat va \<le> unat x" "unat x < unat va + 4096"
          using page_mask_eq [OF va48 less.prems(3) that] by (simp add: leaf_entry_def)
        then show "pte (mem s') r x =
            (if unat va \<le> unat x \<and> unat x < unat stop then leaf_entry x RW else pte (mem s) r x)"
          using r [OF that] x sp(4) [of x] same lt4 by (auto simp: not_le)
      qed
      ultimately show ?thesis by blast
    qed
  qed
qed

lemma kheap_end: "unat (KHEAP_START + KHEAP_SIZE) = 0x800000" by simp

lemma heap_map_loop_spec:
  assumes "vm_inv s r" "kernel_pml4 s = r" "4096 dvd unat va" "unat va \<le> 0x800000"
  shows "\<exists>res. heap_map_loop va s = Some res \<and>
    (\<forall>s'. res = Inr s' \<longrightarrow> grows r s s' \<and> same_config s s' \<and>
      (\<exists>f. inj_on f {unat va div 4096..<2048} \<and> f ` {unat va div 4096..<2048} \<subseteq> pmm_avail s - pmm_avail s' \<and>
        (\<forall>x. unat x < 2 ^ 48 \<longrightarrow> pte (mem s') r x =
          (if unat va \<le> unat x \<and> unat x < 0x800000 then leaf_entry (f (unat x div 4096)) RW
           else pte (mem s) r x))))"
  using assms
proof (induction "0x800000 - unat va" arbitrary: va s rule: less_induct)
  case less
  show ?case
  proof (cases "va < KHEAP_START + KHEAP_SIZE")
    case False
    then have "unat va = 0x800000" using less.prems(4) by (simp add: word_less_nat_alt not_less)
    with False less.prems(1) show ?thesis
      by (subst heap_map_loop.simps) (auto simp: grows_refl)
  next
    case True
    then have lt: "unat va < 0x800000" by (simp add: word_less_nat_alt)
    with less.prems(3) have lt4: "unat va + 4096 \<le> 0x800000" by (auto elim!: dvdE)
    then have step: "unat (va + PAGE_SIZE) = unat va + 4096"
      by (subst unat_add_u64) simp_all
    have va48: "unat va < 2 ^ 48" using lt by simp
    obtain q where q: "unat va = 4096 * q" using less.prems(3) by (rule dvdE)
    obtain pa s1 where a: "pmm_alloc_page s = (pa, s1)" by fastforce
    show ?thesis
    proof (cases "pa = 0")
      case True
      with a \<open>va < KHEAP_START + KHEAP_SIZE\<close> show ?thesis by (subst heap_map_loop.simps) auto
    next
      case False
      have a': "pmm_alloc s = (pa, s1)" using a by (simp add: pmm_alloc_page_def)
      note al = grows_pmm_alloc [OF less.prems(1) a' False]
      note inv1 = grows_inv [OF al(1)]
      have cfg1: "same_config s s1" using same_config_pmm_alloc [of s] a' by simp
      have k1: "kernel_pml4 s1 = r" using cfg1 less.prems(2) by (simp add: same_config_def)
      show ?thesis
      proof (cases "vmm_map_page (kernel_pml4 s1) va pa RW s1")
        case (Inl e)
        with True a False show ?thesis by (subst heap_map_loop.simps) auto
      next
        case (Inr s2)
        then obtain c where m: "vmm_map r va pa RW s1 = Inr (c, s2)"
          using k1 by (auto simp: vmm_map_page_def elim!: try_then_InrE)
        note sp = vmm_map_spec [OF inv1 m]
        note inv2 = grows_inv [OF sp(2)]
        note cfg2 = same_config_vmm_map [OF m]
        have k2: "kernel_pml4 s2 = r" using cfg2 k1 by (simp add: same_config_def)
        have av2: "pmm_avail s2 \<subseteq> pmm_avail s - {pa}"
          using grows_avail [OF sp(2) cfg2 inv1] al(3) by simp
        have al': "4096 dvd unat (va + PAGE_SIZE)" using step less.prems(3) by simp
        have dec: "0x800000 - unat (va + PAGE_SIZE) < 0x800000 - unat va" using step lt by linarith
        have le: "unat (va + PAGE_SIZE) \<le> 0x800000" using step lt4 by linarith
        have nx: "unat (va + PAGE_SIZE) div 4096 = Suc q" unfolding step q by simp
        from less.hyps [OF dec inv2 k2 al' le] obtain res where
          l: "heap_map_loop (va + PAGE_SIZE) s2 = Some res" and
          r: "\<And>s'. res = Inr s' \<Longrightarrow> grows r s2 s' \<and> same_config s2 s' \<and>
            (\<exists>f. inj_on f {Suc q..<2048} \<and> f ` {Suc q..<2048} \<subseteq> pmm_avail s2 - pmm_avail s' \<and>
              (\<forall>x. unat x < 2 ^ 48 \<longrightarrow> pte (mem s') r x =
                (if unat va + 4096 \<le> unat x \<and> unat x < 0x800000 then leaf_entry (f (unat x div 4096)) RW
                 else pte (mem s2) r x)))"
          unfolding nx unfolding step by blast
        have "heap_map_loop va s = Some res"
          using True a False Inr l by (subst heap_map_loop.simps) simp
        moreover have "grows r s s' \<and> same_config s s' \<and>
          (\<exists>f. inj_on f {q..<2048} \<and> f ` {q..<2048} \<subseteq> pmm_avail s - pmm_avail s' \<and>
            (\<forall>x. unat x < 2 ^ 48 \<longrightarrow> pte (mem s') r x =
              (if unat va \<le> unat x \<and> unat x < 0x800000 then leaf_entry (f (unat x div 4096)) RW
               else pte (mem s) r x)))"
          if "res = Inr s'" for s'
        proof -
          from r [OF that] obtain f where g: "grows r s2 s'" "same_config s2 s'"
            and f: "inj_on f {Suc q..<2048}" "f ` {Suc q..<2048} \<subseteq> pmm_avail s2 - pmm_avail s'"
            and p: "\<And>x. unat x < 2 ^ 48 \<Longrightarrow> pte (mem s') r x =
                (if unat va + 4096 \<le> unat x \<and> unat x < 0x800000 then leaf_entry (f (unat x div 4096)) RW
                 else pte (mem s2) r x)"
            by blast
          let ?f = "f(q := pa)"
          have q2: "{q..<2048} = insert q {Suc q..<2048}" using lt q by auto
          have av': "pmm_avail s' \<subseteq> pmm_avail s2" by (rule grows_avail [OF g inv2])
          have img: "?f ` {Suc q..<2048} = f ` {Suc q..<2048}" by auto
          have "inj_on ?f {q..<2048}"
            unfolding q2 using f av2 by (auto simp: inj_on_def)
          moreover have "?f ` {q..<2048} \<subseteq> pmm_avail s - pmm_avail s'"
            unfolding q2 image_insert img using f(2) av2 av' al(2) by auto
          moreover have "pte (mem s') r x =
              (if unat va \<le> unat x \<and> unat x < 0x800000 then leaf_entry (?f (unat x div 4096)) RW
               else pte (mem s) r x)" if x: "unat x < 2 ^ 48" for x
          proof -
            note same = leaf_in_page [OF va48 x less.prems(3)]
            have "unat x div 4096 = q \<longleftrightarrow> unat va \<le> unat x \<and> unat x < unat va + 4096"
              using same_page_low [OF va48 x] same q by auto
            then show ?thesis using p [OF x] sp(4) [of x] same lt4 al(4) by (auto simp: not_le)
          qed
          moreover have "grows r s s'" using grows_trans [OF grows_trans [OF al(1) sp(2)] g(1)] .
          moreover have "same_config s s'"
            using same_config_trans [OF same_config_trans [OF cfg1 cfg2] g(2)] .
          ultimately show ?thesis by blast
        qed
        ultimately show ?thesis by (simp add: q)
      qed
    qed
  qed
qed

section \<open>The kernel's mapping\<close>

lemma vm_inv_config [simp]:
  "vm_inv (s\<lparr>kernel_pml4 := k\<rparr>) r = vm_inv s r" "vm_inv (s\<lparr>cr3 := k\<rparr>) r = vm_inv s r"
  "vm_inv (s\<lparr>con := d\<rparr>) r = vm_inv s r"
  by (simp_all add: vm_inv_def pmm_inv_def pmm_avail_def free_pages_def page_addr_def pool_ok_def
      spare_def spare_pool_def)

lemma pmm_avail_config [simp]:
  "pmm_avail (s\<lparr>kernel_pml4 := k\<rparr>) = pmm_avail s" "pmm_avail (s\<lparr>cr3 := k\<rparr>) = pmm_avail s"
  "pmm_avail (s\<lparr>con := d\<rparr>) = pmm_avail s"
  by (simp_all add: pmm_avail_def free_pages_def page_addr_def)

lemma vmm_init_log_eq: "\<exists>d. vmm_init_log s = s\<lparr>con := d\<rparr>"
  by (simp add: vmm_init_log_def kprintf_def) blast

lemma low_address_split:
  fixes x :: u64
  assumes "unat x < 2 ^ 52"
  shows "(x AND PTE_ADDR_MASK) OR (x AND 0xFFF) = x"
proof -
  have "unat (take_bit 52 x) = unat x" using assms by (simp only: unat_take_bit mod_less)
  then have y: "x AND mask 52 = x" by (simp add: word_unat_eq_iff take_bit_eq_mask)
  have "(x AND PTE_ADDR_MASK) OR (x AND 0xFFF) = x AND (PTE_ADDR_MASK OR 0xFFF)"
    by (simp only: bit.conj_disj_distrib)
  also have "\<dots> = x AND mask 52" by (simp add: mask_eq_exp_minus_1)
  finally show ?thesis using y by simp
qed

lemma page_AND_mask:
  fixes a :: u64
  assumes "4096 dvd unat a" "unat a < 2 ^ 52"
  shows "a AND PTE_ADDR_MASK = a"
proof -
  have "unat (a AND NOT (mask 12)) = unat a" using assms(1) by (simp add: unat_and_not_mask)
  then have l: "a AND NOT (mask 12) = a" by (simp add: word_unat_eq_iff)
  have "unat (take_bit 52 a) = unat a" using assms(2) by (simp only: unat_take_bit mod_less)
  then have y: "a AND mask 52 = a" by (simp add: word_unat_eq_iff take_bit_eq_mask)
  have m: "PTE_ADDR_MASK = mask 52 AND NOT (mask 12)" by (simp add: mask_eq_exp_minus_1)
  show ?thesis unfolding m using l y by (metis and.assoc)
qed

lemma leaf_RW: "PTE_PHYS (leaf_entry x 3) = x AND PTE_ADDR_MASK"
  by (rule leaf_entry_phys) simp

lemma vmm_init_spec:
  assumes inv: "vm_inv s (cr3 s)" and top: "unat (pmm_base s) + unat (pmm_total_pages s) * 4096 \<le> 2 ^ 48"
  shows "\<exists>res. vmm_init s = Some res \<and> (\<forall>s'. res = Inr s' \<longrightarrow>
    kernel_pml4 s' = cr3 s \<and> cr3 s' = cr3 s \<and> vm_inv s' (cr3 s) \<and>
    (\<exists>f. inj_on f {1024..<2048} \<and> f ` {1024..<2048} \<subseteq> pmm_avail s - pmm_avail s' \<and>
      (\<forall>x. unat x < 2 ^ 48 \<longrightarrow> vmm_resolve (cr3 s) x s' =
        (if 0x400000 \<le> unat x \<and> unat x < 0x800000 then f (unat x div 4096) OR (x AND 0xFFF)
         else if unat (pmm_base s) \<le> unat x \<and> unat x < unat (pmm_base s) + unat (pmm_total_pages s) * 4096
           then x
         else vmm_resolve (cr3 s) x s))))"
proof -
  let ?r = "cr3 s"
  obtain d where d: "vmm_init_log (s\<lparr>kernel_pml4 := ?r\<rparr>) = s\<lparr>kernel_pml4 := ?r\<rparr>\<lparr>con := d\<rparr>"
    using vmm_init_log_eq by blast
  define s1 where "s1 = s\<lparr>kernel_pml4 := ?r\<rparr>\<lparr>con := d\<rparr>"
  define stop where "stop = pmm_base s + pmm_total_pages s * PAGE_SIZE"
  have s1: "vm_inv s1 ?r" "kernel_pml4 s1 = ?r" "mem s1 = mem s" "cr3 s1 = ?r" "pmm_avail s1 = pmm_avail s"
    using inv by (simp_all add: s1_def)
  have mul: "unat (pmm_total_pages s * PAGE_SIZE) = unat (pmm_total_pages s) * 4096"
    using top by (subst unat_mult_u64) simp_all
  then have ustop: "unat stop = unat (pmm_base s) + unat (pmm_total_pages s) * 4096"
    using top unfolding stop_def by (subst unat_add_u64) simp_all
  have albase: "4096 dvd unat (pmm_base s)" using inv by (simp add: vm_inv_def pmm_inv_def)
  then have alstop: "4096 dvd unat stop" by (simp add: ustop)
  have "unat stop \<le> 2 ^ 48" using top ustop by simp
  from identity_loop_spec [OF s1(1,2) albase alstop this] obtain res1 where
    l1: "identity_loop (pmm_base s) stop s1 = Some res1" and
    r1: "\<And>s'. res1 = Inr s' \<Longrightarrow> grows ?r s1 s' \<and> same_config s1 s' \<and>
      (\<forall>x. unat x < 2 ^ 48 \<longrightarrow> pte (mem s') ?r x =
         (if unat (pmm_base s) \<le> unat x \<and> unat x < unat stop then leaf_entry x RW else pte (mem s1) ?r x))"
    by blast
  have init: "vmm_init s = (case res1 of Inl e \<Rightarrow> Some (Inl e) | Inr s2 \<Rightarrow>
      (case heap_map_loop KHEAP_START s2 of None \<Rightarrow> None | Some (Inl e) \<Rightarrow> Some (Inl e)
       | Some (Inr s3) \<Rightarrow> Some (Inr (s3\<lparr>cr3 := kernel_pml4 s3\<rparr>))))"
    using l1 d by (simp add: vmm_init_def s1_def stop_def Let_def)
  show ?thesis
  proof (cases res1)
    case (Inl e)
    then show ?thesis by (simp add: init)
  next
    case (Inr s2)
    note i = r1 [OF Inr]
    have inv2: "vm_inv s2 ?r" and k2: "kernel_pml4 s2 = ?r"
      using i s1 by (auto simp: same_config_def grows_def)
    from heap_map_loop_spec [OF inv2 k2, of KHEAP_START] obtain res2 where
      l2: "heap_map_loop KHEAP_START s2 = Some res2" and
      r2: "\<And>s'. res2 = Inr s' \<Longrightarrow> grows ?r s2 s' \<and> same_config s2 s' \<and>
        (\<exists>f. inj_on f {1024..<2048} \<and> f ` {1024..<2048} \<subseteq> pmm_avail s2 - pmm_avail s' \<and>
        (\<forall>x. unat x < 2 ^ 48 \<longrightarrow> pte (mem s') ?r x =
          (if 0x400000 \<le> unat x \<and> unat x < 0x800000 then leaf_entry (f (unat x div 4096)) RW
           else pte (mem s2) ?r x)))"
      by auto
    show ?thesis
    proof (cases res2)
      case (Inl e)
      with l2 Inr show ?thesis by (simp add: init)
    next
      case (Inr s3)
      from r2 [OF Inr] obtain f where g: "grows ?r s2 s3" "same_config s2 s3" "inj_on f {1024..<2048}"
        "f ` {1024..<2048} \<subseteq> pmm_avail s2 - pmm_avail s3"
        and p: "\<And>x. unat x < 2 ^ 48 \<Longrightarrow> pte (mem s3) ?r x =
          (if 0x400000 \<le> unat x \<and> unat x < 0x800000 then leaf_entry (f (unat x div 4096)) RW
           else pte (mem s2) ?r x)" by blast
      define s' where "s' = s3\<lparr>cr3 := kernel_pml4 s3\<rparr>"
      have res: "vmm_init s = Some (Inr s')"
        using l2 Inr \<open>res1 = Inr s2\<close> by (simp add: init s'_def)
      have k3: "kernel_pml4 s3 = ?r" using g(2) k2 by (simp add: same_config_def)
      have inv3: "vm_inv s' ?r" using g(1) by (simp add: grows_def s'_def)
      have avail: "pmm_avail s2 \<subseteq> pmm_avail s"
        using grows_avail [of ?r s1 s2] i s1 by simp
      have fav: "f ` {1024..<2048} \<subseteq> pmm_avail s - pmm_avail s'"
        using g(4) avail by (auto simp: s'_def)
      have page: "f q AND PTE_ADDR_MASK = f q" if "q \<in> {1024..<2048}" for q
      proof -
        have "f q \<in> spare s" using fav that unfolding spare_def by blast
        then show ?thesis
          using inv spare_page [of s "f q"] page_AND_mask [of "f q"] by (simp add: vm_inv_def)
      qed
      have "vmm_resolve ?r x s' =
        (if 0x400000 \<le> unat x \<and> unat x < 0x800000 then f (unat x div 4096) OR (x AND 0xFFF)
         else if unat (pmm_base s) \<le> unat x \<and> unat x < unat (pmm_base s) + unat (pmm_total_pages s) * 4096
           then x
         else vmm_resolve ?r x s)" if x: "unat x < 2 ^ 48" for x
      proof (cases "0x400000 \<le> unat x \<and> unat x < 0x800000")
        case True
        then have "unat x div 4096 \<in> {1024..<2048}" by auto
        then show ?thesis
          using True p [OF x] page by (simp add: vmm_resolve_eq s'_def leaf_entry_present leaf_RW)
      next
        case False
        then have "pte (mem s') ?r x = (if unat (pmm_base s) \<le> unat x \<and> unat x < unat stop
            then leaf_entry x RW else pte (mem s) ?r x)"
          using p [OF x] i x s1(3) by (auto simp: s'_def)
        then show ?thesis
          unfolding if_not_P [OF False]
          using low_address_split [of x] x
          by (simp add: vmm_resolve_eq leaf_entry_present leaf_RW ustop)
      qed
      with res k3 inv3 fav g(3) show ?thesis by (auto simp: s'_def)
    qed
  qed
qed

end
