(* ===== verification/Proc.thy ===== *)
theory Proc
  imports Arch Address_Space
begin

text \<open>
  Processes and the round-robin scheduler, \<^verbatim>\<open>kernel/proc/proc.c\<close>, with \<^verbatim>\<open>switch_context\<close> of
  \<^verbatim>\<open>kernel/arch/x86_64/context.asm\<close> and \<^verbatim>\<open>memset\<close> of \<^verbatim>\<open>kernel/lib/mem.c\<close>.  A pointer into
  \<^verbatim>\<open>proc_table\<close> is an index, a pointer into the message pool likewise.  An operation's result is
  the state in which control leaves it: at the return, or at the jump of \<^verbatim>\<open>switch_context\<close> to
  another process's stack.
\<close>

section \<open>State\<close>

datatype proc_state =
  PROC_UNUSED | PROC_READY | PROC_RUNNING | PROC_SLEEPING | PROC_WAITING | PROC_ZOMBIE

record cpu_context =
  r15 :: u64
  r14 :: u64
  r13 :: u64
  r12 :: u64
  rbx :: u64
  rbp :: u64
  rip :: u64
  rsp :: u64

record fd_entry =
  fd_open :: bool
  fd_offset :: u32
  fd_file :: u64

type_synonym pid_t = "32 word"

record process =
  pid :: pid_t
  ppid :: pid_t
  state :: proc_state
  exit_code :: u32
  user_mode :: bool
  pml4 :: u64
  p_context :: cpu_context
  kernel_rsp :: u64
  sleep_ticks :: u64
  wait_pid :: pid_t
  msg_queue :: "nat option"
  msg_tail :: "nat option"
  msg_count :: u32
  fds :: "fd_entry list"
  kstack :: u64
  brk :: u64
  tf :: u64
  pname :: "u8 list"
  p_cr3 :: u64
  is_user :: bool
  started :: bool
  user_rip :: u64
  user_rsp :: u64
  user_sp :: u64

text \<open>
  \<open>cpu\<close> holds the registers \<^verbatim>\<open>switch_context\<close> saves and restores; \<open>proc_entrypoint\<close> and
  \<open>proc_entry_user\<close> are the addresses of the assembly entry points.
\<close>

record sched_state = arch_state +
  proc_table :: "process list"
  current_proc :: "nat option"
  next_pid :: pid_t
  ticks :: u64
  cpu :: cpu_context
  proc_entrypoint :: u64
  proc_entry_user :: u64

abbreviation PROC_MAX :: nat where "PROC_MAX \<equiv> 64"
abbreviation MAX_FDS :: nat where "MAX_FDS \<equiv> 16"
abbreviation KSTACK_SIZE :: u64 where "KSTACK_SIZE \<equiv> 16384"
abbreviation PIT_HZ :: u64 where "PIT_HZ \<equiv> 100"
abbreviation KERNEL_BASE :: u64 where "KERNEL_BASE \<equiv> 0xFFFFFFFF80000000"

definition proc_at :: "nat \<Rightarrow> 'a sched_state_scheme \<Rightarrow> process" where
  "proc_at i s = proc_table s ! i"

definition set_proc :: "nat \<Rightarrow> (process \<Rightarrow> process) \<Rightarrow> 'a sched_state_scheme \<Rightarrow> 'a sched_state_scheme" where
  "set_proc i f s = s\<lparr>proc_table := (proc_table s)[i := f (proc_table s ! i)]\<rparr>"

section \<open>Allocation\<close>

text \<open>\<^verbatim>\<open>memset\<close> and \<^verbatim>\<open>memcpy\<close> on memory, and \<^verbatim>\<open>memset(&proc_table[i], 0, sizeof(process_t))\<close>.\<close>

definition memset_mem :: "u64 \<Rightarrow> u8 \<Rightarrow> nat \<Rightarrow> memory \<Rightarrow> memory" where
  "memset_mem p c n m = for_upto n (\<lambda>i m. m(p + of_nat i := c)) m"

definition memcpy_mem :: "u64 \<Rightarrow> u64 \<Rightarrow> nat \<Rightarrow> memory \<Rightarrow> memory" where
  "memcpy_mem dest src n m = for_upto n (\<lambda>i m. m(dest + of_nat i := m (src + of_nat i))) m"

definition zero_context :: cpu_context where
  "zero_context = \<lparr>r15 = 0, r14 = 0, r13 = 0, r12 = 0, rbx = 0, rbp = 0, rip = 0, rsp = 0\<rparr>"

definition zero_process :: process where
  "zero_process = \<lparr>pid = 0, ppid = 0, state = PROC_UNUSED, exit_code = 0, user_mode = False,
     pml4 = 0, p_context = zero_context, kernel_rsp = 0, sleep_ticks = 0, wait_pid = 0,
     msg_queue = None, msg_tail = None, msg_count = 0,
     fds = replicate MAX_FDS \<lparr>fd_open = False, fd_offset = 0, fd_file = 0\<rparr>,
     kstack = 0, brk = 0, tf = 0, pname = replicate 16 0, p_cr3 = 0, is_user = False,
     started = False, user_rip = 0, user_rsp = 0, user_sp = 0\<rparr>"

definition alloc_proc :: "'a sched_state_scheme \<Rightarrow> nat option" where
  "alloc_proc s = find (\<lambda>i. state (proc_at i s) = PROC_UNUSED) [0..<PROC_MAX]"

definition alloc_proc_slot :: "'a sched_state_scheme \<Rightarrow> nat option \<times> 'a sched_state_scheme" where
  "alloc_proc_slot s =
     (case find (\<lambda>i. state (proc_at i s) = PROC_UNUSED) [0..<PROC_MAX] of
        None \<Rightarrow> (None, s)
      | Some i \<Rightarrow> (Some i, set_proc i (\<lambda>_. zero_process\<lparr>state := PROC_READY\<rparr>) s))"

definition alloc_pid :: "'a sched_state_scheme \<Rightarrow> pid_t \<times> 'a sched_state_scheme" where
  "alloc_pid s = (next_pid s, s\<lparr>next_pid := next_pid s + 1\<rparr>)"

definition alloc_kernel_stack_for_proc ::
  "'a sched_state_scheme \<Rightarrow> (u64 \<times> 'a sched_state_scheme) result" where
  "alloc_kernel_stack_for_proc s =
     (case pmm_alloc_page s of (stack, s1) \<Rightarrow>
        if stack = 0 then Inl (Panic ''no memory for kernel stack'')
        else Inr (stack + 0x1000, s1))"

definition proc_init :: "'a sched_state_scheme \<Rightarrow> 'a sched_state_scheme" where
  "proc_init s =
     kprintf ''[PROC] initialized (max %d)
'' [Num (of_nat PROC_MAX)]
       (for_upto PROC_MAX (\<lambda>i. set_proc i (\<lambda>p. p\<lparr>state := PROC_UNUSED, pid := 0\<rparr>)) s)"

section \<open>Creation\<close>

text \<open>\<open>nm\<close> is the C string: its bytes before the NUL.\<close>

definition copy_name :: "u8 list \<Rightarrow> u8 list \<Rightarrow> u8 list" where
  "copy_name nm old =
     (let k = min 15 (length nm) in take k nm @ [0] @ drop (Suc k) old)"

definition init_process ::
  "u64 \<Rightarrow> u64 \<Rightarrow> u64 \<Rightarrow> pid_t \<Rightarrow> pid_t \<Rightarrow> u8 list \<Rightarrow> process \<Rightarrow> process" where
  "init_process entry start kstack_top pd ppd nm p =
     p\<lparr>p_context := (p_context p)\<lparr>r15 := 0, r14 := 0, r13 := 0, r12 := entry, rbx := 0, rbp := 0,
         rip := start, rsp := kstack_top\<rparr>,
       kernel_rsp := kstack_top, pid := pd, ppid := ppd, state := PROC_READY, exit_code := 0,
       sleep_ticks := 0, msg_queue := None, msg_tail := None, msg_count := 0,
       pname := copy_name nm (pname p)\<rparr>"

definition cur_pid :: "'a sched_state_scheme \<Rightarrow> pid_t" where
  "cur_pid s = (case current_proc s of None \<Rightarrow> 0 | Some c \<Rightarrow> pid (proc_at c s))"

definition proc_create ::
  "u8 list \<Rightarrow> u64 \<Rightarrow> 'a sched_state_scheme \<Rightarrow> (nat option \<times> 'a sched_state_scheme) option" where
  "proc_create nm entry s =
     (case alloc_proc s of
        None \<Rightarrow> Some (None, kprintf ''[PROC] table full!
'' [] s)
      | Some i \<Rightarrow>
          (case kmalloc KSTACK_SIZE s of
             None \<Rightarrow> None
           | Some (stack, s1) \<Rightarrow>
               if stack = 0 then Some (None, kprintf ''[PROC] no memory for stack
'' [] s1)
               else
                 let kstack_top = stack + KSTACK_SIZE;
                     s2 = s1\<lparr>mem := store64 (mem s1) (kstack_top - 8) entry\<rparr>;
                     pd = next_pid s2;
                     s3 = s2\<lparr>next_pid := next_pid s2 + 1\<rparr>;
                     s4 = set_proc i (init_process entry (proc_entrypoint s) kstack_top pd (cur_pid s3) nm) s3
                 in Some (Some i, kprintf ''[PROC] created '%s' pid=%d
'' [Str (Some (take (min 15 (length nm)) nm)), Num (scast pd)] s4)))"

text \<open>
  The process's page directory is written through the address \<^verbatim>\<open>pa + KERNEL_BASE\<close>.  Every other
  access of the kernel goes through an identity-mapped address; this one is looked up in the
  active page table, and a missing entry is a page fault, which the kernel's handler answers
  with \<^verbatim>\<open>panic("unhandled exception")\<close>.  \<open>elf\<close> is the pointer the function is given; its one field is
  the entry address.
\<close>

definition kernel_addr :: "u64 \<Rightarrow> 'a vmm_state_scheme \<Rightarrow> u64 result" where
  "kernel_addr va s =
     (let e = pte (mem s) (cr3 s) va in
      if present e then Inr (PTE_PHYS e OR (va AND 0xFFF)) else Inl (Panic ''unhandled exception''))"

definition proc_create_elf ::
  "u64 \<Rightarrow> 'a sched_state_scheme \<Rightarrow> (nat option \<times> 'a sched_state_scheme) result" where
  "proc_create_elf elf s =
     (case alloc_proc_slot s of
        (None, s1) \<Rightarrow> Inr (None, s1)
      | (Some i, s1) \<Rightarrow>
          let (pd, s2) = alloc_pid s1;
              s3 = set_proc i (\<lambda>p. p\<lparr>pid := pd, state := PROC_READY, is_user := True, started := False\<rparr>) s2;
              (new_pml4_pa, s4) = pmm_alloc_page s3
          in if new_pml4_pa = 0 then Inl (Panic ''no memory for process PML4'')
          else
            try_then (kernel_addr (new_pml4_pa + KERNEL_BASE) s4) (\<lambda>v.
              let s5 = s4\<lparr>mem := memcpy_mem v (kernel_pml4 s4) 4096 (memset_mem v 0 4096 (mem s4))\<rparr>;
                  s6 = set_proc i (\<lambda>p. p\<lparr>p_cr3 := new_pml4_pa, pml4 := new_pml4_pa + KERNEL_BASE\<rparr>) s5;
                  user_stack_top = 0x00007fffffffe000;
                  (pa, s7) = pmm_alloc_page s6
              in try_then (vmm_map v (user_stack_top - 0x1000) pa 0x7 s7) (\<lambda>(_, s8).
                let entry = load64 (mem s8) elf;
                    s9 = set_proc i (\<lambda>p. p\<lparr>user_rip := entry, user_rsp := user_stack_top\<rparr>) s8;
                    s10 = kprintf ''user_rsp = %p
'' [Num user_stack_top] (kprintf ''user_rip = %p
'' [Num entry] (kprintf ''elf_entry = %p
'' [Num entry] s9))
                in try_then (alloc_kernel_stack_for_proc s10) (\<lambda>(stk, s11).
                  Inr (Some i, set_proc i (\<lambda>p. p\<lparr>kernel_rsp := stk,
                    p_context := (p_context p)\<lparr>rsp := stk, rip := proc_entry_user s11\<rparr>\<rparr>) s11)))))"

definition proc_find :: "pid_t \<Rightarrow> 'a sched_state_scheme \<Rightarrow> nat option" where
  "proc_find p s =
     find (\<lambda>i. state (proc_at i s) \<noteq> PROC_UNUSED \<and> pid (proc_at i s) = p) [0..<PROC_MAX]"

section \<open>Scheduling\<close>

text \<open>
  \<open>switch_context i j\<close>: save the registers in process \<open>i\<close>'s context, with the return address on
  top of its stack, load those of process \<open>j\<close>, and return on \<open>j\<close>'s stack.  The store of the return
  address may hit a block header of the heap: a new process's stack pointer is the end of its stack.
\<close>

definition switch_context :: "nat \<Rightarrow> nat \<Rightarrow> 'a sched_state_scheme \<Rightarrow> 'a sched_state_scheme" where
  "switch_context i j s =
     (let c = cpu s;
          s1 = set_proc i (\<lambda>p. p\<lparr>p_context := c\<lparr>rip := load64 (mem s) (rsp c)\<rparr>\<rparr>) s;
          n = p_context (proc_at j s1)
      in s1\<lparr>mem := store64 (mem s1) (rsp n) (rip n), blocks := store_over_header (rsp n) (rip n) (blocks s1),
           cpu := n\<lparr>rsp := rsp n + 8\<rparr>\<rparr>)"

definition next_ready :: "nat \<Rightarrow> 'a sched_state_scheme \<Rightarrow> nat option" where
  "next_ready start s =
     map_option (\<lambda>n. (start + n) mod PROC_MAX)
       (find (\<lambda>n. state (proc_at ((start + n) mod PROC_MAX) s) = PROC_READY) [1..<Suc PROC_MAX])"

definition schedule :: "'a sched_state_scheme \<Rightarrow> 'a sched_state_scheme" where
  "schedule s =
     (case current_proc s of
        None \<Rightarrow> s
      | Some old \<Rightarrow>
          let s1 = (if state (proc_at old s) = PROC_RUNNING
                    then set_proc old (\<lambda>p. p\<lparr>state := PROC_READY\<rparr>) s else s)
          in (case next_ready old s1 of
                Some i \<Rightarrow>
                  let s2 = set_proc i (\<lambda>p. p\<lparr>state := PROC_RUNNING\<rparr>) (s1\<lparr>current_proc := Some i\<rparr>);
                      s3 = gdt_set_tss_rsp0 (kernel_rsp (proc_at i s2)) s2;
                      s4 = (if is_user (proc_at i s3) \<and> \<not> started (proc_at i s3)
                            then set_proc i (\<lambda>p. p\<lparr>started := True\<rparr>) s3 else s3)
                  in switch_context old i s4
              | None \<Rightarrow>
                  if state (proc_at old s1) = PROC_READY
                  then set_proc old (\<lambda>p. p\<lparr>state := PROC_RUNNING\<rparr>) s1 else s1))"

definition proc_exit :: "u32 \<Rightarrow> 'a sched_state_scheme \<Rightarrow> 'a sched_state_scheme" where
  "proc_exit code s =
     (case current_proc s of
        None \<Rightarrow> s
      | Some c \<Rightarrow>
          let s1 = set_proc c (\<lambda>p. p\<lparr>state := PROC_ZOMBIE, exit_code := code\<rparr>) s
          in schedule (kprintf ''[PROC] pid=%d exited code=%d
'' [Num (scast (pid (proc_at c s1))), Num (scast code)] s1))"

definition proc_yield :: "'a sched_state_scheme \<Rightarrow> 'a sched_state_scheme" where
  "proc_yield s = schedule s"

definition sleep_time :: "u64 \<Rightarrow> u64" where
  "sleep_time ms = (let t = (ms * PIT_HZ) div 1000 in if t = 0 then 1 else t)"

definition proc_sleep :: "u64 \<Rightarrow> 'a sched_state_scheme \<Rightarrow> 'a sched_state_scheme" where
  "proc_sleep ms s =
     (case current_proc s of
        None \<Rightarrow> s
      | Some c \<Rightarrow>
          schedule (set_proc c (\<lambda>p. p\<lparr>sleep_ticks := sleep_time ms, state := PROC_SLEEPING\<rparr>) s))"

definition wakeup :: "process \<Rightarrow> process" where
  "wakeup p = (if state p = PROC_SLEEPING then p\<lparr>state := PROC_READY\<rparr> else p)"

definition proc_wakeup :: "nat option \<Rightarrow> 'a sched_state_scheme \<Rightarrow> 'a sched_state_scheme" where
  "proc_wakeup q s = (case q of None \<Rightarrow> s | Some i \<Rightarrow> set_proc i wakeup s)"

definition tick_process :: "process \<Rightarrow> process" where
  "tick_process p =
     (if state p = PROC_SLEEPING then
        let p1 = (if sleep_ticks p > 0 then p\<lparr>sleep_ticks := sleep_ticks p - 1\<rparr> else p)
        in if sleep_ticks p1 = 0 then p1\<lparr>state := PROC_READY\<rparr> else p1
      else p)"

definition sched_tick :: "'a sched_state_scheme \<Rightarrow> 'a sched_state_scheme" where
  "sched_tick s =
     (let s1 = for_upto PROC_MAX (\<lambda>i. set_proc i tick_process) s
      in if current_proc s1 \<noteq> None \<and> ticks s1 mod 10 = 0 then schedule s1 else s1)"

section \<open>Entering a process\<close>

text \<open>
  What the entry stub \<^verbatim>\<open>proc_entry_user\<close> and \<^verbatim>\<open>enter_user_mode\<close> of \<^verbatim>\<open>main.c\<close> build on the stack for
  \<^verbatim>\<open>iretq\<close>.  The stub reads the words at offsets \<^verbatim>\<open>0x1c8\<close>, \<^verbatim>\<open>0x1d8\<close> and \<^verbatim>\<open>0x1b8\<close> of the process:
  \<open>user_rip\<close>, \<open>user_sp\<close> and \<open>p_cr3\<close>.
\<close>

record iret_frame =
  if_rip :: u64
  if_cs :: u64
  if_rflags :: u64
  if_rsp :: u64
  if_ss :: u64

definition enter_user_mode :: "u64 \<Rightarrow> u64 \<Rightarrow> u64 \<Rightarrow> iret_frame" where
  "enter_user_mode rip' rsp' cr3' =
     \<lparr>if_rip = rip', if_cs = 0x1B, if_rflags = 0x202, if_rsp = rsp', if_ss = 0x23\<rparr>"

definition proc_entry_user_frame :: "process \<Rightarrow> iret_frame" where
  "proc_entry_user_frame p = enter_user_mode (user_rip p) (user_sp p) (p_cr3 p)"

definition user_trampoline :: "'a sched_state_scheme \<Rightarrow> iret_frame option" where
  "user_trampoline s =
     (case current_proc s of None \<Rightarrow> None
      | Some c \<Rightarrow> let p = proc_at c s in Some (enter_user_mode (user_rip p) (user_sp p) (p_cr3 p)))"

end
