(* ===== verification/Sched.thy ===== *)
theory Sched
  imports Proc
begin

text \<open>
  What the scheduler of \<^verbatim>\<open>kernel/proc/proc.c\<close> does: which process it picks, what it changes, the
  invariant of the process table, round-robin order, wake-up times and the context switch.
\<close>

section \<open>Access to the table\<close>

lemma proc_at_set_proc:
  "proc_at j (set_proc i f s) =
    (if j = i \<and> i < length (proc_table s) then f (proc_at i s) else proc_at j s)"
  by (auto simp: proc_at_def set_proc_def nth_list_update list_update_beyond)

lemma set_proc_frame [simp]:
  "length (proc_table (set_proc i f s)) = length (proc_table s)"
  "current_proc (set_proc i f s) = current_proc s" "next_pid (set_proc i f s) = next_pid s"
  "ticks (set_proc i f s) = ticks s" "cpu (set_proc i f s) = cpu s" "mem (set_proc i f s) = mem s"
  "tss (set_proc i f s) = tss s" "iflag (set_proc i f s) = iflag s" "con (set_proc i f s) = con s"
  "arch_state.truncate (set_proc i f s) = arch_state.truncate s"
  "proc_entrypoint (set_proc i f s) = proc_entrypoint s" "proc_entry_user (set_proc i f s) = proc_entry_user s"
  "sched_state.more (set_proc i f s) = sched_state.more s"
  by (simp_all add: set_proc_def arch_state.defs)

lemma proc_at_update [simp]:
  "proc_at j (s\<lparr>current_proc := c\<rparr>) = proc_at j s" "proc_at j (s\<lparr>mem := m\<rparr>) = proc_at j s"
  "proc_at j (s\<lparr>cpu := r\<rparr>) = proc_at j s" "proc_at j (s\<lparr>ticks := t\<rparr>) = proc_at j s"
  "proc_at j (s\<lparr>next_pid := n\<rparr>) = proc_at j s" "proc_at j (s\<lparr>blocks := h\<rparr>) = proc_at j s"
  by (simp_all add: proc_at_def)

lemma gdt_set_tss_rsp0_frame [simp]:
  "proc_table (gdt_set_tss_rsp0 v s) = proc_table s" "current_proc (gdt_set_tss_rsp0 v s) = current_proc s"
  "next_pid (gdt_set_tss_rsp0 v s) = next_pid s" "ticks (gdt_set_tss_rsp0 v s) = ticks s"
  "cpu (gdt_set_tss_rsp0 v s) = cpu s" "mem (gdt_set_tss_rsp0 v s) = mem s"
  "iflag (gdt_set_tss_rsp0 v s) = iflag s" "con (gdt_set_tss_rsp0 v s) = con s"
  "proc_at j (gdt_set_tss_rsp0 v s) = proc_at j s" "sched_state.more (gdt_set_tss_rsp0 v s) = sched_state.more s"
  by (simp_all add: gdt_set_tss_rsp0_def proc_at_def)

lemma kprintf_sched_frame [simp]:
  "proc_table (kprintf f xs s) = proc_table s" "current_proc (kprintf f xs s) = current_proc s"
  "next_pid (kprintf f xs s) = next_pid s" "ticks (kprintf f xs s) = ticks s"
  "cpu (kprintf f xs s) = cpu s" "tss (kprintf f xs s) = tss s" "iflag (kprintf f xs s) = iflag s"
  "mem (kprintf f xs s) = mem s" "kernel_pml4 (kprintf f xs s) = kernel_pml4 s" "cr3 (kprintf f xs s) = cr3 s"
  "proc_at j (kprintf f xs s) = proc_at j s" "sched_state.more (kprintf f xs s) = sched_state.more s"
  by (simp_all add: kprintf_def proc_at_def)

section \<open>Which process is next\<close>

definition dist :: "nat \<Rightarrow> nat \<Rightarrow> nat" where
  "dist c i = (if c < i then i - c else i + PROC_MAX - c)"

lemma dist_bounds: "c < 64 \<Longrightarrow> i < 64 \<Longrightarrow> 1 \<le> dist c i \<and> dist c i \<le> 64"
  by (auto simp: dist_def)

lemma dist_step:
  assumes "c < 64" "1 \<le> n" "n \<le> 64"
  shows "dist c ((c + n) mod 64) = n" "(c + n) mod 64 < 64"
  using assms by (auto simp: dist_def mod_if)

lemma dist_reach: "c < 64 \<Longrightarrow> i < 64 \<Longrightarrow> (c + dist c i) mod 64 = i"
  by (auto simp: dist_def mod_if)

lemma next_ready_Some:
  assumes "next_ready c s = Some i" "c < 64"
  shows "i < 64" "state (proc_at i s) = PROC_READY"
    "j < 64 \<Longrightarrow> state (proc_at j s) = PROC_READY \<Longrightarrow> dist c i \<le> dist c j"
proof -
  from assms(1) obtain n where
    f: "find (\<lambda>n. state (proc_at ((c + n) mod PROC_MAX) s) = PROC_READY) [1..<Suc PROC_MAX] = Some n"
    and i: "i = (c + n) mod PROC_MAX" by (auto simp: next_ready_def)
  then obtain k where k: "k < 64" "n = Suc k" "state (proc_at i s) = PROC_READY"
    "\<And>m. m < k \<Longrightarrow> state (proc_at ((c + Suc m) mod 64) s) \<noteq> PROC_READY"
    unfolding find_Some_iff by (auto simp del: upt_Suc)
  show "i < 64" using i by simp
  show "state (proc_at i s) = PROC_READY" by (rule k(3))
  show "dist c i \<le> dist c j" if "j < 64" "state (proc_at j s) = PROC_READY"
  proof (rule ccontr)
    assume "\<not> dist c i \<le> dist c j"
    moreover have "dist c i = n" using dist_step(1) [OF assms(2), of n] k i by simp
    ultimately have "dist c j < Suc k" using k(2) by simp
    then have "dist c j - 1 < k" "Suc (dist c j - 1) = dist c j"
      using dist_bounds [OF assms(2) that(1)] by auto
    with k(4) [of "dist c j - 1"] dist_reach [OF assms(2) that(1)] that(2) show False by simp
  qed
qed

lemma next_ready_None:
  assumes "c < 64"
  shows "next_ready c s = None \<longleftrightarrow> (\<forall>i<64. state (proc_at i s) \<noteq> PROC_READY)"
proof
  assume n: "next_ready c s = None"
  show "\<forall>i<64. state (proc_at i s) \<noteq> PROC_READY"
  proof (intro allI impI)
    fix i :: nat
    assume i: "i < 64"
    have "dist c i \<in> set [1..<Suc PROC_MAX]" using dist_bounds [OF assms i] by simp
    with n show "state (proc_at i s) \<noteq> PROC_READY"
      using dist_reach [OF assms i] unfolding next_ready_def by (simp only: option.map_disc_iff find_None_iff) metis
  qed
next
  assume r: "\<forall>i<64. state (proc_at i s) \<noteq> PROC_READY"
  then have "state (proc_at ((c + n) mod 64) s) \<noteq> PROC_READY" for n by simp
  then show "next_ready c s = None" unfolding next_ready_def by (simp only: option.map_disc_iff find_None_iff) blast
qed

section \<open>The effect of \<open>schedule\<close>\<close>

definition preempt :: "nat \<Rightarrow> 'a sched_state_scheme \<Rightarrow> 'a sched_state_scheme" where
  "preempt c s = (if state (proc_at c s) = PROC_RUNNING
     then set_proc c (\<lambda>p. p\<lparr>state := PROC_READY\<rparr>) s else s)"

definition dispatch :: "nat \<Rightarrow> nat \<Rightarrow> 'a sched_state_scheme \<Rightarrow> 'a sched_state_scheme" where
  "dispatch old i s =
     (let s2 = set_proc i (\<lambda>p. p\<lparr>state := PROC_RUNNING\<rparr>) (s\<lparr>current_proc := Some i\<rparr>);
          s3 = gdt_set_tss_rsp0 (kernel_rsp (proc_at i s2)) s2;
          s4 = (if is_user (proc_at i s3) \<and> \<not> started (proc_at i s3)
                then set_proc i (\<lambda>p. p\<lparr>started := True\<rparr>) s3 else s3)
      in switch_context old i s4)"

text \<open>The branch after the loop of \<^verbatim>\<open>schedule\<close> is never taken with a runnable caller.\<close>

lemma schedule_eq:
  assumes "current_proc s = Some c" "c < 64"
  shows "schedule s = (case next_ready c (preempt c s) of
      Some i \<Rightarrow> dispatch c i (preempt c s) | None \<Rightarrow> preempt c s)"
proof (cases "next_ready c (preempt c s)")
  case None
  then have "state (proc_at c (preempt c s)) \<noteq> PROC_READY"
    using next_ready_None [OF assms(2)] assms(2) by blast
  with None assms show ?thesis by (simp add: schedule_def preempt_def Let_def)
next
  case (Some i)
  with assms show ?thesis by (simp add: schedule_def preempt_def dispatch_def Let_def)
qed

definition resumed :: "process \<Rightarrow> process" where
  "resumed p = p\<lparr>state := PROC_RUNNING, started := started p \<or> is_user p\<rparr>"

lemma resumed_eq:
  "resumed p = (if is_user p \<and> \<not> started p then p\<lparr>state := PROC_RUNNING, started := True\<rparr>
    else p\<lparr>state := PROC_RUNNING\<rparr>)"
  by (cases p) (auto simp: resumed_def)

lemma switch_context_frame [simp]:
  "length (proc_table (switch_context i j s)) = length (proc_table s)"
  "current_proc (switch_context i j s) = current_proc s" "next_pid (switch_context i j s) = next_pid s"
  "ticks (switch_context i j s) = ticks s" "tss (switch_context i j s) = tss s"
  "iflag (switch_context i j s) = iflag s" "con (switch_context i j s) = con s"
  "sched_state.more (switch_context i j s) = sched_state.more s"
  by (simp_all add: switch_context_def Let_def)

definition saved_context :: "'a sched_state_scheme \<Rightarrow> cpu_context" where
  "saved_context s = (cpu s)\<lparr>rip := load64 (mem s) (rsp (cpu s))\<rparr>"

lemma proc_at_switch_context:
  "proc_at k (switch_context i j s) =
    (if k = i \<and> i < length (proc_table s) then (proc_at i s)\<lparr>p_context := saved_context s\<rparr> else proc_at k s)"
proof -
  have "proc_at k (switch_context i j s)
      = proc_at k (set_proc i (\<lambda>p. p\<lparr>p_context := saved_context s\<rparr>) s)"
    by (simp only: switch_context_def Let_def saved_context_def proc_at_update)
  then show ?thesis by (simp add: proc_at_set_proc)
qed

lemma dispatch_frame [simp]:
  "length (proc_table (dispatch c i s)) = length (proc_table s)"
  "current_proc (dispatch c i s) = Some i" "next_pid (dispatch c i s) = next_pid s"
  "ticks (dispatch c i s) = ticks s" "iflag (dispatch c i s) = iflag s" "con (dispatch c i s) = con s"
  "sched_state.more (dispatch c i s) = sched_state.more s"
  by (simp_all add: dispatch_def Let_def)

lemma dispatch_proc:
  assumes "i < length (proc_table s)" "c < length (proc_table s)"
  shows "proc_at k (dispatch c i s) =
    (let p = (if k = i then resumed (proc_at i s) else proc_at k s)
     in if k = c then p\<lparr>p_context := saved_context s\<rparr> else p)"
proof -
  define s2 where "s2 = set_proc i (\<lambda>p. p\<lparr>state := PROC_RUNNING\<rparr>) (s\<lparr>current_proc := Some i\<rparr>)"
  define s3 where "s3 = gdt_set_tss_rsp0 (kernel_rsp (proc_at i s2)) s2"
  define s4 where "s4 = (if is_user (proc_at i s3) \<and> \<not> started (proc_at i s3)
                then set_proc i (\<lambda>p. p\<lparr>started := True\<rparr>) s3 else s3)"
  have len: "length (proc_table s4) = length (proc_table s)" by (simp add: s4_def s3_def s2_def)
  have p3: "proc_at k s3 = (if k = i then (proc_at i s)\<lparr>state := PROC_RUNNING\<rparr> else proc_at k s)" for k
    using assms(1) by (simp add: s3_def s2_def proc_at_set_proc)
  have len3: "length (proc_table s3) = length (proc_table s)" by (simp add: s3_def s2_def)
  have p4: "proc_at k s4 = (if k = i then resumed (proc_at i s) else proc_at k s)" for k
    using assms(1) len3 by (simp add: s4_def proc_at_set_proc p3 resumed_eq)
  have "saved_context s4 = saved_context s" by (simp add: saved_context_def s4_def s3_def s2_def)
  moreover have "dispatch c i s = switch_context c i s4"
    by (simp only: dispatch_def Let_def s2_def s3_def s4_def)
  ultimately show ?thesis using assms(2) by (simp add: proc_at_switch_context p4 len Let_def)
qed

lemma dispatch_rsp0:
  assumes "i < length (proc_table s)" "tss_rsp (tss s) \<noteq> []"
  shows "tss_rsp (tss (dispatch c i s)) ! 0 = kernel_rsp (proc_at i s)"
  using assms by (simp add: dispatch_def Let_def proc_at_set_proc gdt_set_tss_rsp0_def)

lemma preempt_frame [simp]:
  "length (proc_table (preempt c s)) = length (proc_table s)"
  "current_proc (preempt c s) = current_proc s" "next_pid (preempt c s) = next_pid s"
  "ticks (preempt c s) = ticks s" "cpu (preempt c s) = cpu s" "mem (preempt c s) = mem s"
  "tss (preempt c s) = tss s" "iflag (preempt c s) = iflag s" "con (preempt c s) = con s"
  "sched_state.more (preempt c s) = sched_state.more s"
  by (simp_all add: preempt_def)

lemma preempt_proc:
  "c < length (proc_table s) \<Longrightarrow> proc_at k (preempt c s) =
    (if k = c \<and> state (proc_at c s) = PROC_RUNNING then (proc_at c s)\<lparr>state := PROC_READY\<rparr> else proc_at k s)"
  by (simp add: preempt_def proc_at_set_proc)

section \<open>The invariant of the process table\<close>

definition used :: "nat \<Rightarrow> 'a sched_state_scheme \<Rightarrow> bool" where
  "used i s \<longleftrightarrow> state (proc_at i s) \<noteq> PROC_UNUSED"

text \<open>
  At most the current process is RUNNING, a sleeper has time left, and the processes that exist
  have different positive numbers below the counter, which counts them.
\<close>

definition run_inv :: "'a sched_state_scheme \<Rightarrow> bool" where
  "run_inv s \<longleftrightarrow> length (proc_table s) = PROC_MAX \<and>
     (\<forall>c. current_proc s = Some c \<longrightarrow> c < PROC_MAX \<and> used c s) \<and>
     (\<forall>i<PROC_MAX. state (proc_at i s) = PROC_RUNNING \<longrightarrow> current_proc s = Some i) \<and>
     (\<forall>i<PROC_MAX. state (proc_at i s) = PROC_SLEEPING \<longrightarrow> sleep_ticks (proc_at i s) \<noteq> 0)"

definition pid_inv :: "'a sched_state_scheme \<Rightarrow> bool" where
  "pid_inv s \<longleftrightarrow>
     (\<forall>i<PROC_MAX. used i s \<longrightarrow> 0 < unat (pid (proc_at i s)) \<and> unat (pid (proc_at i s)) < unat (next_pid s)) \<and>
     (\<forall>i<PROC_MAX. \<forall>j<PROC_MAX. used i s \<longrightarrow> used j s \<longrightarrow> pid (proc_at i s) = pid (proc_at j s) \<longrightarrow> i = j) \<and>
     unat (next_pid s) = Suc (card {i. i < PROC_MAX \<and> used i s})"

definition proc_inv :: "'a sched_state_scheme \<Rightarrow> bool" where
  "proc_inv s \<longleftrightarrow> run_inv s \<and> pid_inv s"

definition same_ids :: "'a sched_state_scheme \<Rightarrow> 'a sched_state_scheme \<Rightarrow> bool" where
  "same_ids s s' \<longleftrightarrow> next_pid s' = next_pid s \<and>
     (\<forall>i<PROC_MAX. pid (proc_at i s') = pid (proc_at i s) \<and> used i s' = used i s)"

lemma pid_inv_cong: "same_ids s s' \<Longrightarrow> pid_inv s' = pid_inv s"
  unfolding pid_inv_def same_ids_def by (simp cong: conj_cong)

lemma same_ids_trans: "same_ids s s' \<Longrightarrow> same_ids s' s'' \<Longrightarrow> same_ids s s''"
  by (simp add: same_ids_def)

lemma same_ids_set_proc:
  assumes "pid (f (proc_at i s)) = pid (proc_at i s)" "state (f (proc_at i s)) \<noteq> PROC_UNUSED \<longleftrightarrow> used i s"
  shows "same_ids s (set_proc i f s)"
  using assms by (simp add: same_ids_def used_def proc_at_set_proc)

lemma run_invI:
  assumes "length (proc_table s) = 64" "\<And>c. current_proc s = Some c \<Longrightarrow> c < 64 \<and> used c s"
    "\<And>i. i < 64 \<Longrightarrow> state (proc_at i s) = PROC_RUNNING \<Longrightarrow> current_proc s = Some i"
    "\<And>i. i < 64 \<Longrightarrow> state (proc_at i s) = PROC_SLEEPING \<Longrightarrow> sleep_ticks (proc_at i s) \<noteq> 0"
  shows "run_inv s"
  using assms unfolding run_inv_def by blast

lemma run_invD:
  assumes "run_inv s"
  shows "current_proc s = Some c \<Longrightarrow> c < 64 \<and> used c s"
    "i < 64 \<Longrightarrow> state (proc_at i s) = PROC_RUNNING \<Longrightarrow> current_proc s = Some i"
    "i < 64 \<Longrightarrow> state (proc_at i s) = PROC_SLEEPING \<Longrightarrow> sleep_ticks (proc_at i s) \<noteq> 0"
  using assms unfolding run_inv_def by blast+

lemma run_inv_length: "run_inv s \<Longrightarrow> length (proc_table s) = 64"
  by (simp add: run_inv_def)

lemma run_inv_current: "run_inv s \<Longrightarrow> current_proc s = Some c \<Longrightarrow> c < 64 \<and> c < length (proc_table s)"
  by (simp add: run_inv_def)

text \<open>Where \<^verbatim>\<open>schedule\<close> leads, and how it leaves each process.\<close>

lemma schedule_cases:
  assumes inv: "run_inv s" and c: "current_proc s = Some c"
  obtains (idle) "\<forall>i<64. state (proc_at i s) \<noteq> PROC_READY" "state (proc_at c s) \<noteq> PROC_RUNNING" "schedule s = s"
  | (switch) i where "i < 64" "next_ready c (preempt c s) = Some i"
      "i = c \<and> state (proc_at c s) = PROC_RUNNING \<or> state (proc_at i s) = PROC_READY"
      "\<forall>j<64. state (proc_at j s) = PROC_READY \<longrightarrow> dist c i \<le> dist c j"
      "schedule s = dispatch c i (preempt c s)"
proof -
  have c64: "c < 64" "c < length (proc_table s)" using run_inv_current [OF inv c] by auto
  note eq = schedule_eq [OF c c64(1)]
  show thesis
  proof (cases "next_ready c (preempt c s)")
    case None
    then have n: "\<forall>i<64. state (proc_at i (preempt c s)) \<noteq> PROC_READY"
      using next_ready_None [OF c64(1)] by blast
    then have "state (proc_at c s) \<noteq> PROC_RUNNING" using c64 by (auto simp: preempt_proc)
    moreover from this have "preempt c s = s" by (simp add: preempt_def)
    ultimately show thesis using idle n eq None by simp
  next
    case (Some i)
    note sp = next_ready_Some [OF Some c64(1)]
    have "i = c \<and> state (proc_at c s) = PROC_RUNNING \<or> state (proc_at i s) = PROC_READY"
      using sp(2) c64(2) by (auto simp: preempt_proc split: if_splits)
    moreover have "dist c i \<le> dist c j" if "j < 64" "state (proc_at j s) = PROC_READY" for j
      using sp(3) [OF that(1)] that(2) c64(2) by (auto simp: preempt_proc)
    ultimately show thesis using switch sp(1) eq Some by simp
  qed
qed

lemma schedule_state:
  assumes inv: "run_inv s" and c: "current_proc s = Some c" and i: "schedule s = dispatch c i (preempt c s)" "i < 64"
  shows "state (proc_at k (schedule s)) =
    (if k = i then PROC_RUNNING else if k = c \<and> state (proc_at c s) = PROC_RUNNING then PROC_READY
     else state (proc_at k s))"
proof -
  have c64: "c < length (proc_table s)" "i < length (proc_table s)"
    using run_inv_current [OF inv c] run_inv_length [OF inv] i(2) by simp_all
  then show ?thesis unfolding i(1) by (simp add: dispatch_proc preempt_proc resumed_def Let_def)
qed

lemma schedule_fields [simp]:
  assumes "run_inv s"
  shows "pid (proc_at k (schedule s)) = pid (proc_at k s)" "ppid (proc_at k (schedule s)) = ppid (proc_at k s)"
    "exit_code (proc_at k (schedule s)) = exit_code (proc_at k s)"
    "kernel_rsp (proc_at k (schedule s)) = kernel_rsp (proc_at k s)"
    "sleep_ticks (proc_at k (schedule s)) = sleep_ticks (proc_at k s)"
    "msg_queue (proc_at k (schedule s)) = msg_queue (proc_at k s)"
    "msg_tail (proc_at k (schedule s)) = msg_tail (proc_at k s)"
    "msg_count (proc_at k (schedule s)) = msg_count (proc_at k s)"
    "k \<noteq> the (current_proc s) \<Longrightarrow> p_context (proc_at k (schedule s)) = p_context (proc_at k s)"
proof -
  have P: "\<exists>st sd cx. proc_at k (schedule s) = (proc_at k s)\<lparr>state := st, started := sd, p_context := cx\<rparr> \<and>
      (k \<noteq> the (current_proc s) \<longrightarrow> cx = p_context (proc_at k s))"
  proof (cases "current_proc s")
    case None
    then show ?thesis
      by (intro exI [of _ "state (proc_at k s)"] exI [of _ "started (proc_at k s)"] exI [of _ "p_context (proc_at k s)"])
        (simp add: schedule_def)
  next
    case (Some c)
    from assms Some show ?thesis
    proof (cases rule: schedule_cases)
      case idle
      then show ?thesis
        by (intro exI [of _ "state (proc_at k s)"] exI [of _ "started (proc_at k s)"] exI [of _ "p_context (proc_at k s)"])
          simp
    next
      case (switch i)
      have "c < length (proc_table s)" "i < length (proc_table s)"
        using run_inv_current [OF assms Some] run_inv_length [OF assms] switch(1) by simp_all
      then show ?thesis unfolding switch(5) using Some
        by (cases "proc_at k s") (auto simp: dispatch_proc preempt_proc resumed_def Let_def)
    qed
  qed
  then show "pid (proc_at k (schedule s)) = pid (proc_at k s)" "ppid (proc_at k (schedule s)) = ppid (proc_at k s)"
    "exit_code (proc_at k (schedule s)) = exit_code (proc_at k s)"
    "kernel_rsp (proc_at k (schedule s)) = kernel_rsp (proc_at k s)"
    "sleep_ticks (proc_at k (schedule s)) = sleep_ticks (proc_at k s)"
    "msg_queue (proc_at k (schedule s)) = msg_queue (proc_at k s)"
    "msg_tail (proc_at k (schedule s)) = msg_tail (proc_at k s)"
    "msg_count (proc_at k (schedule s)) = msg_count (proc_at k s)"
    "k \<noteq> the (current_proc s) \<Longrightarrow> p_context (proc_at k (schedule s)) = p_context (proc_at k s)"
    by (auto; fail)+
qed

lemma schedule_frame [simp]:
  assumes "run_inv s"
  shows "length (proc_table (schedule s)) = length (proc_table s)" "next_pid (schedule s) = next_pid s"
    "ticks (schedule s) = ticks s" "iflag (schedule s) = iflag s" "con (schedule s) = con s"
    "sched_state.more (schedule s) = sched_state.more s"
proof -
  have "length (proc_table (schedule s)) = length (proc_table s) \<and> next_pid (schedule s) = next_pid s \<and>
    ticks (schedule s) = ticks s \<and> iflag (schedule s) = iflag s \<and> con (schedule s) = con s \<and>
    sched_state.more (schedule s) = sched_state.more s"
  proof (cases "current_proc s")
    case None
    then show ?thesis by (simp add: schedule_def)
  next
    case (Some c)
    from assms Some show ?thesis by (cases rule: schedule_cases) simp_all
  qed
  then show "length (proc_table (schedule s)) = length (proc_table s)" "next_pid (schedule s) = next_pid s"
    "ticks (schedule s) = ticks s" "iflag (schedule s) = iflag s" "con (schedule s) = con s"
    "sched_state.more (schedule s) = sched_state.more s" by auto
qed

lemma schedule_used:
  assumes "run_inv s"
  shows "used k (schedule s) = used k s"
proof (cases "current_proc s")
  case None
  then show ?thesis by (simp add: schedule_def)
next
  case (Some c)
  from assms Some show ?thesis
  proof (cases rule: schedule_cases)
    case idle
    then show ?thesis by simp
  next
    case (switch i)
    then show ?thesis
      using schedule_state [OF assms Some switch(5,1), of k] by (auto simp: used_def split: if_splits)
  qed
qed

lemma schedule_inv [inv_intros]:
  assumes "run_inv s"
  shows "run_inv (schedule s)"
proof (cases "current_proc s")
  case None
  with assms show ?thesis by (simp add: schedule_def)
next
  case (Some c)
  from assms Some show ?thesis
  proof (cases rule: schedule_cases)
    case idle
    with assms show ?thesis by simp
  next
    case (switch i)
    note st = schedule_state [OF assms Some switch(5,1)]
    have cur: "current_proc (schedule s) = Some i" by (simp add: switch(5))
    have "used i s" using switch(3) by (auto simp: used_def)
    then have "used i (schedule s)" using schedule_used [OF assms] by simp
    then show ?thesis
      using assms Some switch(1) cur unfolding run_inv_def
      by (auto simp: st schedule_fields [OF assms] schedule_frame [OF assms] split: if_splits)
  qed
qed

lemma schedule_same_ids: "run_inv s \<Longrightarrow> same_ids s (schedule s)"
  by (simp add: same_ids_def schedule_used)

section \<open>The operations keep the invariant\<close>

lemma run_inv_set_proc:
  assumes inv: "run_inv s" and u: "used i s \<Longrightarrow> state (f (proc_at i s)) \<noteq> PROC_UNUSED"
    and r: "state (f (proc_at i s)) = PROC_RUNNING \<Longrightarrow> state (proc_at i s) = PROC_RUNNING"
    and sl: "state (f (proc_at i s)) = PROC_SLEEPING \<Longrightarrow> sleep_ticks (f (proc_at i s)) \<noteq> 0"
  shows "run_inv (set_proc i f s)"
proof (rule run_invI)
  show "length (proc_table (set_proc i f s)) = 64" using run_inv_length [OF inv] by simp
  show "c < 64 \<and> used c (set_proc i f s)" if "current_proc (set_proc i f s) = Some c" for c
    using run_invD(1) [OF inv, of c] that u by (auto simp: used_def proc_at_set_proc)
  show "current_proc (set_proc i f s) = Some j"
    if "j < 64" "state (proc_at j (set_proc i f s)) = PROC_RUNNING" for j
  proof -
    have "state (proc_at j s) = PROC_RUNNING"
      using that(2) r by (simp add: proc_at_set_proc split: if_splits)
    then show ?thesis using run_invD(2) [OF inv that(1)] by simp
  qed
  show "sleep_ticks (proc_at j (set_proc i f s)) \<noteq> 0"
    if "j < 64" "state (proc_at j (set_proc i f s)) = PROC_SLEEPING" for j
    using run_invD(3) [OF inv that(1)] that(2) sl by (cases "j = i \<and> i < length (proc_table s)") (auto simp: proc_at_set_proc)
qed

lemma run_inv_kprintf [simp]: "run_inv (kprintf f xs s) = run_inv s"
  by (simp add: run_inv_def used_def)

lemma same_ids_kprintf [simp]: "same_ids t (kprintf f xs s) = same_ids t s" "same_ids (kprintf f xs s) t = same_ids s t"
  by (simp_all add: same_ids_def used_def)

lemma sleep_time_pos: "sleep_time ms \<noteq> 0"
  by (simp add: sleep_time_def Let_def)

lemma proc_yield_inv [inv_intros]: "run_inv s \<Longrightarrow> run_inv (proc_yield s)"
  by (simp add: proc_yield_def schedule_inv)

lemma proc_exit_inv [inv_intros]: "run_inv s \<Longrightarrow> run_inv (proc_exit code s)"
  by (auto simp: proc_exit_def Let_def split: option.split intro!: schedule_inv run_inv_set_proc)

lemma proc_sleep_inv [inv_intros]: "run_inv s \<Longrightarrow> run_inv (proc_sleep ms s)"
  by (auto simp: proc_sleep_def sleep_time_pos split: option.split intro!: schedule_inv run_inv_set_proc)

lemma proc_wakeup_inv [inv_intros]: "run_inv s \<Longrightarrow> run_inv (proc_wakeup q s)"
  by (auto simp: proc_wakeup_def wakeup_def used_def split: option.split if_splits
      intro!: run_inv_set_proc)

lemma for_upto_set_proc:
  assumes "n \<le> length (proc_table s)"
  shows "proc_at j (for_upto n (\<lambda>i. set_proc i f) s) = (if j < n then f (proc_at j s) else proc_at j s)
    \<and> length (proc_table (for_upto n (\<lambda>i. set_proc i f) s)) = length (proc_table s)"
  using assms by (induction n) (auto simp: proc_at_set_proc)

lemma for_upto_set_proc_frame [simp]:
  "current_proc (for_upto n (\<lambda>i. set_proc i f) s) = current_proc s"
  "next_pid (for_upto n (\<lambda>i. set_proc i f) s) = next_pid s"
  "ticks (for_upto n (\<lambda>i. set_proc i f) s) = ticks s"
  "con (for_upto n (\<lambda>i. set_proc i f) s) = con s"
  "sched_state.more (for_upto n (\<lambda>i. set_proc i f) s) = sched_state.more s"
  by (induction n) simp_all

lemma tick_process_state:
  "state (tick_process p) = PROC_RUNNING \<longleftrightarrow> state p = PROC_RUNNING"
  "state (tick_process p) = PROC_UNUSED \<longleftrightarrow> state p = PROC_UNUSED"
  "state (tick_process p) = PROC_SLEEPING \<Longrightarrow> sleep_ticks (tick_process p) \<noteq> 0"
  "pid (tick_process p) = pid p"
  by (auto simp: tick_process_def Let_def split: if_split_asm)

definition count_down :: "'a sched_state_scheme \<Rightarrow> 'a sched_state_scheme" where
  "count_down s = for_upto PROC_MAX (\<lambda>i. set_proc i tick_process) s"

lemma sched_tick_eq:
  "sched_tick s = (if current_proc s \<noteq> None \<and> ticks s mod 10 = 0 then schedule (count_down s) else count_down s)"
  by (simp add: sched_tick_def count_down_def Let_def)

lemma proc_at_count_down:
  assumes "run_inv s" "j < 64"
  shows "proc_at j (count_down s) = tick_process (proc_at j s)"
  using for_upto_set_proc [of 64 s j tick_process] run_inv_length [OF assms(1)] assms(2)
  by (simp add: count_down_def)

lemma count_down_inv: "run_inv s \<Longrightarrow> run_inv (count_down s)"
proof -
  assume inv: "run_inv s"
  have len: "length (proc_table (count_down s)) = 64"
    using for_upto_set_proc [of 64 s 0 tick_process] run_inv_length [OF inv] by (simp add: count_down_def)
  have cur: "current_proc (count_down s) = current_proc s" by (simp add: count_down_def)
  show ?thesis
  proof (rule run_invI)
    show "c < 64 \<and> used c (count_down s)" if "current_proc (count_down s) = Some c" for c
      using run_invD(1) [OF inv, of c] that by (simp add: cur used_def proc_at_count_down [OF inv] tick_process_state)
    show "current_proc (count_down s) = Some i"
      if "i < 64" "state (proc_at i (count_down s)) = PROC_RUNNING" for i
      using run_invD(2) [OF inv that(1)] that(2)
      by (simp add: cur proc_at_count_down [OF inv that(1)] tick_process_state)
    show "sleep_ticks (proc_at i (count_down s)) \<noteq> 0"
      if "i < 64" "state (proc_at i (count_down s)) = PROC_SLEEPING" for i
      using that(2) tick_process_state(3) by (simp add: proc_at_count_down [OF inv that(1)])
  qed (rule len)
qed

lemma sched_tick_inv [inv_intros]: "run_inv s \<Longrightarrow> run_inv (sched_tick s)"
  by (auto simp: sched_tick_eq intro: schedule_inv count_down_inv)

lemma run_inv_ticks [simp]: "run_inv (s\<lparr>ticks := t\<rparr>) = run_inv s"
  by (simp add: run_inv_def used_def)

text \<open>None of them changes who exists.\<close>

lemma same_ids_count_down: "run_inv s \<Longrightarrow> same_ids s (count_down s)"
  by (simp add: same_ids_def used_def proc_at_count_down tick_process_state) (simp add: count_down_def)

lemma proc_exit_ids:
  assumes "run_inv s"
  shows "same_ids s (proc_exit code s)"
proof (cases "current_proc s")
  case (Some c)
  let ?t = "set_proc c (\<lambda>p. p\<lparr>state := PROC_ZOMBIE, exit_code := code\<rparr>) s"
  have "same_ids s ?t" using run_invD(1) [OF assms Some] by (simp add: same_ids_set_proc)
  moreover have "run_inv ?t" by (rule run_inv_set_proc [OF assms]) simp_all
  ultimately have "same_ids s (schedule (kprintf f xs ?t))" for f xs
    by (intro same_ids_trans [OF _ schedule_same_ids]) simp_all
  then show ?thesis using Some by (simp only: proc_exit_def Let_def option.case)
qed (simp add: proc_exit_def same_ids_def)

lemma proc_sleep_ids:
  assumes "run_inv s"
  shows "same_ids s (proc_sleep ms s)"
proof (cases "current_proc s")
  case (Some c)
  let ?t = "set_proc c (\<lambda>p. p\<lparr>sleep_ticks := sleep_time ms, state := PROC_SLEEPING\<rparr>) s"
  have "same_ids s ?t" using run_invD(1) [OF assms Some] by (simp add: same_ids_set_proc)
  moreover have "run_inv ?t" by (rule run_inv_set_proc [OF assms]) (simp_all add: sleep_time_pos)
  ultimately show ?thesis
    using Some same_ids_trans [OF _ schedule_same_ids] by (simp add: proc_sleep_def)
qed (simp add: proc_sleep_def same_ids_def)

lemma proc_wakeup_ids: "same_ids s (proc_wakeup q s)"
  by (cases q) (auto simp: proc_wakeup_def wakeup_def same_ids_def used_def proc_at_set_proc)

lemma sched_tick_ids: "run_inv s \<Longrightarrow> same_ids s (sched_tick s)"
  using same_ids_count_down [of s] schedule_same_ids [OF count_down_inv, of s] same_ids_trans
  by (auto simp: sched_tick_eq)

section \<open>Creating processes\<close>

lemma alloc_proc_Some:
  assumes "alloc_proc s = Some i"
  shows "i < 64" "\<not> used i s" "j < i \<Longrightarrow> used j s"
  using assms unfolding alloc_proc_def find_Some_iff used_def by auto

lemma alloc_proc_None: "alloc_proc s = None \<longleftrightarrow> (\<forall>i<64. used i s)"
  by (auto simp: alloc_proc_def find_None_iff used_def)

lemma used_set_proc:
  "i < length (proc_table s) \<Longrightarrow> used k (set_proc i f s) = (if k = i then state (f (proc_at i s)) \<noteq> PROC_UNUSED else used k s)"
  by (simp add: used_def proc_at_set_proc)

lemma pid_inv_new:
  assumes inv: "pid_inv s" "length (proc_table s) = 64" and i: "i < 64" "\<not> used i s"
    and f: "pid (f (proc_at i s)) = next_pid s" "state (f (proc_at i s)) \<noteq> PROC_UNUSED"
  shows "pid_inv (set_proc i f (s\<lparr>next_pid := next_pid s + 1\<rparr>))"
proof -
  let ?s' = "set_proc i f (s\<lparr>next_pid := next_pid s + 1\<rparr>)"
  let ?U = "\<lambda>s. {k. k < 64 \<and> used k s}"
  have U: "used k (s\<lparr>next_pid := n\<rparr>) = used k s" for k n by (simp add: used_def)
  have used': "used k ?s' \<longleftrightarrow> k = i \<or> used k s" for k
    using inv(2) i(1) f(2) by (auto simp: used_set_proc U)
  then have "?U ?s' = insert i (?U s)" using i(1) by auto
  then have card: "card (?U ?s') = Suc (card (?U s))" using i(2) by simp
  have "?U s \<subseteq> {..<64} - {i}" using i(2) by auto
  then have "card (?U s) \<le> card ({..<64} - {i})" by (intro card_mono) auto
  then have le: "card (?U s) \<le> 63" using i(1) by simp
  have n: "unat (next_pid s) = Suc (card (?U s))" using inv(1) by (simp add: pid_inv_def)
  then have n1: "unat (next_pid s + 1) = Suc (unat (next_pid s))"
    using le by (simp add: unat_word_ariths)
  have p: "pid (proc_at k ?s') = (if k = i then next_pid s else pid (proc_at k s))" for k
    using inv(2) i(1) f(1) by (simp add: proc_at_set_proc)
  have old: "0 < unat (pid (proc_at k s)) \<and> unat (pid (proc_at k s)) < unat (next_pid s)"
    if "k < 64" "used k s" for k using inv(1) that unfolding pid_inv_def by blast
  have inj: "k = l" if "k < 64" "l < 64" "used k s" "used l s" "pid (proc_at k s) = pid (proc_at l s)" for k l
    using inv(1) that unfolding pid_inv_def by blast
  have next': "next_pid ?s' = next_pid s + 1" by simp
  show ?thesis
    unfolding pid_inv_def next' n1 card p
  proof (intro conjI allI impI)
    fix k assume "k < 64" "used k ?s'"
    then show "0 < unat (if k = i then next_pid s else pid (proc_at k s))"
      "unat (if k = i then next_pid s else pid (proc_at k s)) < Suc (unat (next_pid s))"
      using old [of k] n used' by auto
  next
    fix k l
    assume k: "k < 64" "l < 64" "used k ?s'" "used l ?s'"
      and eq: "(if k = i then next_pid s else pid (proc_at k s)) = (if l = i then next_pid s else pid (proc_at l s))"
    have u: "k = i \<or> used k s" "l = i \<or> used l s" using k used' by auto
    show "k = l"
      using u eq old [OF k(1)] old [OF k(2)] inj [OF k(1,2)]
      by (cases "k = i"; cases "l = i") auto
  next
    show "Suc (unat (next_pid s)) = Suc (Suc (card (?U s)))" using n by simp
  qed
qed

lemma run_inv_next_pid [simp]: "run_inv (s\<lparr>next_pid := n\<rparr>) = run_inv s" "run_inv (s\<lparr>mem := m\<rparr>) = run_inv s"
  by (simp_all add: run_inv_def used_def)

lemma kmalloc_more:
  assumes "kmalloc n s = Some (p, s')"
  shows "heap_state.more s' = heap_state.more s" "con s' = con s" "bitmap s' = bitmap s"
    "pmm_base s' = pmm_base s" "pmm_total_pages s' = pmm_total_pages s"
    "pmm_free_pages s' = pmm_free_pages s" "pmm_last_alloc s' = pmm_last_alloc s"
  using assms by (auto simp: kmalloc_def Let_def split: option.splits if_splits)

lemma heap_more_sched:
  fixes s t :: "'a sched_state_scheme"
  assumes "heap_state.more s = heap_state.more t"
  shows "proc_table s = proc_table t" "current_proc s = current_proc t" "next_pid s = next_pid t"
    "ticks s = ticks t" "cpu s = cpu t" "mem s = mem t" "tss s = tss t" "iflag s = iflag t"
    "proc_entrypoint s = proc_entrypoint t" "sched_state.more s = sched_state.more t"
  using assms by (cases s; cases t; simp)+

lemma vmm_more_sched:
  fixes s t :: "'a sched_state_scheme"
  assumes "vmm_state.more s = vmm_state.more t"
  shows "proc_table s = proc_table t" "current_proc s = current_proc t" "next_pid s = next_pid t"
    "ticks s = ticks t" "cpu s = cpu t" "tss s = tss t" "iflag s = iflag t"
    "proc_entry_user s = proc_entry_user t" "sched_state.more s = sched_state.more t"
  using assms by (cases s; cases t; simp)+

lemma heap_inv_cong:
  "heap_ptr s = heap_ptr t \<Longrightarrow> heap_head s = heap_head t \<Longrightarrow> blocks s = blocks t \<Longrightarrow> heap_inv s = heap_inv t"
  by (simp add: heap_with_def heap_list_def)

lemma heap_inv_frame [simp]:
  "heap_inv (kprintf f xs s) = heap_inv s" "heap_inv (set_proc i g s) = heap_inv s"
  "heap_inv (s\<lparr>mem := m\<rparr>) = heap_inv s" "heap_inv (s\<lparr>next_pid := n\<rparr>) = heap_inv s"
  by (rule heap_inv_cong; simp add: kprintf_def set_proc_def)+

lemma init_process_fields [simp]:
  "pid (init_process e st k pd ppd nm p) = pd" "state (init_process e st k pd ppd nm p) = PROC_READY"
  "msg_queue (init_process e st k pd ppd nm p) = None" "msg_tail (init_process e st k pd ppd nm p) = None"
  "msg_count (init_process e st k pd ppd nm p) = 0"
  by (simp_all add: init_process_def)

lemma proc_inv_cong:
  fixes s t :: "'a sched_state_scheme"
  assumes "proc_table t = proc_table s" "current_proc t = current_proc s" "next_pid t = next_pid s"
  shows "run_inv t = run_inv s" "pid_inv t = pid_inv s"
proof -
  have "proc_at i t = proc_at i s" for i by (simp add: proc_at_def assms)
  then show "run_inv t = run_inv s" "pid_inv t = pid_inv s"
    using assms by (simp_all add: run_inv_def pid_inv_def used_def)
qed

text \<open>
  A created process is READY, its context starts it at the entry stub on the top of a stack of
  its own, and every other process is as before.
\<close>

lemma proc_create_spec:
  assumes inv: "run_inv s" "pid_inv s" "heap_inv s"
  obtains r s' where "proc_create nm entry s = Some (r, s')" "run_inv s'" "pid_inv s'" "heap_inv s'"
    "current_proc s' = current_proc s" "ticks s' = ticks s" "sched_state.more s' = sched_state.more s"
    "r = None \<Longrightarrow> proc_table s' = proc_table s \<and> next_pid s' = next_pid s"
    "\<And>i. r = Some i \<Longrightarrow> alloc_proc s = Some i \<and> (\<forall>j. j \<noteq> i \<longrightarrow> proc_at j s' = proc_at j s) \<and>
      (\<exists>stk. stk \<notin> live s \<and> {unat stk ..< unat stk + 16384} \<subseteq> {0x400018..<0x800000} \<and>
        (\<forall>q\<in>live s. {unat stk ..< unat stk + 16384} \<inter> payload s q = {}) \<and>
        proc_at i s' = init_process entry (proc_entrypoint s) (stk + KSTACK_SIZE) (next_pid s) (cur_pid s) nm (proc_at i s))"
proof (cases "alloc_proc s")
  case None
  have t: "proc_table (kprintf f xs s) = proc_table s" "current_proc (kprintf f xs s) = current_proc s"
    "next_pid (kprintf f xs s) = next_pid s" for f xs by simp_all
  have res: "proc_create nm entry s = Some (None, kprintf ''[PROC] table full!
'' [] s)" using None by (simp add: proc_create_def)
  show thesis
    by (rule that [OF res]) (use inv proc_inv_cong [OF t] in simp_all)
next
  case (Some i)
  note slot = alloc_proc_Some [OF Some]
  obtain stk s1 where k: "kmalloc KSTACK_SIZE s = Some (stk, s1)" and h1: "heap_inv s1"
    using held_heap.alloc_returns [OF inv(3), of KSTACK_SIZE] by auto
  note fr = heap_more_sched [OF kmalloc_more(1) [OF k]]
  note inv1 = proc_inv_cong [OF fr(1-3)]
  have at1: "proc_at j s1 = proc_at j s" for j by (simp add: proc_at_def fr)
  show thesis
  proof (cases "stk = 0")
    case True
    have t: "proc_table (kprintf f xs s1) = proc_table s" "current_proc (kprintf f xs s1) = current_proc s"
      "next_pid (kprintf f xs s1) = next_pid s" "ticks (kprintf f xs s1) = ticks s"
      "sched_state.more (kprintf f xs s1) = sched_state.more s" for f xs using fr by simp_all
    have res: "proc_create nm entry s = Some (None, kprintf ''[PROC] no memory for stack
'' [] s1)" using True Some k by (simp add: proc_create_def)
    show thesis
      by (rule that [OF res]) (use inv proc_inv_cong [OF t(1-3)] t h1 in simp_all)
  next
    case False
    let ?top = "stk + KSTACK_SIZE"
    let ?f = "init_process entry (proc_entrypoint s) ?top (next_pid s) (cur_pid s) nm"
    let ?t = "s1\<lparr>mem := store64 (mem s1) (?top - 8) entry\<rparr>"
    let ?u = "set_proc i ?f (?t\<lparr>next_pid := next_pid ?t + 1\<rparr>)"
    have cp: "cur_pid (?t\<lparr>next_pid := n\<rparr>) = cur_pid s" for n
      by (simp add: cur_pid_def fr at1 split: option.split)
    have res: "proc_create nm entry s = Some (Some i, kprintf ''[PROC] created '%s' pid=%d
'' [Str (Some (take (min 15 (length nm)) nm)), Num (scast (next_pid s))] ?u)"
      using Some k False cp by (simp add: proc_create_def Let_def fr)
    have len: "length (proc_table ?t) = 64" using run_inv_length [OF inv(1)] fr by simp
    have "\<not> used i ?t" using slot(2) by (simp add: used_def at1)
    moreover have "pid_inv ?t" using inv(2) fr by (subst proc_inv_cong(2) [of _ s]) simp_all
    ultimately have pu: "pid_inv ?u"
      using len slot(1) fr by (intro pid_inv_new) simp_all
    have ru: "run_inv ?u" using inv1 inv(1) by (intro run_inv_set_proc) simp_all
    have sep: "stk \<notin> live s" "{unat stk ..< unat stk + 16384} \<subseteq> {0x400018..<0x800000}"
      "\<forall>q\<in>live s. {unat stk ..< unat stk + 16384} \<inter> payload s q = {}"
      using held_heap.alloc_block [OF inv(3) _ k False] held_heap.alloc_inside [OF inv(3) _ k False]
        held_heap.alloc_separate [OF inv(3) _ k False] by auto
    have at: "proc_at j ?u = (if j = i then ?f (proc_at i s) else proc_at j s)" for j
      using len slot(1) by (simp add: proc_at_set_proc at1)
    show thesis
    proof (rule that [OF res])
      show "run_inv (kprintf f xs ?u)" for f xs using ru by simp
      show "pid_inv (kprintf f xs ?u)" for f xs
        using pu by (subst proc_inv_cong(2) [of _ ?u]) simp_all
      show "heap_inv (kprintf f xs ?u)" for f xs using h1 by simp
      show "alloc_proc s = Some j \<and> (\<forall>k. k \<noteq> j \<longrightarrow> proc_at k (kprintf f xs ?u) = proc_at k s) \<and>
        (\<exists>stk. stk \<notin> live s \<and> {unat stk ..< unat stk + 16384} \<subseteq> {0x400018..<0x800000} \<and>
          (\<forall>q\<in>live s. {unat stk ..< unat stk + 16384} \<inter> payload s q = {}) \<and>
          proc_at j (kprintf f xs ?u) = init_process entry (proc_entrypoint s) (stk + KSTACK_SIZE)
            (next_pid s) (cur_pid s) nm (proc_at j s))" if "Some i = Some j" for j f xs
        using that Some sep at by auto
    qed (simp_all add: fr)
  qed
qed

section \<open>Round robin\<close>

lemma dist_inject: "c < 64 \<Longrightarrow> i < 64 \<Longrightarrow> j < 64 \<Longrightarrow> dist c i = dist c j \<Longrightarrow> i = j"
  by (metis dist_reach)

lemma dist_less:
  "c < 64 \<Longrightarrow> i < 64 \<Longrightarrow> j < 64 \<Longrightarrow> dist c j < dist c i \<Longrightarrow> dist j i = dist c i - dist c j"
  by (auto simp: dist_def split: if_splits)

lemma round_robin_steps:
  assumes "run_inv s" "current_proc s = Some c" "i < 64" "state (proc_at i s) = PROC_READY"
  shows "\<exists>k. 1 \<le> k \<and> k \<le> dist c i \<and> current_proc ((schedule ^^ k) s) = Some i
    \<and> state (proc_at i ((schedule ^^ k) s)) = PROC_RUNNING"
  using assms
proof (induction "dist c i" arbitrary: c s rule: less_induct)
  case less
  have c64: "c < 64" using run_inv_current [OF less.prems(1,2)] by simp
  from less.prems(1,2) show ?case
  proof (cases rule: schedule_cases)
    case idle
    then show ?thesis using less.prems(3,4) by blast
  next
    case (switch j)
    note st = schedule_state [OF less.prems(1,2) switch(5,1)]
    have cur: "current_proc (schedule s) = Some j" by (simp add: switch(5))
    show ?thesis
    proof (cases "j = i")
      case True
      then show ?thesis
        using cur st [of i] dist_bounds [OF c64 less.prems(3)] by (intro exI [of _ 1]) simp
    next
      case False
      have "dist c j \<noteq> dist c i" using dist_inject [OF c64 switch(1) less.prems(3)] False by blast
      then have lt: "dist c j < dist c i" using switch(4) less.prems(3,4) by fastforce
      have d: "dist j i = dist c i - dist c j" using dist_less [OF c64 less.prems(3) switch(1) lt] .
      have "dist c j \<ge> 1" using dist_bounds [OF c64 switch(1)] by simp
      with d lt have "dist j i < dist c i" by simp
      moreover have "state (proc_at i (schedule s)) = PROC_READY" using st [of i] False less.prems(4) by auto
      ultimately obtain k where k: "1 \<le> k" "k \<le> dist j i" "current_proc ((schedule ^^ k) (schedule s)) = Some i"
        "state (proc_at i ((schedule ^^ k) (schedule s))) = PROC_RUNNING"
        using less.hyps [OF _ schedule_inv [OF less.prems(1)] cur less.prems(3)] by blast
      then show ?thesis
        using d lt \<open>dist c j \<ge> 1\<close> by (intro exI [of _ "Suc k"]) (simp add: funpow_swap1)
    qed
  qed
qed

section \<open>Time\<close>

text \<open>The timer interrupt's part of the dispatcher: \<^verbatim>\<open>ticks++; sched_tick();\<close>.\<close>

definition timer_irq :: "'a sched_state_scheme \<Rightarrow> 'a sched_state_scheme" where
  "timer_irq s = sched_tick (s\<lparr>ticks := ticks s + 1\<rparr>)"

lemma timer_irq_inv [inv_intros]: "run_inv s \<Longrightarrow> run_inv (timer_irq s)"
  by (simp add: timer_irq_def sched_tick_inv)

lemma timer_irq_ids: "run_inv s \<Longrightarrow> same_ids s (timer_irq s)"
  using sched_tick_ids [of "s\<lparr>ticks := ticks s + 1\<rparr>"]
  by (simp add: timer_irq_def same_ids_def used_def)

lemma schedule_blocked:
  assumes "run_inv s" "k < 64" "state (proc_at k s) \<notin> {PROC_READY, PROC_RUNNING}"
  shows "state (proc_at k (schedule s)) = state (proc_at k s)"
proof (cases "current_proc s")
  case None
  then show ?thesis by (simp add: schedule_def)
next
  case (Some c)
  from assms(1) Some show ?thesis
  proof (cases rule: schedule_cases)
    case (switch i)
    then show ?thesis using schedule_state [OF assms(1) Some switch(5,1), of k] assms(3) by auto
  qed simp
qed

lemma schedule_runnable:
  assumes "run_inv s" "k < 64" "state (proc_at k s) \<in> {PROC_READY, PROC_RUNNING}"
  shows "state (proc_at k (schedule s)) \<in> {PROC_READY, PROC_RUNNING}"
proof (cases "current_proc s")
  case None
  then show ?thesis using assms(3) by (simp add: schedule_def)
next
  case (Some c)
  from assms(1) Some show ?thesis
  proof (cases rule: schedule_cases)
    case (switch i)
    then show ?thesis using schedule_state [OF assms(1) Some switch(5,1), of k] assms(3) by auto
  qed (use assms(3) in simp)
qed

lemma timer_irq_sleeper:
  assumes "run_inv s" "i < 64" "state (proc_at i s) = PROC_SLEEPING"
  shows "unat (sleep_ticks (proc_at i (timer_irq s))) = unat (sleep_ticks (proc_at i s)) - 1"
    "1 < unat (sleep_ticks (proc_at i s)) \<Longrightarrow> state (proc_at i (timer_irq s)) = PROC_SLEEPING"
    "unat (sleep_ticks (proc_at i s)) = 1 \<Longrightarrow> state (proc_at i (timer_irq s)) \<in> {PROC_READY, PROC_RUNNING}"
proof -
  let ?s = "s\<lparr>ticks := ticks s + 1\<rparr>"
  let ?p = "tick_process (proc_at i s)"
  have inv: "run_inv ?s" using assms(1) by simp
  note invd = count_down_inv [OF inv]
  have at: "proc_at i (count_down ?s) = ?p" using proc_at_count_down [OF inv assms(2)] by simp
  have pos: "sleep_ticks (proc_at i s) \<noteq> 0" using run_invD(3) [OF assms] .
  then have dec: "unat (sleep_ticks (proc_at i s) - 1) = unat (sleep_ticks (proc_at i s)) - 1"
    by (metis unat_minus_one)
  then have pt: "unat (sleep_ticks ?p) = unat (sleep_ticks (proc_at i s)) - 1"
    using pos assms(3) by (simp add: tick_process_def word_gt_0 Let_def)
  have z: "sleep_ticks (proc_at i s) - 1 = 0 \<longleftrightarrow> unat (sleep_ticks (proc_at i s)) \<le> 1"
    using dec pos by (metis One_nat_def diff_is_0_eq unat_eq_zero)
  have ps: "state ?p = (if unat (sleep_ticks (proc_at i s)) \<le> 1 then PROC_READY else PROC_SLEEPING)"
    using pos assms(3) z by (simp add: tick_process_def word_gt_0 Let_def)
  show "unat (sleep_ticks (proc_at i (timer_irq s))) = unat (sleep_ticks (proc_at i s)) - 1"
    using pt at invd by (simp add: timer_irq_def sched_tick_eq)
  show "state (proc_at i (timer_irq s)) = PROC_SLEEPING" if "1 < unat (sleep_ticks (proc_at i s))"
    using ps at that schedule_blocked [OF invd assms(2)] by (simp add: timer_irq_def sched_tick_eq)
  show "state (proc_at i (timer_irq s)) \<in> {PROC_READY, PROC_RUNNING}" if "unat (sleep_ticks (proc_at i s)) = 1"
    using ps at that schedule_runnable [OF invd assms(2)] by (simp add: timer_irq_def sched_tick_eq)
qed

lemma sleeper_wakes:
  assumes "run_inv s" "i < 64" "state (proc_at i s) = PROC_SLEEPING" "m \<le> unat (sleep_ticks (proc_at i s))"
  shows "run_inv ((timer_irq ^^ m) s)"
    "unat (sleep_ticks (proc_at i ((timer_irq ^^ m) s))) = unat (sleep_ticks (proc_at i s)) - m"
    "m < unat (sleep_ticks (proc_at i s)) \<Longrightarrow> state (proc_at i ((timer_irq ^^ m) s)) = PROC_SLEEPING"
    "m = unat (sleep_ticks (proc_at i s)) \<Longrightarrow> state (proc_at i ((timer_irq ^^ m) s)) \<in> {PROC_READY, PROC_RUNNING}"
proof -
  have main: "run_inv ((timer_irq ^^ m) s) \<and>
      unat (sleep_ticks (proc_at i ((timer_irq ^^ m) s))) = unat (sleep_ticks (proc_at i s)) - m \<and>
      state (proc_at i ((timer_irq ^^ m) s)) = PROC_SLEEPING" if "m < unat (sleep_ticks (proc_at i s))" for m
    using that
  proof (induction m)
    case 0
    then show ?case using assms by simp
  next
    case (Suc m)
    then have ih: "run_inv ((timer_irq ^^ m) s)" "state (proc_at i ((timer_irq ^^ m) s)) = PROC_SLEEPING"
      "unat (sleep_ticks (proc_at i ((timer_irq ^^ m) s))) = unat (sleep_ticks (proc_at i s)) - m" by auto
    from timer_irq_sleeper [OF ih(1) assms(2) ih(2)] ih(3) Suc.prems timer_irq_inv [OF ih(1)]
    show ?case by simp
  qed
  have pos: "unat (sleep_ticks (proc_at i s)) \<noteq> 0"
    using run_invD(3) [OF assms(1-3)] by (simp only: unat_eq_zero not_False_eq_True)
  have fin: "run_inv ((timer_irq ^^ m) s) \<and> unat (sleep_ticks (proc_at i ((timer_irq ^^ m) s))) = 0 \<and>
      state (proc_at i ((timer_irq ^^ m) s)) \<in> {PROC_READY, PROC_RUNNING}"
    if m: "m = unat (sleep_ticks (proc_at i s))"
  proof -
    obtain k where k: "m = Suc k" using pos m not0_implies_Suc by metis
    note ih = main [of k]
    from k m have "k < unat (sleep_ticks (proc_at i s))" by simp
    with ih have ih: "run_inv ((timer_irq ^^ k) s)" "state (proc_at i ((timer_irq ^^ k) s)) = PROC_SLEEPING"
      "unat (sleep_ticks (proc_at i ((timer_irq ^^ k) s))) = 1" using k m by auto
    from timer_irq_sleeper [OF ih(1) assms(2) ih(2)] ih(3) timer_irq_inv [OF ih(1)]
    show ?thesis by (simp add: k)
  qed
  show "run_inv ((timer_irq ^^ m) s)"
    "unat (sleep_ticks (proc_at i ((timer_irq ^^ m) s))) = unat (sleep_ticks (proc_at i s)) - m"
    using main [of m] fin assms(4) by (cases "m = unat (sleep_ticks (proc_at i s))"; simp)+
  show "m < unat (sleep_ticks (proc_at i s)) \<Longrightarrow> state (proc_at i ((timer_irq ^^ m) s)) = PROC_SLEEPING"
    using main by blast
  show "m = unat (sleep_ticks (proc_at i s)) \<Longrightarrow> state (proc_at i ((timer_irq ^^ m) s)) \<in> {PROC_READY, PROC_RUNNING}"
    using fin by blast
qed

section \<open>The context switch\<close>

text \<open>The registers a process has when \<^verbatim>\<open>switch_context\<close> returns to it as a plain call would.\<close>

definition after_return :: "'a sched_state_scheme \<Rightarrow> cpu_context" where
  "after_return s = (cpu s)\<lparr>rip := load64 (mem s) (rsp (cpu s)), rsp := rsp (cpu s) + 8\<rparr>"

lemma switch_context_cpu:
  assumes "i < length (proc_table s)" "j \<noteq> i"
  shows "cpu (switch_context i j s) = (p_context (proc_at j s))\<lparr>rsp := rsp (p_context (proc_at j s)) + 8\<rparr>"
  using assms by (simp add: switch_context_def Let_def proc_at_set_proc)

lemma switch_context_self:
  assumes "i < length (proc_table s)"
  shows "cpu (switch_context i i s) = after_return s"
  using assms by (simp add: switch_context_def Let_def proc_at_set_proc after_return_def)

end
