(* ===== verification/Ipc.thy ===== *)
theory Ipc
  imports Sched
begin

text \<open>
  Message passing, \<^verbatim>\<open>kernel/ipc/ipc.c\<close>: a static pool of 128 messages and, per process, a
  linked queue of pool entries.  A pointer to a pool entry is its index.
\<close>

section \<open>State\<close>

record ipc_message =
  m_from :: pid_t
  m_type :: u32
  m_len :: u32
  m_data :: "u8 list"
  m_next :: "nat option"

record ipc_state = sched_state +
  msg_pool :: "ipc_message list"
  msg_used :: "bool list"

abbreviation IPC_POOL_SIZE :: nat where "IPC_POOL_SIZE \<equiv> 128"
abbreviation IPC_MSG_MAX :: u32 where "IPC_MSG_MAX \<equiv> 256"

definition msg_at :: "nat \<Rightarrow> 'a ipc_state_scheme \<Rightarrow> ipc_message" where
  "msg_at i s = msg_pool s ! i"

definition set_msg :: "nat \<Rightarrow> (ipc_message \<Rightarrow> ipc_message) \<Rightarrow> 'a ipc_state_scheme \<Rightarrow> 'a ipc_state_scheme" where
  "set_msg i f s = s\<lparr>msg_pool := (msg_pool s)[i := f (msg_pool s ! i)]\<rparr>"

section \<open>Operations\<close>

definition msg_alloc :: "'a ipc_state_scheme \<Rightarrow> nat option \<times> 'a ipc_state_scheme" where
  "msg_alloc s =
     (case find (\<lambda>i. \<not> msg_used s ! i) [0..<IPC_POOL_SIZE] of
        None \<Rightarrow> (None, s)
      | Some i \<Rightarrow> (Some i, set_msg i (\<lambda>m. m\<lparr>m_next := None\<rparr>) (s\<lparr>msg_used := (msg_used s)[i := True]\<rparr>)))"

definition msg_free :: "nat option \<Rightarrow> 'a ipc_state_scheme \<Rightarrow> 'a ipc_state_scheme" where
  "msg_free m s =
     (case m of None \<Rightarrow> s
      | Some i \<Rightarrow> if i < IPC_POOL_SIZE then s\<lparr>msg_used := (msg_used s)[i := False]\<rparr> else s)"

text \<open>The link of message \<open>m\<close> into the queue of process \<open>t\<close>, with interrupts off.\<close>

definition enqueue :: "nat \<Rightarrow> nat \<Rightarrow> 'a ipc_state_scheme \<Rightarrow> 'a ipc_state_scheme" where
  "enqueue t m s =
     (let s1 = set_msg m (\<lambda>x. x\<lparr>m_next := None\<rparr>) s;
          s2 = (case msg_tail (proc_at t s1) of
                  None \<Rightarrow> set_proc t (\<lambda>p. p\<lparr>msg_queue := Some m, msg_tail := Some m\<rparr>) s1
                | Some l \<Rightarrow> set_proc t (\<lambda>p. p\<lparr>msg_tail := Some m\<rparr>) (set_msg l (\<lambda>x. x\<lparr>m_next := Some m\<rparr>) s1))
      in set_proc t (\<lambda>p. p\<lparr>msg_count := msg_count p + 1\<rparr>) s2)"

definition ipc_send ::
  "pid_t \<Rightarrow> u32 \<Rightarrow> u64 \<Rightarrow> u32 \<Rightarrow> 'a ipc_state_scheme \<Rightarrow> int \<times> 'a ipc_state_scheme" where
  "ipc_send dst ty data len s =
     (case proc_find dst s of
        None \<Rightarrow> (- ESRCH, s)
      | Some t \<Rightarrow>
          if len > IPC_MSG_MAX then (- EINVAL, s)
          else
            (case msg_alloc s of
               (None, s1) \<Rightarrow> (- ENOMEM, s1)
             | (Some m, s1) \<Rightarrow>
                 let s2 = set_msg m (\<lambda>x. x\<lparr>m_from := cur_pid s1, m_type := ty, m_len := len\<rparr>) s1;
                     s3 = (if len > 0 \<and> data \<noteq> 0
                           then set_msg m (\<lambda>x. x\<lparr>m_data :=
                                  read_bytes (mem s2) data (unat len) @ drop (unat len) (m_data x)\<rparr>) s2
                           else s2);
                     flags = iflag s3;
                     s4 = enqueue t m (cli s3);
                     s5 = (if state (proc_at t s4) = PROC_SLEEPING then proc_wakeup (Some t) s4 else s4)
                 in (0, restore_flags flags s5)))"

text \<open>
  The copy to \<^verbatim>\<open>out\<close>: the layout of \<^verbatim>\<open>ipc_message_t\<close> has \<^verbatim>\<open>from\<close>, \<^verbatim>\<open>type\<close> and \<^verbatim>\<open>len\<close> at offsets 0, 4 and
  8, the data at 12 and the link at 272.
\<close>

definition store32 :: "memory \<Rightarrow> u64 \<Rightarrow> u32 \<Rightarrow> memory" where
  "store32 m a v = store_le 4 m a (ucast v)"

definition copy_out :: "u64 \<Rightarrow> ipc_message \<Rightarrow> memory \<Rightarrow> memory" where
  "copy_out out x m =
     (let m1 = store32 (store32 (store32 m out (m_from x)) (out + 4) (m_type x)) (out + 8) (m_len x);
          m2 = write_bytes m1 (out + 12) (take (unat (m_len x)) (m_data x))
      in store64 m2 (out + 272) 0)"

definition dequeue :: "nat \<Rightarrow> nat \<Rightarrow> 'a ipc_state_scheme \<Rightarrow> 'a ipc_state_scheme" where
  "dequeue c m s =
     (let s1 = set_proc c (\<lambda>p. p\<lparr>msg_queue := m_next (msg_at m s)\<rparr>) s;
          s2 = (if msg_queue (proc_at c s1) = None then set_proc c (\<lambda>p. p\<lparr>msg_tail := None\<rparr>) s1 else s1)
      in set_proc c (\<lambda>p. p\<lparr>msg_count := msg_count p - 1\<rparr>) s2)"

text \<open>
  One pass of the receive loop: \<open>Inl\<close> is the return with code 0, \<open>Inr\<close> the state in which
  \<^verbatim>\<open>proc_sleep(10)\<close> has given up the processor and the loop will go round again.
\<close>

definition ipc_recv_pass ::
  "nat \<Rightarrow> u64 \<Rightarrow> 'a ipc_state_scheme \<Rightarrow> 'a ipc_state_scheme + 'a ipc_state_scheme" where
  "ipc_recv_pass c out s =
     (let flags = iflag s; s1 = cli s in
      case msg_queue (proc_at c s1) of
        Some m \<Rightarrow>
          let s2 = dequeue c m s1;
              s3 = s2\<lparr>mem := copy_out out (msg_at m s2) (mem s2)\<rparr>
          in Inl (restore_flags flags (msg_free (Some m) s3))
      | None \<Rightarrow> Inr (proc_sleep 10 (restore_flags flags s1)))"

text \<open>
  The whole call.  \<open>resume c s\<close> is what the rest of the system makes of the state until process
  \<open>c\<close> runs again, \<open>None\<close> if it never does; a call that never returns is \<open>None\<close>.
\<close>

partial_function (option) ipc_recv_loop ::
  "(nat \<Rightarrow> 'a ipc_state_scheme \<Rightarrow> 'a ipc_state_scheme option) \<Rightarrow> nat \<Rightarrow> u64 \<Rightarrow> 'a ipc_state_scheme
    \<Rightarrow> (int \<times> 'a ipc_state_scheme) option" where
  "ipc_recv_loop resume c out s =
     (case ipc_recv_pass c out s of
        Inl s1 \<Rightarrow> Some (0, s1)
      | Inr s1 \<Rightarrow> (case resume c s1 of None \<Rightarrow> None | Some s2 \<Rightarrow> ipc_recv_loop resume c out s2))"

definition ipc_recv ::
  "(nat \<Rightarrow> 'a ipc_state_scheme \<Rightarrow> 'a ipc_state_scheme option) \<Rightarrow> u64 \<Rightarrow> 'a ipc_state_scheme
    \<Rightarrow> (int \<times> 'a ipc_state_scheme) option" where
  "ipc_recv resume out s =
     (case current_proc s of
        None \<Rightarrow> Some (- EINVAL, s)
      | Some c \<Rightarrow> if out = 0 then Some (- EINVAL, s) else ipc_recv_loop resume c out s)"

section \<open>What a queue holds\<close>

type_synonym letter = "pid_t \<times> u32 \<times> u8 list"

definition letter_of :: "ipc_message \<Rightarrow> letter" where
  "letter_of x = (m_from x, m_type x, take (unat (m_len x)) (m_data x))"

definition letter_in :: "memory \<Rightarrow> u64 \<Rightarrow> letter" where
  "letter_in m out = (load32 m out, load32 m (out + 4), read_bytes m (out + 12) (unat (load32 m (out + 8))))"

text \<open>The entries reached from \<open>h\<close> along the links, at most \<open>n\<close> of them.\<close>

fun chain :: "ipc_message list \<Rightarrow> nat \<Rightarrow> nat option \<Rightarrow> nat list" where
  "chain pool (Suc n) (Some i) = i # chain pool n (m_next (pool ! i))"
| "chain pool n h = []"

definition entries :: "nat \<Rightarrow> 'a ipc_state_scheme \<Rightarrow> nat list" where
  "entries p s = chain (msg_pool s) IPC_POOL_SIZE (msg_queue (proc_at p s))"

definition mailbox :: "'a ipc_state_scheme \<Rightarrow> nat \<Rightarrow> letter list" where
  "mailbox s p = map (\<lambda>i. letter_of (msg_at i s)) (entries p s)"

text \<open>\<open>links pool h ns\<close>: the links from \<open>h\<close> lead through \<open>ns\<close> and end there.\<close>

primrec links :: "ipc_message list \<Rightarrow> nat option \<Rightarrow> nat list \<Rightarrow> bool" where
  "links pool h [] \<longleftrightarrow> h = None"
| "links pool h (n # ns) \<longleftrightarrow> h = Some n \<and> links pool (m_next (pool ! n)) ns"

definition box_ok :: "'a ipc_state_scheme \<Rightarrow> nat \<Rightarrow> nat list \<Rightarrow> bool" where
  "box_ok s p ns \<longleftrightarrow> links (msg_pool s) (msg_queue (proc_at p s)) ns \<and>
     msg_tail (proc_at p s) = (if ns = [] then None else Some (last ns)) \<and>
     msg_count (proc_at p s) = of_nat (length ns) \<and> distinct ns \<and>
     set ns \<subseteq> {..<IPC_POOL_SIZE} \<and> (\<not> used p s \<longrightarrow> ns = [])"

definition linked :: "'a ipc_state_scheme \<Rightarrow> (nat \<Rightarrow> nat list) \<Rightarrow> bool" where
  "linked s q \<longleftrightarrow> (\<forall>p<PROC_MAX. box_ok s p (q p)) \<and>
     (\<forall>p<PROC_MAX. \<forall>r<PROC_MAX. p \<noteq> r \<longrightarrow> set (q p) \<inter> set (q r) = {})"

definition owned :: "'a ipc_state_scheme \<Rightarrow> (nat \<Rightarrow> nat list) \<Rightarrow> bool" where
  "owned s q \<longleftrightarrow> (\<forall>i<IPC_POOL_SIZE. msg_used s ! i \<longleftrightarrow> (\<exists>p<PROC_MAX. i \<in> set (q p)))"

definition queues :: "'a ipc_state_scheme \<Rightarrow> (nat \<Rightarrow> nat list) \<Rightarrow> bool" where
  "queues s q \<longleftrightarrow> linked s q \<and> owned s q"

definition pool_inv :: "'a ipc_state_scheme \<Rightarrow> bool" where
  "pool_inv s \<longleftrightarrow> length (msg_pool s) = IPC_POOL_SIZE \<and> length (msg_used s) = IPC_POOL_SIZE \<and>
     (\<forall>i<IPC_POOL_SIZE. length (m_data (msg_at i s)) = 256 \<and> m_len (msg_at i s) \<le> IPC_MSG_MAX)"

definition ipc_inv :: "'a ipc_state_scheme \<Rightarrow> bool" where
  "ipc_inv s \<longleftrightarrow> pool_inv s \<and> (\<exists>q. queues s q)"

section \<open>Linked queues\<close>

lemma links_cong:
  "(\<And>n. n \<in> set ns \<Longrightarrow> m_next (pool' ! n) = m_next (pool ! n)) \<Longrightarrow> links pool' h ns = links pool h ns"
  by (induction ns arbitrary: h) auto

lemma chain_links: "links pool h ns \<Longrightarrow> length ns \<le> k \<Longrightarrow> chain pool k h = ns"
proof (induction ns arbitrary: h k)
  case Nil
  then show ?case by (cases k) simp_all
next
  case (Cons n ns)
  then obtain j where "k = Suc j" by (cases k) auto
  with Cons show ?case by simp
qed

lemma links_snoc:
  assumes "links pool h ns" "ns \<noteq> []" "distinct ns"
    "\<And>i. i \<in> set ns \<Longrightarrow> i \<noteq> last ns \<Longrightarrow> m_next (pool' ! i) = m_next (pool ! i)"
    "m_next (pool' ! last ns) = Some n" "m_next (pool' ! n) = None"
  shows "links pool' h (ns @ [n])"
  using assms
proof (induction ns arbitrary: h)
  case (Cons a ns)
  show ?case
  proof (cases "ns = []")
    case True
    with Cons.prems show ?thesis by simp
  next
    case False
    then have "a \<noteq> last ns" using Cons.prems(3) by auto
    with False Cons.prems(4) [of a] have "m_next (pool' ! a) = m_next (pool ! a)" by simp
    moreover have "links pool' (m_next (pool ! a)) (ns @ [n])"
      by (rule Cons.IH) (use False Cons.prems in simp_all)
    ultimately show ?thesis using Cons.prems(1) by simp
  qed
qed simp

lemma links_nth_less: "links pool h ns \<Longrightarrow> distinct ns \<Longrightarrow> set ns \<subseteq> {..<128} \<Longrightarrow> length ns \<le> 128"
  using card_mono [of "{..<128}" "set ns"] by (simp add: distinct_card)

lemma box_ok_entries:
  assumes "box_ok s p ns"
  shows "entries p s = ns"
  using assms chain_links links_nth_less by (auto simp: box_ok_def entries_def)

lemma linkedD: "linked s q \<Longrightarrow> p < 64 \<Longrightarrow> box_ok s p (q p)"
  by (simp add: linked_def)

lemma mailbox_eq: "linked s q \<Longrightarrow> p < 64 \<Longrightarrow> mailbox s p = map (\<lambda>i. letter_of (msg_at i s)) (q p)"
  by (simp add: mailbox_def box_ok_entries [OF linkedD])

section \<open>Frames\<close>

lemma set_msg_frame [simp]:
  "proc_at p (set_msg i f s) = proc_at p s" "proc_table (set_msg i f s) = proc_table s"
  "current_proc (set_msg i f s) = current_proc s"
  "next_pid (set_msg i f s) = next_pid s" "mem (set_msg i f s) = mem s" "iflag (set_msg i f s) = iflag s"
  "msg_used (set_msg i f s) = msg_used s" "length (msg_pool (set_msg i f s)) = length (msg_pool s)"
  "ticks (set_msg i f s) = ticks s" "con (set_msg i f s) = con s" "used p (set_msg i f s) = used p s"
  by (simp_all add: set_msg_def proc_at_def used_def)

lemma proc_at_msg_used [simp]: "proc_at p (s\<lparr>msg_used := u\<rparr>) = proc_at p s"
  by (simp add: proc_at_def)

lemma msg_at_set_msg:
  "msg_at j (set_msg i f s) = (if j = i \<and> i < length (msg_pool s) then f (msg_at i s) else msg_at j s)"
  by (auto simp: msg_at_def set_msg_def nth_list_update list_update_beyond)

lemma set_proc_ipc_frame [simp]:
  "msg_pool (set_proc i g s) = msg_pool s" "msg_used (set_proc i g s) = msg_used s"
  "msg_at j (set_proc i g s) = msg_at j s"
  by (simp_all add: set_proc_def msg_at_def)

lemma iflag_ipc_frame [simp]:
  "msg_pool (cli s) = msg_pool s" "msg_used (cli s) = msg_used s" "proc_at p (cli s) = proc_at p s"
  "proc_table (cli s) = proc_table s" "current_proc (cli s) = current_proc s" "next_pid (cli s) = next_pid s"
  "mem (cli s) = mem s" "msg_at i (cli s) = msg_at i s" "used p (cli s) = used p s"
  "msg_pool (restore_flags f s) = msg_pool s" "msg_used (restore_flags f s) = msg_used s"
  "proc_at p (restore_flags f s) = proc_at p s" "proc_table (restore_flags f s) = proc_table s"
  "current_proc (restore_flags f s) = current_proc s" "next_pid (restore_flags f s) = next_pid s"
  "mem (restore_flags f s) = mem s" "msg_at i (restore_flags f s) = msg_at i s"
  "used p (restore_flags f s) = used p s" "ticks (cli s) = ticks s" "ticks (restore_flags f s) = ticks s"
  by (simp_all add: cli_def restore_flags_def proc_at_def msg_at_def used_def)

lemma restore_cli: "restore_flags (iflag s) (cli s) = s"
  by (simp add: cli_def restore_flags_def)

lemma box_ok_cong:
  assumes "\<And>n. n \<in> set ns \<Longrightarrow> m_next (msg_at n t) = m_next (msg_at n s)"
    "msg_queue (proc_at p t) = msg_queue (proc_at p s)" "msg_tail (proc_at p t) = msg_tail (proc_at p s)"
    "msg_count (proc_at p t) = msg_count (proc_at p s)" "used p t = used p s"
  shows "box_ok t p ns = box_ok s p ns"
  using links_cong [of ns "msg_pool t" "msg_pool s"] assms by (simp add: box_ok_def msg_at_def)

section \<open>Sending\<close>

text \<open>\<^verbatim>\<open>enqueue\<close> appends a free entry to one queue and leaves the others.\<close>

lemma enqueue_proc:
  assumes "t < length (proc_table s)"
  shows "proc_at p (enqueue t m s) = (if p = t then (proc_at t s)\<lparr>
      msg_queue := (if msg_tail (proc_at t s) = None then Some m else msg_queue (proc_at t s)),
      msg_tail := Some m, msg_count := msg_count (proc_at t s) + 1\<rparr> else proc_at p s)"
  using assms by (cases "msg_tail (proc_at t s)") (auto simp: enqueue_def Let_def proc_at_set_proc)

lemma enqueue_next:
  assumes "length (msg_pool s) = 128" "m < 128" "msg_tail (proc_at t s) \<noteq> Some m"
    "\<And>l. msg_tail (proc_at t s) = Some l \<Longrightarrow> l < 128"
  shows "m_next (msg_at i (enqueue t m s)) = (if i = m then None
      else if msg_tail (proc_at t s) = Some i then Some m else m_next (msg_at i s))"
  using assms by (cases "msg_tail (proc_at t s)") (auto simp: enqueue_def Let_def msg_at_set_msg)

lemma enqueue_frame [simp]:
  "current_proc (enqueue t m s) = current_proc s" "next_pid (enqueue t m s) = next_pid s"
  "mem (enqueue t m s) = mem s" "iflag (enqueue t m s) = iflag s" "msg_used (enqueue t m s) = msg_used s"
  "length (proc_table (enqueue t m s)) = length (proc_table s)" "ticks (enqueue t m s) = ticks s"
  "length (msg_pool (enqueue t m s)) = length (msg_pool s)"
  by (simp_all add: enqueue_def Let_def split: option.split)

lemma enqueue_letter:
  "m_from (msg_at i (enqueue t m s)) = m_from (msg_at i s)" "m_type (msg_at i (enqueue t m s)) = m_type (msg_at i s)"
  "m_len (msg_at i (enqueue t m s)) = m_len (msg_at i s)" "m_data (msg_at i (enqueue t m s)) = m_data (msg_at i s)"
  by (simp_all add: enqueue_def Let_def msg_at_set_msg split: option.split)

lemma enqueue_linked:
  assumes q: "linked s q" and t: "t < 64" "used t s" and m: "m < 128" "\<And>p. p < 64 \<Longrightarrow> m \<notin> set (q p)"
    and len: "length (msg_pool s) = 128" "length (proc_table s) = 64"
  shows "linked (enqueue t m s) (q(t := q t @ [m]))"
proof -
  let ?s = "enqueue t m s"
  have tl: "t < length (proc_table s)" using t len by simp
  note pr = enqueue_proc [OF tl]
  have ok: "box_ok s t (q t)" using linkedD [OF q t(1)] .
  have tail: "msg_tail (proc_at t s) = (if q t = [] then None else Some (last (q t)))"
    and lk: "links (msg_pool s) (msg_queue (proc_at t s)) (q t)" and sub: "set (q t) \<subseteq> {..<128}"
    and dist: "distinct (q t)" and cnt: "msg_count (proc_at t s) = of_nat (length (q t))"
    using ok by (auto simp: box_ok_def)
  have lst: "last (q t) < 128" "last (q t) \<noteq> m" if "q t \<noteq> []"
    using last_in_set [OF that] sub m(2) [OF t(1)] by auto
  have nx: "m_next (msg_at i ?s) = (if i = m then None else if q t \<noteq> [] \<and> i = last (q t) then Some m
      else m_next (msg_at i s))" for i
    using enqueue_next [OF len(1) m(1), of t i] tail lst by (auto split: if_splits)
  have "links (msg_pool ?s) (msg_queue (proc_at t ?s)) (q t @ [m])"
  proof (cases "q t = []")
    case True
    then show ?thesis using pr [of t] tail nx [of m] by (simp add: msg_at_def)
  next
    case False
    have "links (msg_pool ?s) (msg_queue (proc_at t s)) (q t @ [m])"
    proof (rule links_snoc [OF lk False dist])
      show "m_next (msg_pool ?s ! i) = m_next (msg_pool s ! i)" if "i \<in> set (q t)" "i \<noteq> last (q t)" for i
        using nx [of i] that m(2) [OF t(1)] by (auto simp: msg_at_def)
      show "m_next (msg_pool ?s ! last (q t)) = Some m"
        using nx [of "last (q t)"] False m(2) [OF t(1)] last_in_set [of "q t"] by (auto simp: msg_at_def)
      show "m_next (msg_pool ?s ! m) = None" using nx [of m] by (simp add: msg_at_def)
    qed
    then show ?thesis using pr [of t] tail False by simp
  qed
  then have "box_ok ?s t (q t @ [m])"
    using pr [of t m] cnt dist sub m(1) m(2) [OF t(1)] t(2) by (auto simp: box_ok_def used_def)
  moreover have "box_ok ?s p (q p)" if "p < 64" "p \<noteq> t" for p
  proof -
    have "m_next (msg_at n ?s) = m_next (msg_at n s)" if n: "n \<in> set (q p)" for n
    proof -
      have "n \<noteq> m" using n m(2) [OF \<open>p < 64\<close>] by auto
      moreover have "n \<notin> set (q t)" using n q that \<open>p < 64\<close> \<open>p \<noteq> t\<close> t(1) unfolding linked_def by blast
      ultimately show ?thesis using nx [of n] last_in_set [of "q t"] by auto
    qed
    then show ?thesis
      using linkedD [OF q that(1)] box_ok_cong [of "q p" ?s s p] pr [of p] that(2) by (simp add: used_def)
  qed
  moreover have "set ((q(t := q t @ [m])) p) \<inter> set ((q(t := q t @ [m])) r) = {}"
    if "p < 64" "r < 64" "p \<noteq> r" for p r
  proof -
    have "set (q p) \<inter> set (q r) = {}" using q that unfolding linked_def by blast
    then show ?thesis using m(2) [OF that(1)] m(2) [OF that(2)] that(3) by auto
  qed
  ultimately show ?thesis unfolding linked_def by simp
qed

lemma msg_alloc_cases:
  assumes "pool_inv s" "owned s q"
  obtains (full) "msg_alloc s = (None, s)" "\<forall>i<128. msg_used s ! i"
  | (entry) m where "m < 128" "\<not> msg_used s ! m" "\<And>p. p < 64 \<Longrightarrow> m \<notin> set (q p)"
      "msg_alloc s = (Some m, set_msg m (\<lambda>x. x\<lparr>m_next := None\<rparr>) (s\<lparr>msg_used := (msg_used s)[m := True]\<rparr>))"
proof (cases "find (\<lambda>i. \<not> msg_used s ! i) [0..<IPC_POOL_SIZE]")
  case None
  then have "\<forall>i<128. msg_used s ! i" by (auto simp: find_None_iff)
  with None show thesis using full by (simp add: msg_alloc_def)
next
  case (Some m)
  then have m: "m < 128" "\<not> msg_used s ! m" by (auto simp: find_Some_iff)
  then have "m \<notin> set (q p)" if "p < 64" for p using assms(2) that unfolding owned_def by blast
  with m Some show thesis using entry by (simp add: msg_alloc_def)
qed

lemma proc_find_Some:
  assumes "proc_find d s = Some t"
  shows "t < 64" "used t s" "pid (proc_at t s) = d"
  using assms unfolding proc_find_def find_Some_iff used_def by auto

text \<open>The letter a send leaves in the queue; without data the entry's old bytes.\<close>

definition sent_letter :: "u32 \<Rightarrow> u64 \<Rightarrow> u32 \<Rightarrow> nat \<Rightarrow> 'a ipc_state_scheme \<Rightarrow> letter" where
  "sent_letter ty data len m s = (cur_pid s, ty,
     if data \<noteq> 0 then read_bytes (mem s) data (unat len) else take (unat len) (m_data (msg_at m s)))"

definition filled :: "u32 \<Rightarrow> u64 \<Rightarrow> u32 \<Rightarrow> 'a ipc_state_scheme \<Rightarrow> ipc_message \<Rightarrow> ipc_message" where
  "filled ty data len s x = x\<lparr>m_from := cur_pid s, m_type := ty, m_len := len,
     m_data := (if len > 0 \<and> data \<noteq> 0 then read_bytes (mem s) data (unat len) @ drop (unat len) (m_data x)
                else m_data x), m_next := None\<rparr>"

text \<open>The state of a successful send: entry \<open>m\<close> taken and filled, linked to \<open>t\<close>, \<open>t\<close> woken.\<close>

definition delivered ::
  "nat \<Rightarrow> nat \<Rightarrow> u32 \<Rightarrow> u64 \<Rightarrow> u32 \<Rightarrow> 'a ipc_state_scheme \<Rightarrow> 'a ipc_state_scheme" where
  "delivered t m ty data len s =
     proc_wakeup (Some t) (enqueue t m (set_msg m (filled ty data len s) (s\<lparr>msg_used := (msg_used s)[m := True]\<rparr>)))"

lemma set_msg_set_msg: "m < length (msg_pool s) \<Longrightarrow> set_msg m g (set_msg m f s) = set_msg m (g \<circ> f) s"
  by (simp add: set_msg_def)

lemma proc_wakeup_awake:
  "state (proc_at t s) \<noteq> PROC_SLEEPING \<Longrightarrow> proc_wakeup (Some t) s = s"
  by (simp add: proc_wakeup_def wakeup_def set_proc_def proc_at_def)

lemma cli_commute:
  "enqueue t m (cli s) = cli (enqueue t m s)" "proc_wakeup (Some t) (cli s) = cli (proc_wakeup (Some t) s)"
  by (auto simp: enqueue_def cli_def set_msg_def set_proc_def proc_at_def proc_wakeup_def Let_def split: option.split)

lemma cur_pid_frame [simp]:
  "cur_pid (set_msg i f s) = cur_pid s" "cur_pid (s\<lparr>msg_used := u\<rparr>) = cur_pid s"
  by (simp_all add: cur_pid_def proc_at_def split: option.split)

lemma ipc_send_cases:
  fixes s :: "'a ipc_state_scheme"
  assumes inv: "pool_inv s" "owned s q"
  obtains (no_target) "proc_find dst s = None" "ipc_send dst ty data len s = (- ESRCH, s)"
  | (too_long) t where "proc_find dst s = Some t" "len > IPC_MSG_MAX" "ipc_send dst ty data len s = (- EINVAL, s)"
  | (full) t where "proc_find dst s = Some t" "len \<le> IPC_MSG_MAX" "\<forall>i<128. msg_used s ! i"
      "ipc_send dst ty data len s = (- ENOMEM, s)"
  | (sent) t m where "proc_find dst s = Some t" "len \<le> IPC_MSG_MAX" "m < 128" "\<not> msg_used s ! m"
      "\<And>p. p < 64 \<Longrightarrow> m \<notin> set (q p)" "ipc_send dst ty data len s = (0, delivered t m ty data len s)"
proof (cases "proc_find dst s")
  case None
  then show thesis using no_target by (simp add: ipc_send_def)
next
  case (Some t)
  show thesis
  proof (cases "len > IPC_MSG_MAX")
    case True
    then show thesis using too_long Some by (simp add: ipc_send_def)
  next
    case False
    then have le: "len \<le> IPC_MSG_MAX" by simp
    from inv show thesis
    proof (cases rule: msg_alloc_cases)
      case full2: full
      have "ipc_send dst ty data len s = (- ENOMEM, s)"
        using Some False full2(1) by (simp add: ipc_send_def)
      then show thesis using full Some le full2(2) by blast
    next
      case (entry m)
      let ?u = "s\<lparr>msg_used := (msg_used s)[m := True]\<rparr>"
      let ?s1 = "set_msg m (\<lambda>x. x\<lparr>m_next := None\<rparr>) ?u"
      let ?s2 = "set_msg m (\<lambda>x. x\<lparr>m_from := cur_pid ?s1, m_type := ty, m_len := len\<rparr>) ?s1"
      let ?s3 = "if len > 0 \<and> data \<noteq> 0
        then set_msg m (\<lambda>x. x\<lparr>m_data := read_bytes (mem ?s2) data (unat len) @ drop (unat len) (m_data x)\<rparr>) ?s2
        else ?s2"
      have ml: "m < length (msg_pool s)" using entry(1) inv(1) by (simp add: pool_inv_def)
      have cp: "cur_pid ?s1 = cur_pid s" "mem ?s2 = mem s" by simp_all
      have s3: "?s3 = set_msg m (filled ty data len s) ?u"
      proof (cases "len > 0 \<and> data \<noteq> 0")
        case True
        then have "(\<lambda>x. x\<lparr>m_data := read_bytes (mem s) data (unat len) @ drop (unat len) (m_data x)\<rparr>) \<circ>
            ((\<lambda>x. x\<lparr>m_from := cur_pid s, m_type := ty, m_len := len\<rparr>) \<circ> (\<lambda>x. x\<lparr>m_next := None\<rparr>))
          = filled ty data len s" by (simp add: fun_eq_iff filled_def)
        then show ?thesis unfolding cp using True ml by (simp add: set_msg_set_msg)
      next
        case False
        then have "(\<lambda>x. x\<lparr>m_from := cur_pid s, m_type := ty, m_len := len\<rparr>) \<circ> (\<lambda>x. x\<lparr>m_next := None\<rparr>)
          = filled ty data len s" by (simp only: fun_eq_iff filled_def if_False) simp
        then show ?thesis unfolding cp if_not_P [OF False] using ml by (simp add: set_msg_set_msg)
      qed
      have "(if state (proc_at t v) = PROC_SLEEPING then proc_wakeup (Some t) v else v) = proc_wakeup (Some t) v"
        for v :: "'a ipc_state_scheme" by (simp add: proc_wakeup_awake)
      then have "ipc_send dst ty data len s
        = (0, restore_flags (iflag ?s3) (proc_wakeup (Some t) (enqueue t m (cli ?s3))))"
        using Some False entry(4) by (simp only: ipc_send_def option.case prod.case Let_def if_False)
      also have "\<dots> = (0, delivered t m ty data len s)"
      proof -
        have "iflag ?s3 = iflag (proc_wakeup (Some t) (enqueue t m ?s3))"
          by (simp add: proc_wakeup_def)
        then show ?thesis unfolding cli_commute delivered_def s3 by (simp add: restore_cli)
      qed
      finally show thesis using sent Some le entry(1-3) by blast
    qed
  qed
qed

text \<open>What a successful send changes.\<close>

lemma proc_wakeup_ipc_frame [simp]:
  "msg_pool (proc_wakeup w s) = msg_pool s" "msg_used (proc_wakeup w s) = msg_used s"
  "msg_at i (proc_wakeup w s) = msg_at i s" "msg_queue (proc_at p (proc_wakeup w s)) = msg_queue (proc_at p s)"
  "msg_tail (proc_at p (proc_wakeup w s)) = msg_tail (proc_at p s)"
  "msg_count (proc_at p (proc_wakeup w s)) = msg_count (proc_at p s)" "used p (proc_wakeup w s) = used p s"
  by (auto simp: proc_wakeup_def proc_at_set_proc wakeup_def used_def split: option.split)

lemma linked_cong:
  assumes "linked s q" "\<And>p. p < 64 \<Longrightarrow> box_ok t p (q p) = box_ok s p (q p)"
  shows "linked t q"
  using assms unfolding linked_def by blast

lemma delivered_spec:
  fixes s :: "'a ipc_state_scheme" and ty :: u32 and data :: u64
  assumes inv: "pool_inv s" "queues s q" "length (proc_table s) = 64"
    and t: "t < 64" "used t s" and m: "m < 128" "\<And>p. p < 64 \<Longrightarrow> m \<notin> set (q p)"
    and len: "len \<le> IPC_MSG_MAX"
  defines "s' \<equiv> delivered t m ty data len s"
  shows "queues s' (q(t := q t @ [m]))" "pool_inv s'"
    "p < 64 \<Longrightarrow> mailbox s' p = (if p = t then mailbox s t @ [sent_letter ty data len m s] else mailbox s p)"
proof -
  define u where "u = set_msg m (filled ty data len s) (s\<lparr>msg_used := (msg_used s)[m := True]\<rparr>)"
  have s': "s' = proc_wakeup (Some t) (enqueue t m u)" by (simp add: s'_def delivered_def u_def)
  have lp: "length (msg_pool s) = 128" "length (msg_used s) = 128" using inv(1) by (auto simp: pool_inv_def)
  have at: "msg_at i u = (if i = m then filled ty data len s (msg_at m s) else msg_at i s)" for i
  proof -
    have "msg_at j (s\<lparr>msg_used := b\<rparr>) = msg_at j s" for j b by (simp add: msg_at_def)
    then show ?thesis using lp m(1) by (simp add: u_def msg_at_set_msg)
  qed
  have pr: "proc_at p u = proc_at p s" "used p u = used p s" for p by (simp_all add: u_def proc_at_def used_def)
  have lu: "length (msg_pool u) = 128" "length (proc_table u) = 64" using lp inv(3) by (simp_all add: u_def)
  have lk: "linked s q" using inv(2) by (simp add: queues_def)
  have bu: "box_ok u p (q p) = box_ok s p (q p)" if "p < 64" for p
  proof (rule box_ok_cong)
    show "m_next (msg_at n u) = m_next (msg_at n s)" if "n \<in> set (q p)" for n
      using at [of n] m(2) [OF \<open>p < 64\<close>] that by auto
  qed (simp_all add: pr)
  have "linked u q" by (rule linked_cong [OF lk bu])
  then have "linked (enqueue t m u) (q(t := q t @ [m]))"
    by (rule enqueue_linked) (use t m lu pr in simp_all)
  then have l': "linked s' (q(t := q t @ [m]))"
    by (rule linked_cong) (unfold s', rule box_ok_cong, simp_all)
  have "msg_used s' = (msg_used s)[m := True]" by (simp add: s' u_def)
  then have us: "msg_used s' ! i \<longleftrightarrow> i = m \<or> msg_used s ! i" if "i < 128" for i
    using lp(2) that m(1) by (auto simp: nth_list_update)
  moreover have "(\<exists>p<64. i \<in> set ((q(t := q t @ [m])) p)) \<longleftrightarrow> i = m \<or> (\<exists>p<64. i \<in> set (q p))" for i
    using t(1) by auto
  moreover have "owned s q" using inv(2) by (simp add: queues_def)
  ultimately have "owned s' (q(t := q t @ [m]))" unfolding owned_def by simp
  with l' show "queues s' (q(t := q t @ [m]))" by (simp add: queues_def)
  have let': "letter_of (msg_at i s') = letter_of (msg_at i u)" "m_data (msg_at i s') = m_data (msg_at i u)"
    "m_len (msg_at i s') = m_len (msg_at i u)" for i
    by (simp_all add: s' letter_of_def enqueue_letter)
  have dm: "length (m_data (msg_at m s)) = 256" using inv(1) m(1) by (simp add: pool_inv_def)
  have l256: "unat len \<le> 256" using len by (simp add: word_le_nat_alt)
  show "pool_inv s'"
    unfolding pool_inv_def let'
  proof (intro conjI allI impI)
    fix i :: nat assume "i < 128"
    then have "length (m_data (msg_at i s)) = 256" "m_len (msg_at i s) \<le> IPC_MSG_MAX"
      using inv(1) by (auto simp: pool_inv_def)
    then show "length (m_data (msg_at i u)) = 256" "m_len (msg_at i u) \<le> IPC_MSG_MAX"
      using dm l256 len by (auto simp: at filled_def)
  qed (use lp lu in \<open>simp_all add: s' u_def\<close>)
  have lm: "letter_of (msg_at m u) = sent_letter ty data len m s"
    using l256 by (cases "len = 0") (auto simp: at letter_of_def filled_def sent_letter_def word_gt_0 read_bytes_def)
  show "mailbox s' p = (if p = t then mailbox s t @ [sent_letter ty data len m s] else mailbox s p)" if "p < 64"
  proof -
    have "letter_of (msg_at i s') = letter_of (msg_at i s)" if "i \<in> set (q p)" for i
      using at [of i] m(2) [OF \<open>p < 64\<close>] that let'(1) [of i] by auto
    then have "map (\<lambda>i. letter_of (msg_at i s')) (q p) = mailbox s p" using mailbox_eq [OF lk that] by simp
    then show ?thesis
      using mailbox_eq [OF l' that] lm let'(1) [of m] by auto
  qed
qed

section \<open>The copy to the receiver\<close>

lemma off_diff:
  fixes a :: u64
  assumes "k < 2 ^ 32" "j < 2 ^ 32" "n \<le> 2 ^ 32"
  shows "unat ((a + of_nat k) - (a + of_nat j)) < n \<longleftrightarrow> j \<le> k \<and> k < j + n"
    "j \<le> k \<Longrightarrow> unat ((a + of_nat k) - (a + of_nat j)) = k - j"
proof -
  have d: "(a + of_nat k) - (a + of_nat j) = of_nat k - of_nat j" by simp
  show eq: "unat ((a + of_nat k) - (a + of_nat j)) = k - j" if "j \<le> k"
  proof -
    have "of_nat k - of_nat j = (of_nat (k - j) :: u64)" using that by (simp add: of_nat_diff)
    then show ?thesis using assms(1) unfolding d by (simp add: unat_of_nat)
  qed
  show "unat ((a + of_nat k) - (a + of_nat j)) < n \<longleftrightarrow> j \<le> k \<and> k < j + n"
  proof (cases "j \<le> k")
    case True
    then show ?thesis using eq by auto
  next
    case False
    have uk: "unat (of_nat k :: u64) = k" "unat (of_nat j :: u64) = j" using assms by (simp_all add: unat_of_nat)
    have "unat (of_nat k - of_nat j :: u64) = k + 2 ^ 64 - j"
      using False by (simp only: unat_sub_if' uk) simp
    then have "n \<le> unat ((a + of_nat k) - (a + of_nat j))" unfolding d using assms by simp
    with False show ?thesis by auto
  qed
qed

lemma store_le_off:
  assumes "k < 2 ^ 32" "j < 2 ^ 32" "n \<le> 2 ^ 32"
  shows "store_le n m (a + of_nat j) v (a + of_nat k) =
    (if j \<le> k \<and> k < j + n then ucast (drop_bit (8 * (k - j)) v) else m (a + of_nat k))"
  using off_diff [OF assms, of a] assms(3) by (simp add: store_le_apply)

lemma write_bytes_off:
  assumes "k < 2 ^ 32" "j < 2 ^ 32" "length bs \<le> 2 ^ 32"
  shows "write_bytes m (a + of_nat j) bs (a + of_nat k) =
    (if j \<le> k \<and> k < j + length bs then bs ! (k - j) else m (a + of_nat k))"
  using off_diff [OF assms, of a] assms(3) by (simp add: write_bytes_apply)

lemma load32_bytes:
  assumes "\<And>i. i < 4 \<Longrightarrow> m (a + of_nat i) = ucast (drop_bit (8 * i) v)"
  shows "load32 m a = v"
proof (rule bit_eqI)
  fix i :: nat
  assume "possible_bit TYPE(32 word) i"
  then have i: "i < 32" by simp
  then have "i div 8 < 4" by auto
  then have "bit (m (a + of_nat (i div 8))) (i mod 8) \<longleftrightarrow> bit v (8 * (i div 8) + i mod 8)"
    using assms [of "i div 8"] by (simp add: bit_simps)
  then show "bit (load32 m a) i = bit v i"
    using i by (simp add: load32_def bit_simps bit_load_le)
qed

text \<open>The bytes of the receiver's structure.\<close>

lemma copy_out_byte:
  assumes "k < 268" "m_len x \<le> IPC_MSG_MAX" "length (m_data x) = 256"
  shows "copy_out out x m (out + of_nat k) =
    (if k < 4 then ucast (drop_bit (8 * k) (m_from x))
     else if k < 8 then ucast (drop_bit (8 * (k - 4)) (m_type x))
     else if k < 12 then ucast (drop_bit (8 * (k - 8)) (m_len x))
     else if k < 12 + unat (m_len x) then m_data x ! (k - 12) else m (out + of_nat k))"
proof -
  have l: "unat (m_len x) \<le> 256" using assms(2) by (simp add: word_le_nat_alt)
  then have lt: "length (take (unat (m_len x)) (m_data x)) = unat (m_len x)" using assms(3) by simp
  have u: "ucast (drop_bit i (ucast v :: u64)) = (ucast (drop_bit i v) :: u8)" for i and v :: u32
    by (rule bit_eqI) (auto simp: bit_simps dest: bit_imp_le_length)
  have k: "k < 2 ^ 32" using assms(1) by simp
  note st = store_le_off [OF k, where a = out]
  have st0: "store_le 4 m' out v (out + of_nat k) = (if k < 4 then ucast (drop_bit (8 * k) v) else m' (out + of_nat k))" for m' v
    using st [of 0 4 m' v] by simp
  have st4: "store_le 4 m' (out + 4) v (out + of_nat k) =
      (if 4 \<le> k \<and> k < 8 then ucast (drop_bit (8 * (k - 4)) v) else m' (out + of_nat k))" for m' v
    using st [of 4 4 m' v] by simp
  have st8: "store_le 4 m' (out + 8) v (out + of_nat k) =
      (if 8 \<le> k \<and> k < 12 then ucast (drop_bit (8 * (k - 8)) v) else m' (out + of_nat k))" for m' v
    using st [of 8 4 m' v] by simp
  have st272: "store_le 8 m' (out + 272) v (out + of_nat k) = m' (out + of_nat k)" for m' v
    using st [of 272 8 m' v] assms(1) by simp
  have wr: "write_bytes m' (out + 12) (take (unat (m_len x)) (m_data x)) (out + of_nat k) =
      (if 12 \<le> k \<and> k < 12 + unat (m_len x) then m_data x ! (k - 12) else m' (out + of_nat k))" for m'
    using write_bytes_off [OF k, of 12 "take (unat (m_len x)) (m_data x)" m' out] lt l by auto
  show ?thesis
    by (simp add: copy_out_def Let_def store64_def store32_def st272 wr st8 st4 st0 u)
qed

lemma letter_in_copy_out:
  assumes "m_len x \<le> IPC_MSG_MAX" "length (m_data x) = 256"
  shows "letter_in (copy_out out x m) out = letter_of x"
proof -
  note b = copy_out_byte [OF _ assms]
  have l: "unat (m_len x) \<le> 256" using assms(1) by (simp add: word_le_nat_alt)
  have "load32 (copy_out out x m) out = m_from x"
    by (rule load32_bytes) (simp add: b)
  moreover have "load32 (copy_out out x m) (out + 4) = m_type x"
  proof (rule load32_bytes)
    fix i :: nat assume i: "i < 4"
    have "out + 4 + of_nat i = out + of_nat (4 + i)" by simp
    then show "copy_out out x m (out + 4 + of_nat i) = ucast (drop_bit (8 * i) (m_type x))"
      using b [of "4 + i" out m] i by (simp only:) simp
  qed
  moreover have ln: "load32 (copy_out out x m) (out + 8) = m_len x"
  proof (rule load32_bytes)
    fix i :: nat assume i: "i < 4"
    have "out + 8 + of_nat i = out + of_nat (8 + i)" by simp
    then show "copy_out out x m (out + 8 + of_nat i) = ucast (drop_bit (8 * i) (m_len x))"
      using b [of "8 + i" out m] i by (simp only:) simp
  qed
  moreover have "read_bytes (copy_out out x m) (out + 12) (unat (m_len x)) = take (unat (m_len x)) (m_data x)"
  proof (rule nth_equalityI)
    fix i assume "i < length (read_bytes (copy_out out x m) (out + 12) (unat (m_len x)))"
    then have i: "i < unat (m_len x)" by simp
    have "out + 12 + of_nat i = out + of_nat (12 + i)" by simp
    then show "read_bytes (copy_out out x m) (out + 12) (unat (m_len x)) ! i = take (unat (m_len x)) (m_data x) ! i"
      using b [of "12 + i" out m] i l by (simp only: nth_read_bytes) simp
  qed (use l assms(2) in simp)
  ultimately show ?thesis by (simp add: letter_in_def letter_of_def)
qed

section \<open>Receiving\<close>

lemma dequeue_proc:
  assumes "c < length (proc_table s)"
  shows "proc_at p (dequeue c m s) = (if p = c then (proc_at c s)\<lparr>
      msg_queue := m_next (msg_at m s),
      msg_tail := (if m_next (msg_at m s) = None then None else msg_tail (proc_at c s)),
      msg_count := msg_count (proc_at c s) - 1\<rparr> else proc_at p s)"
  using assms by (simp add: dequeue_def Let_def proc_at_set_proc)

lemma dequeue_frame [simp]:
  "current_proc (dequeue c m s) = current_proc s" "next_pid (dequeue c m s) = next_pid s"
  "mem (dequeue c m s) = mem s" "msg_used (dequeue c m s) = msg_used s" "msg_pool (dequeue c m s) = msg_pool s"
  "length (proc_table (dequeue c m s)) = length (proc_table s)" "msg_at i (dequeue c m s) = msg_at i s"
  "ticks (dequeue c m s) = ticks s"
  by (simp_all add: dequeue_def Let_def)

lemma recv_empty:
  assumes "linked s q" "c < 64" "q c = []"
  shows "ipc_recv_pass c out s = Inr (proc_sleep 10 s)"
proof -
  have "msg_queue (proc_at c s) = None" using linkedD [OF assms(1,2)] assms(3) by (simp add: box_ok_def)
  then show ?thesis by (simp add: ipc_recv_pass_def Let_def restore_cli)
qed

lemma recv_head:
  assumes inv: "pool_inv s" "queues s q" "length (proc_table s) = 64" and c: "c < 64" "q c = m # ns"
  obtains s' where "ipc_recv_pass c out s = Inl s'" "queues s' (q(c := ns))" "pool_inv s'"
    "mem s' = copy_out out (msg_at m s) (mem s)" "letter_in (mem s') out = letter_of (msg_at m s)"
    "\<And>p. p < 64 \<Longrightarrow> mailbox s' p = (if p = c then tl (mailbox s c) else mailbox s p)"
    "mailbox s c = letter_of (msg_at m s) # tl (mailbox s c)"
    "current_proc s' = current_proc s" "next_pid s' = next_pid s" "ticks s' = ticks s"
    "length (proc_table s') = length (proc_table s)"
    "\<And>p. state (proc_at p s') = state (proc_at p s) \<and> pid (proc_at p s') = pid (proc_at p s) \<and>
       sleep_ticks (proc_at p s') = sleep_ticks (proc_at p s)"
proof -
  have lk: "linked s q" and ow: "owned s q" using inv(2) by (auto simp: queues_def)
  have ok: "box_ok s c (m # ns)" using linkedD [OF lk c(1)] c(2) by simp
  have h: "msg_queue (proc_at c s) = Some m" and m: "m < 128" "m \<notin> set ns"
    and lns: "links (msg_pool s) (m_next (msg_at m s)) ns" and us: "used c s"
    using ok by (auto simp: box_ok_def msg_at_def)
  define s' where "s' = restore_flags (iflag s) (msg_free (Some m)
    ((dequeue c m (cli s))\<lparr>mem := copy_out out (msg_at m s) (mem s)\<rparr>))"
  have pass: "ipc_recv_pass c out s = Inl s'"
    using h by (simp add: ipc_recv_pass_def Let_def s'_def)
  have cl: "c < length (proc_table (cli s))" using c(1) inv(3) by simp
  have at: "proc_at p s' = proc_at p (dequeue c m (cli s))" for p
    by (simp add: s'_def msg_free_def proc_at_def restore_flags_def)
  have pool: "msg_pool s' = msg_pool s" "msg_used s' = (msg_used s)[m := False]"
    using m(1) by (simp_all add: s'_def msg_free_def)
  have ma: "msg_at i s' = msg_at i s" for i by (simp add: msg_at_def pool)
  have mem': "mem s' = copy_out out (msg_at m s) (mem s)"
    by (simp add: s'_def msg_free_def restore_flags_def)
  note pr = dequeue_proc [OF cl]
  have nx: "m_next (msg_at m s) = None \<longleftrightarrow> ns = []" using lns by (cases ns) auto
  have "box_ok s' c ns"
    using ok lns nx pr [of c m] at [of c] by (auto simp: box_ok_def pool used_def)
  moreover have "box_ok s' p (q p) = box_ok s p (q p)" if "p \<noteq> c" for p
    using that pr [of p m] at [of p] by (intro box_ok_cong) (simp_all add: ma used_def)
  moreover have "set ((q(c := ns)) p) \<inter> set ((q(c := ns)) r) = {}" if "p < 64" "r < 64" "p \<noteq> r" for p r
  proof -
    have "set (q p) \<inter> set (q r) = {}" using lk that unfolding linked_def by blast
    then show ?thesis using c(2) that(3) by (auto split: if_splits)
  qed
  ultimately have lk': "linked s' (q(c := ns))" using lk unfolding linked_def by simp
  have others: "m \<notin> set (q p)" if "p < 64" "p \<noteq> c" for p
    using lk c that unfolding linked_def by (metis disjoint_iff list.set_intros(1))
  have "(\<exists>p<64. i \<in> set ((q(c := ns)) p)) \<longleftrightarrow> i \<noteq> m \<and> (\<exists>p<64. i \<in> set (q p))" for i
  proof (cases "i = m")
    case True
    then show ?thesis using others m(2) by auto
  next
    case False
    then have "i \<in> set ((q(c := ns)) p) \<longleftrightarrow> i \<in> set (q p)" for p using c(2) by auto
    with False show ?thesis by simp
  qed
  moreover have "msg_used s' ! i \<longleftrightarrow> i \<noteq> m \<and> msg_used s ! i" if "i < 128" for i
    using m(1) that inv(1) by (auto simp: pool pool_inv_def nth_list_update)
  ultimately have "owned s' (q(c := ns))" using ow unfolding owned_def by simp
  with lk' have q': "queues s' (q(c := ns))" by (simp add: queues_def)
  have pi: "pool_inv s'" using inv(1) by (simp add: pool_inv_def pool ma)
  have x: "m_len (msg_at m s) \<le> IPC_MSG_MAX" "length (m_data (msg_at m s)) = 256"
    using inv(1) m(1) by (auto simp: pool_inv_def)
  have box: "mailbox s c = letter_of (msg_at m s) # map (\<lambda>i. letter_of (msg_at i s)) ns"
    using mailbox_eq [OF lk c(1)] c(2) by simp
  show thesis
  proof (rule that [OF pass q' pi mem'])
    show "letter_in (mem s') out = letter_of (msg_at m s)" unfolding mem' by (rule letter_in_copy_out [OF x])
    show "mailbox s c = letter_of (msg_at m s) # tl (mailbox s c)" using box by simp
    show "mailbox s' p = (if p = c then tl (mailbox s c) else mailbox s p)" if "p < 64" for p
      using mailbox_eq [OF lk' that] mailbox_eq [OF lk that] box by (simp add: ma)
    show "state (proc_at p s') = state (proc_at p s) \<and> pid (proc_at p s') = pid (proc_at p s) \<and>
       sleep_ticks (proc_at p s') = sleep_ticks (proc_at p s)" for p
      using at [of p] pr [of p m] by simp
  qed (simp_all add: s'_def msg_free_def)
qed

section \<open>The service contract\<close>

lemma run_inv_states:
  fixes s t :: "'a sched_state_scheme"
  assumes "length (proc_table t) = length (proc_table s)" "current_proc t = current_proc s"
    "\<And>p. state (proc_at p t) = state (proc_at p s)" "\<And>p. sleep_ticks (proc_at p t) = sleep_ticks (proc_at p s)"
  shows "run_inv t = run_inv s"
  using assms by (simp add: run_inv_def used_def)

lemma run_inv_delivered:
  assumes "run_inv s" "t < 64"
  shows "run_inv (delivered t m ty data len s)"
proof -
  let ?u = "set_msg m (filled ty data len s) (s\<lparr>msg_used := (msg_used s)[m := True]\<rparr>)"
  have tl: "t < length (proc_table ?u)" using assms run_inv_length [OF assms(1)] by simp
  have "run_inv (enqueue t m ?u) = run_inv s"
    by (rule run_inv_states) (simp_all add: enqueue_proc [OF tl])
  then show ?thesis unfolding delivered_def using assms(1) by (simp add: proc_wakeup_inv)
qed

definition mail_inv :: "'a ipc_state_scheme \<Rightarrow> bool" where
  "mail_inv s \<longleftrightarrow> run_inv s \<and> ipc_inv s"

type_synonym request = "pid_t \<times> u32 \<times> u64 \<times> u32"

fun post :: "request \<Rightarrow> 'a ipc_state_scheme \<Rightarrow> int \<times> 'a ipc_state_scheme" where
  "post (dst, ty, data, len) s = ipc_send dst ty data len s"

fun request_target :: "request \<Rightarrow> 'a ipc_state_scheme \<Rightarrow> nat option" where
  "request_target (dst, ty, data, len) s = proc_find dst s"

fun request_letter :: "request \<Rightarrow> 'a ipc_state_scheme \<Rightarrow> letter \<Rightarrow> bool" where
  "request_letter (dst, ty, data, len) s (fr, ty', bs) \<longleftrightarrow> fr = cur_pid s \<and> ty' = ty \<and>
     length bs = unat len \<and> (data \<noteq> 0 \<longrightarrow> bs = read_bytes (mem s) data (unat len))"

definition fetch :: "nat \<Rightarrow> u64 \<Rightarrow> 'a ipc_state_scheme \<Rightarrow> (letter \<times> 'a ipc_state_scheme) option" where
  "fetch c out s = (case ipc_recv_pass c out s of Inl s' \<Rightarrow> Some (letter_in (mem s') out, s') | Inr _ \<Rightarrow> None)"

lemma mail_send:
  fixes s :: "'a ipc_state_scheme"
  assumes inv: "mail_inv s" and ok: "ipc_send dst ty data len s = (0, s')"
  obtains t m where "proc_find dst s = Some t" "t < 64" "m < 128" "len \<le> IPC_MSG_MAX" "\<not> msg_used s ! m"
    "s' = delivered t m ty data len s" "mail_inv s'"
    "\<And>p. p < 64 \<Longrightarrow> mailbox s' p = (if p = t then mailbox s t @ [sent_letter ty data len m s] else mailbox s p)"
proof -
  obtain q where q: "queues s q" and pi: "pool_inv s" and ri: "run_inv s"
    using inv by (auto simp: mail_inv_def ipc_inv_def)
  have ow: "owned s q" using q by (simp add: queues_def)
  from pi ow show thesis
  proof (cases rule: ipc_send_cases [of s q dst ty data len])
    case (sent t m)
    note pf = proc_find_Some [OF sent(1)]
    have s': "s' = delivered t m ty data len s" using sent(6) ok by simp
    note sp = delivered_spec [OF pi q run_inv_length [OF ri] pf(1,2) sent(3,5,2), where ty = ty and data = data, folded s']
    have "mail_inv s'"
      using sp(1,2) run_inv_delivered [OF ri pf(1)] s' by (auto simp: mail_inv_def ipc_inv_def)
    then show thesis using that sent pf(1) s' sp(3) by blast
  qed (use ok in \<open>simp_all add: errno_defs\<close>)
qed

lemma mail_recv:
  fixes s :: "'a ipc_state_scheme"
  assumes inv: "mail_inv s" and c: "c < 64"
  obtains (empty) "mailbox s c = []" "ipc_recv_pass c out s = Inr (proc_sleep 10 s)"
  | (letter) l ls s' where "mailbox s c = l # ls" "ipc_recv_pass c out s = Inl s'" "letter_in (mem s') out = l"
      "mail_inv s'" "\<And>p. p < 64 \<Longrightarrow> mailbox s' p = (if p = c then ls else mailbox s p)"
      "same_ids s s'" "current_proc s' = current_proc s"
proof -
  obtain q where q: "queues s q" and pi: "pool_inv s" and ri: "run_inv s"
    using inv by (auto simp: mail_inv_def ipc_inv_def)
  have lk: "linked s q" using q by (simp add: queues_def)
  show thesis
  proof (cases "q c")
    case Nil
    then show thesis using empty recv_empty [OF lk c] mailbox_eq [OF lk c] by simp
  next
    case (Cons m ns)
    from recv_head [OF pi q run_inv_length [OF ri] c Cons, of out] obtain s' where
      r: "ipc_recv_pass c out s = Inl s'" "queues s' (q(c := ns))" "pool_inv s'"
      "letter_in (mem s') out = letter_of (msg_at m s)"
      "\<And>p. p < 64 \<Longrightarrow> mailbox s' p = (if p = c then tl (mailbox s c) else mailbox s p)"
      "mailbox s c = letter_of (msg_at m s) # tl (mailbox s c)"
      "current_proc s' = current_proc s" "next_pid s' = next_pid s"
      "length (proc_table s') = length (proc_table s)"
      "\<And>p. state (proc_at p s') = state (proc_at p s) \<and> pid (proc_at p s') = pid (proc_at p s) \<and>
       sleep_ticks (proc_at p s') = sleep_ticks (proc_at p s)" by metis
    have "run_inv s'" using ri run_inv_states [of s' s] r by simp
    then have "mail_inv s'" using r(2,3) by (auto simp: mail_inv_def ipc_inv_def)
    moreover have "same_ids s s'" using r(8,10) by (simp add: same_ids_def used_def)
    ultimately show thesis using letter [OF r(6,1,4)] r(5,7) by blast
  qed
qed

lemma length_sent_letter:
  assumes "pool_inv s" "m < 128" "len \<le> IPC_MSG_MAX"
  shows "length (snd (snd (sent_letter ty data len m s))) = unat len"
proof -
  have "unat len \<le> 256" using assms(3) by (simp add: word_le_nat_alt)
  then show ?thesis using assms(1,2) by (simp add: sent_letter_def pool_inv_def)
qed

interpretation ipc: mail_service post request_target request_letter fetch mailbox 64 mail_inv
proof unfold_locales
  fix s s' :: "'a ipc_state_scheme" and r :: request and c :: nat and out :: u64
  assume inv: "mail_inv s"
  obtain dst ty data len where r: "r = (dst, ty, data, len)" by (cases r)
  obtain q where pi: "pool_inv s" and ow: "owned s q"
    using inv by (auto simp: mail_inv_def ipc_inv_def queues_def)
  show "mail_inv s' \<and> (\<exists>t m. request_target r s = Some t \<and> t < 64 \<and> request_letter r s m \<and>
      (\<forall>p<64. mailbox s' p = (if p = t then mailbox s t @ [m] else mailbox s p)))" if "post r s = (0, s')"
  proof -
    have snd: "ipc_send dst ty data len s = (0, s')" using that r by simp
    from inv snd obtain t m where t: "proc_find dst s = Some t" "t < 64" "m < 128" "len \<le> IPC_MSG_MAX" "mail_inv s'"
      "\<And>p. p < 64 \<Longrightarrow> mailbox s' p = (if p = t then mailbox s t @ [sent_letter ty data len m s] else mailbox s p)"
      by (rule mail_send) blast
    have "request_letter r s (sent_letter ty data len m s)"
      using length_sent_letter [OF pi t(3,4), of ty data] by (simp add: r sent_letter_def)
    then show ?thesis unfolding r request_target.simps using t(1,2,5,6) by blast
  qed
  show "s' = s" if "post r s = (e, s')" "e \<noteq> 0" for e
    using that r by (cases rule: ipc_send_cases [OF pi ow, of dst ty data len]) auto
  show "fetch c out s = None \<longleftrightarrow> mailbox s c = []" if "c < 64"
    by (cases rule: mail_recv [OF inv that, of out]) (auto simp: fetch_def)
  show "mail_inv s' \<and> mailbox s c = m # mailbox s' c \<and> (\<forall>p<64. p \<noteq> c \<longrightarrow> mailbox s' p = mailbox s p)"
    if "c < 64" "fetch c out s = Some (m, s')" for m
    using that(2) by (cases rule: mail_recv [OF inv that(1), of out]) (use that(1) in \<open>auto simp: fetch_def\<close>)
qed

end
