(* ===== verification/Proc_Elf.thy ===== *)
theory Proc_Elf
  imports Sched
begin

text \<open>
  What \<^verbatim>\<open>proc_create_elf\<close> (\<^verbatim>\<open>kernel/proc/proc.c\<close>) does to the process table, whenever it returns.
\<close>

text \<open>Memory management leaves the tables of the processes and of the heap alone.\<close>

definition same_tables :: "'a sched_state_scheme \<Rightarrow> 'a sched_state_scheme \<Rightarrow> bool" where
  "same_tables s t \<longleftrightarrow> proc_table t = proc_table s \<and> current_proc t = current_proc s \<and> next_pid t = next_pid s \<and>
     ticks t = ticks s \<and> proc_entry_user t = proc_entry_user s \<and> sched_state.more t = sched_state.more s \<and>
     heap_ptr t = heap_ptr s \<and> heap_head t = heap_head s \<and> blocks t = blocks s"

lemma same_tables_refl [simp]: "same_tables s s"
  by (simp add: same_tables_def)

lemma same_tables_trans: "same_tables s t \<Longrightarrow> same_tables t u \<Longrightarrow> same_tables s u"
  by (simp add: same_tables_def)

lemma same_tables_config: "same_config s t \<Longrightarrow> same_tables s t"
  using vmm_more_sched [of t s] by (simp add: same_config_def same_tables_def)

lemma same_tables_alloc: "pmm_alloc_page s = (a, t) \<Longrightarrow> same_tables s t"
  using same_tables_config [OF same_config_pmm_alloc [of s]] by (simp add: pmm_alloc_page_def)

lemma same_tables_vmm_map: "vmm_map r va pa flags s = Inr (c, t) \<Longrightarrow> same_tables s t"
  by (rule same_tables_config [OF same_config_vmm_map])

lemma same_tables_set_proc: "same_tables s t \<Longrightarrow> same_tables (set_proc i f s) (set_proc i f t)"
  by (simp add: same_tables_def set_proc_def)

lemma same_tables_con_mem [simp]:
  "same_tables s (kprintf f xs t) = same_tables s t" "same_tables s (t\<lparr>mem := m\<rparr>) = same_tables s t"
  by (simp_all add: same_tables_def kprintf_def)

lemma set_proc_twice: "i < length (proc_table s) \<Longrightarrow> set_proc i f (set_proc i g s) = set_proc i (\<lambda>p. f (g p)) s"
  by (simp add: set_proc_def)

lemma set_proc_next_pid: "(set_proc i f s)\<lparr>next_pid := n\<rparr> = set_proc i f (s\<lparr>next_pid := n\<rparr>)"
  by (simp add: set_proc_def)

text \<open>The process a successful call leaves in its slot.\<close>

definition elf_process :: "pid_t \<Rightarrow> u64 \<Rightarrow> u64 \<Rightarrow> u64 \<Rightarrow> u64 \<Rightarrow> process" where
  "elf_process pd pa entry stack stub = zero_process\<lparr>state := PROC_READY, pid := pd, is_user := True,
     p_cr3 := pa, pml4 := pa + KERNEL_BASE, user_rip := entry, user_rsp := 0x7fffffffe000, kernel_rsp := stack + 0x1000,
     p_context := zero_context\<lparr>rsp := stack + 0x1000, rip := stub\<rparr>\<rparr>"

lemma elf_process_fields [simp]:
  "state (elf_process pd pa e k st) = PROC_READY" "pid (elf_process pd pa e k st) = pd"
  "msg_queue (elf_process pd pa e k st) = None" "msg_tail (elf_process pd pa e k st) = None"
  "msg_count (elf_process pd pa e k st) = 0"
  by (simp_all add: elf_process_def zero_process_def)

lemma proc_create_elf_shape:
  assumes len: "length (proc_table s) = PROC_MAX" and c: "proc_create_elf elf s = Inr (Some i, s')"
  shows "alloc_proc s = Some i \<and> (\<exists>pa entry stack.
    same_tables (set_proc i (\<lambda>_. elf_process (next_pid s) pa entry stack (proc_entry_user s)) (s\<lparr>next_pid := next_pid s + 1\<rparr>)) s' \<and>
    pa = fst (pmm_alloc_page (set_proc i (\<lambda>p. p\<lparr>pid := next_pid s, state := PROC_READY, is_user := True, started := False\<rparr>)
      ((set_proc i (\<lambda>_. zero_process\<lparr>state := PROC_READY\<rparr>) s)\<lparr>next_pid := next_pid s + 1\<rparr>))))"
proof -
  obtain j where j: "find (\<lambda>i. state (proc_at i s) = PROC_UNUSED) [0..<PROC_MAX] = Some j"
    using c by (cases "find (\<lambda>i. state (proc_at i s) = PROC_UNUSED) [0..<PROC_MAX]")
      (simp_all add: proc_create_elf_def alloc_proc_slot_def)
  define s3 where "s3 = set_proc j (\<lambda>p. p\<lparr>pid := next_pid s, state := PROC_READY, is_user := True, started := False\<rparr>)
    ((set_proc j (\<lambda>_. zero_process\<lparr>state := PROC_READY\<rparr>) s)\<lparr>next_pid := next_pid s + 1\<rparr>)"
  obtain pa s4 where 4: "pmm_alloc_page s3 = (pa, s4)" by fastforce
  have pa: "pa \<noteq> 0" using c j 4
    by (auto simp: proc_create_elf_def alloc_proc_slot_def alloc_pid_def Let_def simp flip: s3_def)
  obtain v where v: "kernel_addr (pa + KERNEL_BASE) s4 = Inr v"
    using c j 4 pa by (auto simp: proc_create_elf_def alloc_proc_slot_def alloc_pid_def Let_def try_then_Inr_iff simp flip: s3_def)
  define s6 where "s6 = set_proc j (\<lambda>p. p\<lparr>p_cr3 := pa, pml4 := pa + KERNEL_BASE\<rparr>)
    (s4\<lparr>mem := memcpy_mem v (kernel_pml4 s4) 4096 (memset_mem v 0 4096 (mem s4))\<rparr>)"
  obtain pb s7 where 7: "pmm_alloc_page s6 = (pb, s7)" by fastforce
  obtain k s8 where 8: "vmm_map v (0x7fffffffe000 - 0x1000) pb 0x7 s7 = Inr (k, s8)"
    using c j 4 pa v 7 by (auto simp: proc_create_elf_def alloc_proc_slot_def alloc_pid_def Let_def try_then_Inr_iff
        simp flip: s3_def s6_def)
  let ?e = "load64 (mem s8) elf"
  define s10 where "s10 = kprintf ''user_rsp = %p
'' [Num 0x7fffffffe000] (kprintf ''user_rip = %p
'' [Num ?e] (kprintf ''elf_entry = %p
'' [Num ?e] (set_proc j (\<lambda>p. p\<lparr>user_rip := ?e, user_rsp := 0x7fffffffe000\<rparr>) s8)))"
  obtain pc s11 where 11: "pmm_alloc_page s10 = (pc, s11)" by fastforce
  have res: "s' = set_proc j (\<lambda>p. p\<lparr>kernel_rsp := pc + 0x1000,
      p_context := (p_context p)\<lparr>rsp := pc + 0x1000, rip := proc_entry_user s11\<rparr>\<rparr>) s11 \<and> i = j"
    using c j 4 pa v 7 8 11 by (auto simp: proc_create_elf_def alloc_proc_slot_def alloc_pid_def Let_def try_then_Inr_iff
        alloc_kernel_stack_for_proc_def split: if_splits simp flip: s3_def s6_def s10_def)
  have "j < 64" using j by (auto simp: find_Some_iff)
  then have "same_tables (set_proc j (\<lambda>_. elf_process (next_pid s) pa ?e pc (proc_entry_user s)) (s\<lparr>next_pid := next_pid s + 1\<rparr>)) s'"
    using res same_tables_alloc [OF 4] same_tables_alloc [OF 7] same_tables_vmm_map [OF 8] same_tables_alloc [OF 11] len
    by (simp add: same_tables_def s3_def s6_def s10_def set_proc_def kprintf_def elf_process_def zero_process_def)
  moreover have "alloc_proc s = Some j" using j by (simp add: alloc_proc_def)
  moreover have "pa = fst (pmm_alloc_page s3)" using 4 by simp
  ultimately show ?thesis using res unfolding s3_def by blast
qed

lemma proc_create_elf_None: "proc_create_elf elf s = Inr (None, s') \<Longrightarrow> s' = s"
  by (auto simp: proc_create_elf_def alloc_proc_slot_def alloc_pid_def Let_def try_then_Inr_iff split: option.splits prod.splits if_splits)

end
