(* ===== verification/Syscall.thy ===== *)
theory Syscall
  imports Ipc Proc_Elf
begin

text \<open>
  The system-call dispatcher \<^verbatim>\<open>kernel/proc/syscall.c\<close> and the interrupt dispatcher of
  \<^verbatim>\<open>kernel/arch/x86_64/idt.c\<close>.  A call that gives up the processor comes back when its process is
  scheduled again: \<open>resume c s\<close> is the state then, \<open>None\<close> if that never happens.
\<close>

section \<open>System calls\<close>

abbreviation SYS_EXIT :: u64 where "SYS_EXIT \<equiv> 1"
abbreviation SYS_WRITE :: u64 where "SYS_WRITE \<equiv> 4"
abbreviation SYS_GETPID :: u64 where "SYS_GETPID \<equiv> 20"
abbreviation SYS_GETPPID :: u64 where "SYS_GETPPID \<equiv> 64"
abbreviation SYS_YIELD :: u64 where "SYS_YIELD \<equiv> 24"
abbreviation SYS_SLEEP :: u64 where "SYS_SLEEP \<equiv> 162"
abbreviation SYS_IPC_SEND :: u64 where "SYS_IPC_SEND \<equiv> 200"
abbreviation SYS_IPC_RECV :: u64 where "SYS_IPC_RECV \<equiv> 201"

type_synonym 's resume = "nat \<Rightarrow> 's \<Rightarrow> 's option"

definition syscall_init :: "'a con_state_scheme \<Rightarrow> 'a con_state_scheme" where
  "syscall_init s = kprintf ''[SYSCALL] handler via INT 0x80
'' [] s"

text \<open>Back in the process that called \<^verbatim>\<open>schedule()\<close>: at once if it was picked again.\<close>

definition came_back :: "'a ipc_state_scheme resume \<Rightarrow> 'a ipc_state_scheme \<Rightarrow> 'a ipc_state_scheme
    \<Rightarrow> 'a ipc_state_scheme option" where
  "came_back resume before now =
     (case current_proc before of
        None \<Rightarrow> Some now
      | Some c \<Rightarrow> if current_proc now = Some c then Some now else resume c now)"

definition sys_write :: "u64 \<Rightarrow> u64 \<Rightarrow> 'a vmm_state_scheme \<Rightarrow> 'a vmm_state_scheme" where
  "sys_write buf len s =
     for_upto (unat len) (\<lambda>i s. s\<lparr>con := kputc (mem s (buf + of_nat i)) (con s)\<rparr>) s"

definition syscall_handler ::
  "'a ipc_state_scheme resume \<Rightarrow> u64 \<Rightarrow> u64 \<Rightarrow> u64 \<Rightarrow> u64 \<Rightarrow> u64 \<Rightarrow> 'a ipc_state_scheme
    \<Rightarrow> (u64 \<times> 'a ipc_state_scheme) option" where
  "syscall_handler resume num a1 a2 a3 a4 s =
     (if num = SYS_EXIT then
        map_option (Pair 0) (came_back resume s (proc_exit (ucast a1) s))
      else if num = SYS_WRITE then
        (let fd = (ucast a1 :: u32);
             s1 = kprintf ''[SYSCALL] SYS_WRITE
'' [] s
         in if fd = 1 \<or> fd = 2 then Some (a3, sys_write a2 a3 s1) else Some (of_int (- 9), s1))
      else if num = SYS_GETPID then
        Some (case current_proc s of None \<Rightarrow> 0 | Some c \<Rightarrow> scast (pid (proc_at c s)), s)
      else if num = SYS_GETPPID then
        Some (case current_proc s of None \<Rightarrow> 0 | Some c \<Rightarrow> scast (ppid (proc_at c s)), s)
      else if num = SYS_YIELD then
        map_option (Pair 0) (came_back resume s (proc_yield s))
      else if num = SYS_SLEEP then
        map_option (Pair 0) (came_back resume s (proc_sleep a1 s))
      else if num = SYS_IPC_SEND then
        (case ipc_send (ucast a1) (ucast a2) a3 (ucast a4) s of (r, s1) \<Rightarrow> Some (of_int r, s1))
      else if num = SYS_IPC_RECV then
        map_option (\<lambda>(r, s1). (of_int r, s1)) (ipc_recv resume a1 s)
      else Some (of_int (- ENOSYS), kprintf ''[SYSCALL] unknown syscall %lu
'' [Num num] s))"

section \<open>Interrupts\<close>

record interrupt_frame =
  f_r15 :: u64
  f_r14 :: u64
  f_r13 :: u64
  f_r12 :: u64
  f_r11 :: u64
  f_r10 :: u64
  f_r9 :: u64
  f_r8 :: u64
  f_rbp :: u64
  f_rdi :: u64
  f_rsi :: u64
  f_rdx :: u64
  f_rcx :: u64
  f_rbx :: u64
  f_rax :: u64
  int_no :: u64
  err_code :: u64
  f_rip :: u64
  f_cs :: u64
  f_rflags :: u64
  f_rsp :: u64
  f_ss :: u64

definition exception_names :: "string list" where
  "exception_names = [''Divide Error'', ''Debug'', ''NMI'', ''Breakpoint'', ''Overflow'', ''Bound Range'',
     ''Invalid Opcode'', ''Device Not Available'', ''Double Fault'', ''Coprocessor Seg'', ''Invalid TSS'',
     ''Segment Not Present'', ''Stack Fault'', ''General Protection'', ''Page Fault'', ''Reserved'',
     ''FPU Error'', ''Alignment Check'', ''Machine Check'', ''SIMD Error'']"

definition exception_report :: "interrupt_frame \<Rightarrow> 'a arch_state_scheme \<Rightarrow> 'a arch_state_scheme" where
  "exception_report fr s =
     (let no = int_no fr;
          nm = (if unat no < length exception_names then exception_names ! unat no else ''Unknown'');
          s1 = kprintf ''
[EXCEPTION #%d] %s
'' [Num (scast (ucast no :: u32)), Str (Some (bytes_of nm))] s;
          s2 = kprintf ''r12=%p
'' [Num (f_r12 fr)] s1;
          s3 = kprintf ''  err=%lx rip=%p rsp=%p
'' [Num (err_code fr), Num (f_rip fr), Num (f_rsp fr)] s2
      in if no = IDT_PAGE_FAULT then kprintf ''  cr2=%p (fault addr)
'' [Num (read_cr2 s3)] s3 else s3)"

text \<open>
  \<open>Inl\<close> is the panic of an exception, with the state the machine halts in; vectors 48 to 255
  other than \<^verbatim>\<open>0x80\<close> fall through.
\<close>

definition interrupt_dispatch ::
  "'a ipc_state_scheme resume \<Rightarrow> interrupt_frame \<Rightarrow> 'a ipc_state_scheme
    \<Rightarrow> ((fault \<times> 'a ipc_state_scheme) + (interrupt_frame \<times> 'a ipc_state_scheme)) option" where
  "interrupt_dispatch resume fr s =
     (let no = int_no fr in
      if no < 32 then Some (Inl (Panic ''unhandled exception'', panic ''unhandled exception'' (exception_report fr s)))
      else if no = 0x80 then
        map_option (\<lambda>(ret, s1). Inr (fr\<lparr>f_rax := ret\<rparr>, s1))
          (syscall_handler resume (f_rax fr) (f_rdi fr) (f_rsi fr) (f_rdx fr) (f_r10 fr) s)
      else if IDT_IRQ_BASE \<le> no \<and> no < IDT_IRQ_BASE + 16 then
        (let irq = (ucast (no - IDT_IRQ_BASE) :: u8) in
         map_option (\<lambda>s1. Inr (fr, pic_send_eoi irq s1))
           (if irq = 0 then came_back resume s (timer_irq s) else Some s))
      else Some (Inr (fr, s)))"

section \<open>The kernel as a transition system\<close>

text \<open>
  What one process or interrupt does to the kernel's state before control passes on: the timer,
  each system call, the creation of a process, allocation from the kernel heap, output, and a process's
  own computation on memory and registers.  Nothing in the kernel calls \<^verbatim>\<open>kfree\<close>.
\<close>

inductive kstep :: "'a ipc_state_scheme \<Rightarrow> 'a ipc_state_scheme \<Rightarrow> bool" where
  k_timer: "kstep s (timer_irq s)"
| k_exit: "kstep s (proc_exit code s)"
| k_yield: "kstep s (proc_yield s)"
| k_sleep: "kstep s (proc_sleep ms s)"
| k_send: "ipc_send dst ty data len s = (r, s') \<Longrightarrow> kstep s s'"
| k_recv: "current_proc s = Some c \<Longrightarrow> ipc_recv_pass c out s = Inl s' \<Longrightarrow> kstep s s'"
| k_wait: "current_proc s = Some c \<Longrightarrow> ipc_recv_pass c out s = Inr s' \<Longrightarrow> kstep s s'"
| k_create: "proc_create nm entry s = Some (r, s') \<Longrightarrow> kstep s s'"
| k_create_elf: "proc_create_elf elf s = Inr (r, s') \<Longrightarrow> kstep s s'"
| k_kmalloc: "unat n \<le> 2 ^ 63 \<Longrightarrow> kmalloc n s = Some (p, s') \<Longrightarrow> kstep s s'"
| k_output: "kstep s (s\<lparr>con := d\<rparr>)"
| k_compute: "kstep s (s\<lparr>mem := m, cpu := regs\<rparr>)"

inductive_cases kstepE: "kstep s s'"

abbreviation reaches :: "'a ipc_state_scheme \<Rightarrow> 'a ipc_state_scheme \<Rightarrow> bool" where
  "reaches \<equiv> kstep\<^sup>*\<^sup>*"

definition kernel_inv :: "'a ipc_state_scheme \<Rightarrow> bool" where
  "kernel_inv s \<longleftrightarrow> run_inv s \<and> pid_inv s \<and> ipc_inv s \<and> heap_inv s"

section \<open>Frames\<close>

lemma more_ipc:
  fixes s t :: "'a ipc_state_scheme"
  assumes "sched_state.more s = sched_state.more t"
  shows "msg_pool s = msg_pool t" "msg_used s = msg_used t"
  using assms by (cases s; cases t; simp)+

lemma heap_inv_switch_context [simp]: "heap_inv (switch_context i j s) = heap_inv s"
  by (simp add: heap_with_def heap_list_def switch_context_def Let_def set_proc_def)

lemma heap_inv_sched [simp]:
  "heap_inv (gdt_set_tss_rsp0 v s) = heap_inv s"
  "heap_inv (s\<lparr>current_proc := c\<rparr>) = heap_inv s" "heap_inv (s\<lparr>cpu := r\<rparr>) = heap_inv s"
  "heap_inv (s\<lparr>ticks := t\<rparr>) = heap_inv s" "heap_inv (s\<lparr>con := d\<rparr>) = heap_inv s"
  by (rule heap_inv_cong; simp add: gdt_set_tss_rsp0_def)+

lemma heap_inv_schedule [simp]: "heap_inv (schedule s) = heap_inv s"
proof -
  have "heap_inv (dispatch c i t) = heap_inv t" "heap_inv (preempt c t) = heap_inv t"
    for c i and t :: "'a sched_state_scheme"
    by (simp_all add: dispatch_def preempt_def Let_def)
  then show ?thesis
    by (auto simp: schedule_def Let_def split: option.split)
qed

lemma heap_inv_ipc [simp]:
  "heap_inv (s\<lparr>msg_used := u\<rparr>) = heap_inv s" "heap_inv (set_msg i f s) = heap_inv s"
  "heap_inv (cli s) = heap_inv s" "heap_inv (restore_flags g s) = heap_inv s"
  by (rule heap_inv_cong; simp add: set_msg_def cli_def restore_flags_def)+

lemma heap_inv_loop [simp]: "heap_inv (for_upto n (\<lambda>i. set_proc i f) s) = heap_inv s"
  by (induction n) simp_all

lemma heap_inv_ops [simp]:
  "heap_inv (proc_exit code s) = heap_inv s" "heap_inv (proc_yield s) = heap_inv s"
  "heap_inv (proc_sleep ms s) = heap_inv s" "heap_inv (proc_wakeup w s) = heap_inv s"
  "heap_inv (timer_irq s) = heap_inv s" "heap_inv (enqueue t m u) = heap_inv u" "heap_inv (dequeue t m u) = heap_inv u"
  "heap_inv (delivered t m ty data len u) = heap_inv u"
  by (simp_all add: proc_exit_def proc_yield_def proc_sleep_def proc_wakeup_def timer_irq_def sched_tick_def
      enqueue_def dequeue_def delivered_def Let_def split: option.split)

text \<open>The queues stand while the messages, the queue fields and the set of processes do.\<close>

lemma ipc_inv_cong:
  fixes s t :: "'a ipc_state_scheme"
  assumes "msg_pool t = msg_pool s" "msg_used t = msg_used s"
    "\<And>p. p < 64 \<Longrightarrow> msg_queue (proc_at p t) = msg_queue (proc_at p s) \<and> msg_tail (proc_at p t) = msg_tail (proc_at p s)
      \<and> msg_count (proc_at p t) = msg_count (proc_at p s) \<and> used p t = used p s"
    and "ipc_inv s"
  shows "ipc_inv t"
proof -
  have ma: "msg_at i t = msg_at i s" for i by (simp add: msg_at_def assms(1))
  have "box_ok t p ns = box_ok s p ns" if "p < 64" for p ns
    using assms(3) [OF that] by (intro box_ok_cong) (simp_all add: ma)
  then have "linked t q = linked s q" for q by (simp add: linked_def)
  moreover have "owned t q = owned s q" for q by (simp add: owned_def assms(2))
  moreover have "pool_inv t = pool_inv s" by (simp add: pool_inv_def assms(1,2) ma)
  ultimately show ?thesis using assms(4) by (simp add: ipc_inv_def queues_def)
qed

lemma ipc_inv_schedule:
  assumes "run_inv s" "ipc_inv s"
  shows "ipc_inv (schedule s)"
  by (rule ipc_inv_cong [OF _ _ _ assms(2)])
    (use more_ipc [OF schedule_frame(6) [OF assms(1)]] assms(1) in \<open>simp_all add: schedule_used\<close>)

lemma ipc_inv_set_proc:
  assumes "ipc_inv s" "msg_queue (f (proc_at i s)) = msg_queue (proc_at i s)"
    "msg_tail (f (proc_at i s)) = msg_tail (proc_at i s)" "msg_count (f (proc_at i s)) = msg_count (proc_at i s)"
    "state (f (proc_at i s)) \<noteq> PROC_UNUSED \<longleftrightarrow> used i s"
  shows "ipc_inv (set_proc i f s)"
  by (rule ipc_inv_cong [OF _ _ _ assms(1)]) (use assms in \<open>simp_all add: proc_at_set_proc used_def\<close>)

lemma ipc_inv_con [simp]:
  "ipc_inv s \<Longrightarrow> ipc_inv (s\<lparr>con := d\<rparr>)" "ipc_inv s \<Longrightarrow> ipc_inv (s\<lparr>mem := m, cpu := r\<rparr>)"
  "ipc_inv s \<Longrightarrow> ipc_inv (s\<lparr>ticks := t\<rparr>)" "ipc_inv s \<Longrightarrow> ipc_inv (kprintf f xs s)"
  by (rule ipc_inv_cong; simp add: proc_at_def used_def kprintf_def)+

section \<open>Every step keeps the invariant\<close>

text \<open>Processes stay in the table under their number; the table only fills up.\<close>

definition later :: "'a sched_state_scheme \<Rightarrow> 'a sched_state_scheme \<Rightarrow> bool" where
  "later s s' \<longleftrightarrow> (\<forall>i<PROC_MAX. used i s \<longrightarrow> used i s' \<and> pid (proc_at i s') = pid (proc_at i s))"

lemma later_refl [simp]: "later s s" by (simp add: later_def)

lemma later_trans: "later s s' \<Longrightarrow> later s' s'' \<Longrightarrow> later s s''"
  by (simp add: later_def)

lemma same_ids_later: "same_ids s s' \<Longrightarrow> later s s'"
  by (simp add: same_ids_def later_def)

lemma kernel_invI:
  assumes "run_inv s'" "same_ids s s'" "ipc_inv s'" "heap_inv s'" "kernel_inv s"
  shows "kernel_inv s' \<and> later s s'"
  using assms pid_inv_cong [OF assms(2)] same_ids_later [OF assms(2)] by (simp add: kernel_inv_def)

lemma ipc_inv_proc_exit: "run_inv s \<Longrightarrow> ipc_inv s \<Longrightarrow> ipc_inv (proc_exit code s)"
proof (cases "current_proc s")
  case (Some c)
  assume inv: "run_inv s" "ipc_inv s"
  let ?t = "set_proc c (\<lambda>p. p\<lparr>state := PROC_ZOMBIE, exit_code := code\<rparr>) s"
  have "ipc_inv ?t" using inv run_invD(1) [OF inv(1) Some] by (intro ipc_inv_set_proc) simp_all
  moreover have "run_inv ?t" by (rule run_inv_set_proc [OF inv(1)]) simp_all
  ultimately have "ipc_inv (schedule (kprintf f xs ?t))" for f xs by (intro ipc_inv_schedule) simp_all
  then show ?thesis using Some by (simp only: proc_exit_def Let_def option.case)
qed (simp add: proc_exit_def)

lemma ipc_inv_proc_sleep: "run_inv s \<Longrightarrow> ipc_inv s \<Longrightarrow> ipc_inv (proc_sleep ms s)"
proof (cases "current_proc s")
  case (Some c)
  assume inv: "run_inv s" "ipc_inv s"
  let ?t = "set_proc c (\<lambda>p. p\<lparr>sleep_ticks := sleep_time ms, state := PROC_SLEEPING\<rparr>) s"
  have "ipc_inv ?t" using inv run_invD(1) [OF inv(1) Some] by (intro ipc_inv_set_proc) simp_all
  moreover have "run_inv ?t" by (rule run_inv_set_proc [OF inv(1)]) (simp_all add: sleep_time_pos)
  ultimately show ?thesis using Some by (simp add: proc_sleep_def ipc_inv_schedule)
qed (simp add: proc_sleep_def)

lemma tick_process_msg [simp]:
  "msg_queue (tick_process p) = msg_queue p" "msg_tail (tick_process p) = msg_tail p"
  "msg_count (tick_process p) = msg_count p"
  by (simp_all add: tick_process_def Let_def)

lemma ipc_inv_timer_irq:
  assumes "run_inv s" "ipc_inv s"
  shows "ipc_inv (timer_irq s)"
proof -
  let ?s = "s\<lparr>ticks := ticks s + 1\<rparr>"
  have r: "run_inv ?s" and i: "ipc_inv ?s" using assms by simp_all
  have m: "sched_state.more (count_down ?s) = sched_state.more ?s" by (simp add: count_down_def)
  have "ipc_inv (count_down ?s)"
    by (rule ipc_inv_cong [OF _ _ _ i])
      (use more_ipc [OF m] in \<open>simp_all add: proc_at_count_down [OF r] used_def tick_process_state\<close>)
  with ipc_inv_schedule [OF count_down_inv [OF r]] show ?thesis by (simp add: timer_irq_def sched_tick_eq)
qed

text \<open>A new process in an unused slot.\<close>

lemma kernel_inv_new:
  fixes s t :: "'a ipc_state_scheme"
  assumes inv: "kernel_inv s" and slot: "alloc_proc s = Some k" and old: "\<And>j. j \<noteq> k \<Longrightarrow> proc_at j t = proc_at j s"
    and new: "state (proc_at k t) = PROC_READY" "msg_queue (proc_at k t) = None" "msg_tail (proc_at k t) = None"
      "msg_count (proc_at k t) = 0"
    and more: "sched_state.more t = sched_state.more s" and t: "run_inv t" "pid_inv t" "heap_inv t"
  shows "kernel_inv t \<and> later s t"
proof -
  note mp = more_ipc [OF more]
  have k: "k < 64" "\<not> used k s" using alloc_proc_Some slot by blast+
  have "ipc_inv s" using inv by (simp add: kernel_inv_def)
  then obtain q where q: "linked s q" "owned s q" and pi: "pool_inv s" by (auto simp: ipc_inv_def queues_def)
  have qk: "q k = []" using linkedD [OF q(1) k(1)] k(2) by (simp add: box_ok_def)
  have ma: "msg_at j t = msg_at j s" for j by (simp add: msg_at_def mp)
  have "box_ok t p (q p)" if "p < 64" for p
  proof (cases "p = k")
    case True
    then show ?thesis using new qk by (simp add: box_ok_def)
  next
    case False
    then have "box_ok t p (q p) = box_ok s p (q p)" using old [OF False] by (intro box_ok_cong) (simp_all add: ma used_def)
    then show ?thesis using linkedD [OF q(1) that] by simp
  qed
  then have "linked t q" using q(1) unfolding linked_def by blast
  moreover have "owned t q" "pool_inv t" using q(2) pi by (simp_all add: owned_def pool_inv_def mp ma)
  ultimately have "ipc_inv t" by (auto simp: ipc_inv_def queues_def)
  moreover have "later s t" using old k(2) unfolding later_def used_def by metis
  ultimately show ?thesis using t by (simp add: kernel_inv_def)
qed

lemma ipc_inv_create:
  assumes inv: "kernel_inv s" and c: "proc_create nm entry s = Some (r, s')"
  shows "kernel_inv s' \<and> later s s'"
proof -
  have i: "run_inv s" "pid_inv s" "heap_inv s" "ipc_inv s" using inv by (auto simp: kernel_inv_def)
  obtain r' t where t: "proc_create nm entry s = Some (r', t)" "run_inv t" "pid_inv t" "heap_inv t"
    "sched_state.more t = sched_state.more s"
    "r' = None \<Longrightarrow> proc_table t = proc_table s \<and> next_pid t = next_pid s"
    "\<And>i. r' = Some i \<Longrightarrow> alloc_proc s = Some i \<and> (\<forall>j. j \<noteq> i \<longrightarrow> proc_at j t = proc_at j s) \<and>
      (\<exists>stk. proc_at i t = init_process entry (proc_entrypoint s) (stk + KSTACK_SIZE) (next_pid s) (cur_pid s) nm (proc_at i s))"
    by (rule proc_create_spec [OF i(1-3), of nm entry]) metis
  have s': "s' = t" "r = r'" using t(1) c by auto
  show ?thesis
  proof (cases r')
    case None
    then have at: "proc_at p t = proc_at p s" for p using t(6) by (simp add: proc_at_def)
    have "ipc_inv t" by (rule ipc_inv_cong [OF more_ipc [OF t(5)] _ i(4)]) (simp add: at used_def)
    moreover have "later s t" by (simp add: at used_def later_def)
    ultimately show ?thesis using t s' by (simp add: kernel_inv_def)
  next
    case (Some k)
    note new = t(7) [OF Some]
    show ?thesis unfolding s'(1)
      by (rule kernel_inv_new [OF inv _ _ _ _ _ _ t(5,2-4)]) (use new in auto)
  qed
qed

lemma ipc_inv_create_elf:
  assumes inv: "kernel_inv s" and c: "proc_create_elf elf s = Inr (r, s')"
  shows "kernel_inv s' \<and> later s s'"
proof (cases r)
  case None
  then show ?thesis using proc_create_elf_None [of elf s s'] c inv by simp
next
  case (Some k)
  have i: "run_inv s" "pid_inv s" "heap_inv s" using inv by (auto simp: kernel_inv_def)
  note len = run_inv_length [OF i(1)]
  let ?n = "s\<lparr>next_pid := next_pid s + 1\<rparr>"
  obtain pa e stk where slot: "alloc_proc s = Some k"
    and sh: "same_tables (set_proc k (\<lambda>_. elf_process (next_pid s) pa e stk (proc_entry_user s)) ?n) s'"
    using proc_create_elf_shape [of s elf k s'] c Some len by auto
  let ?f = "\<lambda>_. elf_process (next_pid s) pa e stk (proc_entry_user s)"
  note k = alloc_proc_Some [OF slot]
  have st: "proc_table s' = proc_table (set_proc k ?f ?n)" "current_proc s' = current_proc (set_proc k ?f ?n)"
    "next_pid s' = next_pid (set_proc k ?f ?n)" using sh by (simp_all add: same_tables_def)
  have "run_inv (set_proc k ?f ?n)" by (rule run_inv_set_proc) (use i(1) in simp_all)
  moreover have "pid_inv (set_proc k ?f ?n)" using i(2) k len by (intro pid_inv_new) simp_all
  ultimately have inv': "run_inv s'" "pid_inv s'" using proc_inv_cong [OF st] by simp_all
  have "heap_inv s'" using sh i(3) by (subst heap_inv_cong [of s' s]) (simp_all add: same_tables_def set_proc_def)
  moreover have "sched_state.more s' = sched_state.more s" using sh by (simp add: same_tables_def set_proc_def)
  moreover have "proc_at j s' = (if j = k then ?f (proc_at k s) else proc_at j s)" for j
    using st(1) k(1) len by (simp add: proc_at_def set_proc_def)
  ultimately show ?thesis
    by (intro kernel_inv_new [OF inv slot _ _ _ _ _ _ inv']) simp_all
qed

lemma delivered_ids:
  assumes "t < length (proc_table s)"
  shows "same_ids s (delivered t m ty data len s)"
proof -
  let ?u = "set_msg m (filled ty data len s) (s\<lparr>msg_used := (msg_used s)[m := True]\<rparr>)"
  have tl: "t < length (proc_table ?u)" using assms by simp
  have "same_ids s (enqueue t m ?u)" by (simp add: same_ids_def used_def enqueue_proc [OF tl])
  then show ?thesis unfolding delivered_def by (rule same_ids_trans [OF _ proc_wakeup_ids])
qed

lemma kernel_inv_heap:
  fixes s t :: "'a ipc_state_scheme"
  assumes "heap_state.more t = heap_state.more s" "heap_inv t" "kernel_inv s"
  shows "kernel_inv t \<and> later s t"
proof -
  note f = heap_more_sched [OF assms(1)]
  have at: "proc_at i t = proc_at i s" for i by (simp add: proc_at_def f)
  have "ipc_inv t" by (rule ipc_inv_cong [OF more_ipc [OF f(10)]]) (use assms(3) in \<open>simp_all add: at used_def kernel_inv_def\<close>)
  moreover have "same_ids s t" by (simp add: same_ids_def at used_def f)
  moreover have "run_inv t" using proc_inv_cong(1) [OF f(1-3)] assms(3) by (simp add: kernel_inv_def)
  ultimately show ?thesis using assms(2,3) by (intro kernel_invI)
qed

lemma kstep_inv:
  assumes "kstep s s'" "kernel_inv s"
  shows "kernel_inv s' \<and> later s s'"
  using assms
proof (induction rule: kstep.induct)
  case (k_timer s)
  then show ?case
    by (intro kernel_invI) (simp_all add: kernel_inv_def timer_irq_inv timer_irq_ids ipc_inv_timer_irq)
next
  case (k_exit s code)
  then show ?case
    by (intro kernel_invI) (simp_all add: kernel_inv_def proc_exit_inv proc_exit_ids ipc_inv_proc_exit)
next
  case (k_yield s)
  then show ?case
    by (intro kernel_invI)
      (simp_all add: kernel_inv_def proc_yield_inv, simp_all add: proc_yield_def schedule_same_ids ipc_inv_schedule)
next
  case (k_sleep s ms)
  then show ?case
    by (intro kernel_invI) (simp_all add: kernel_inv_def proc_sleep_inv proc_sleep_ids ipc_inv_proc_sleep)
next
  case (k_send dst ty data len s r s')
  then have mi: "mail_inv s" by (simp add: kernel_inv_def mail_inv_def)
  show ?case
  proof (cases "r = 0")
    case True
    with k_send.hyps have "ipc_send dst ty data len s = (0, s')" by simp
    with mi obtain t m where t: "t < 64" "s' = delivered t m ty data len s" "mail_inv s'"
      by (rule mail_send) blast
    have "t < length (proc_table s)" using t(1) k_send.prems by (simp add: kernel_inv_def run_inv_length)
    from delivered_ids [OF this, of m ty data len] t k_send.prems show ?thesis
      by (intro kernel_invI) (simp_all add: mail_inv_def kernel_inv_def)
  next
    case False
    have "post (dst, ty, data, len) s = (r, s')" using k_send.hyps by simp
    from ipc.post_fail [OF mi this False] k_send.prems show ?thesis by simp
  qed
next
  case (k_recv s c out s')
  then have mi: "mail_inv s" and c: "c < 64" by (auto simp: kernel_inv_def mail_inv_def dest: run_inv_current)
  have "heap_inv s'" using k_recv.hyps(2) k_recv.prems
    by (auto simp: ipc_recv_pass_def Let_def kernel_inv_def msg_free_def split: option.splits if_splits)
  with mi c show ?case
  proof (cases rule: mail_recv [where out = out])
    case (letter l ls t)
    then show ?thesis using k_recv \<open>heap_inv s'\<close> by (intro kernel_invI) (auto simp: mail_inv_def)
  qed (use k_recv.hyps in simp)
next
  case (k_wait s c out s')
  then have mi: "mail_inv s" and c: "c < 64" by (auto simp: kernel_inv_def mail_inv_def dest: run_inv_current)
  then show ?case
  proof (cases rule: mail_recv [where out = out])
    case empty
    then have "s' = proc_sleep 10 s" using k_wait.hyps by simp
    then show ?thesis using k_wait.prems
      by (intro kernel_invI) (simp_all add: kernel_inv_def proc_sleep_inv proc_sleep_ids ipc_inv_proc_sleep)
  qed (use k_wait.hyps in simp)
next
  case (k_create nm entry s r s')
  then show ?case using ipc_inv_create by blast
next
  case (k_create_elf elf s r s')
  then show ?case using ipc_inv_create_elf by blast
next
  case (k_kmalloc n s p s')
  have "heap_inv s'" using held_heap.alloc_returns [of s n] k_kmalloc by (auto simp: kernel_inv_def)
  then show ?case using k_kmalloc kmalloc_more(1) by (intro kernel_inv_heap)
next
  case (k_output s d)
  have "run_inv (s\<lparr>con := d\<rparr>) = run_inv s" "same_ids s (s\<lparr>con := d\<rparr>)"
    by (simp_all add: run_inv_def same_ids_def used_def proc_at_def)
  with k_output show ?case by (intro kernel_invI) (simp_all add: kernel_inv_def)
next
  case (k_compute s regs m)
  have "run_inv (s\<lparr>mem := m, cpu := regs\<rparr>) = run_inv s" "same_ids s (s\<lparr>mem := m, cpu := regs\<rparr>)"
    by (simp_all add: run_inv_def same_ids_def used_def proc_at_def)
  with k_compute show ?case by (intro kernel_invI) (simp_all add: kernel_inv_def)
qed

lemma reaches_inv:
  assumes "reaches s s'" "kernel_inv s"
  shows "kernel_inv s' \<and> later s s'"
  using assms by (induction rule: rtranclp_induct) (auto dest: kstep_inv intro: later_trans)

end
