(* ===== verification/Initial.thy ===== *)
theory Initial
  imports Syscall
begin

text \<open>
  The state the boot loader leaves: static variables at their C initial values, the rest as the
  linker placed it.  The invariants hold there once \<^verbatim>\<open>proc_init\<close> has run.
\<close>

section \<open>Static data\<close>

text \<open>What the linker chooses: addresses of static objects and of assembly entry points.\<close>

record layout =
  l_pt_pool :: u64
  l_pml4 :: u64
  l_gdt :: u64
  l_tss :: u64
  l_idt :: u64
  l_stubs :: "u64 list"
  l_entrypoint :: u64
  l_entry_user :: u64

definition zero_console :: console where
  "zero_console = \<lparr>outs = [], vmem = (\<lambda>_. 0), vga_row = 0, vga_col = 0, vga_attr = 0\<rparr>"

definition zero_message :: ipc_message where
  "zero_message = \<lparr>m_from = 0, m_type = 0, m_len = 0, m_data = replicate 256 0, m_next = None\<rparr>"

definition zero_gate :: idt_entry where
  "zero_gate = \<lparr>offset_low = 0, selector = 0, gate_ist = 0, type_attr = 0, offset_mid = 0,
     offset_high = 0, gate_reserved = 0\<rparr>"

definition zero_gdt_entry :: gdt_entry where
  "zero_gdt_entry = \<lparr>limit_low = 0, base_low = 0, base_mid = 0, access = 0, granularity = 0, base_high = 0\<rparr>"

definition zero_tss_entry :: gdt_tss_entry where
  "zero_tss_entry = \<lparr>tss_limit_low = 0, tss_base_low = 0, tss_base_mid1 = 0, tss_access = 0, tss_flags = 0,
     tss_base_mid2 = 0, tss_base_high = 0, tss_reserved = 0\<rparr>"

definition initial_state :: "layout \<Rightarrow> memory \<Rightarrow> ipc_state" where
  "initial_state L m = \<lparr>con = zero_console, bitmap = replicate BITMAP_SIZE 0, pmm_base = 0,
     pmm_total_pages = 0, pmm_free_pages = 0, pmm_last_alloc = 0, heap_ptr = KHEAP_START, heap_head = 0,
     blocks = Map.empty, mem = m, pt_pool = l_pt_pool L, pt_pool_used = 0, kernel_pml4 = 0,
     cr3 = l_pml4 L, tlb_flushed = [], gdt = replicate GDT_NORMAL_ENTRIES zero_gdt_entry,
     gdt_tail = replicate 16 0, gdt_tss = zero_tss_entry,
     tss = \<lparr>tss_rsp = [0, 0, 0], tss_ist = replicate 7 0, iomap_base = 0\<rparr>,
     gdtr = \<lparr>tr_limit = 0, tr_base = 0\<rparr>, task_reg = 0, seg_cs = 0x08, seg_data = 0x10,
     idt = replicate IDT_SIZE zero_gate, idtr = \<lparr>tr_limit = 0, tr_base = 0\<rparr>, cr2 = 0, iflag = False,
     addr_gdt = l_gdt L, addr_tss = l_tss L, addr_idt = l_idt L, isr_stub_table = l_stubs L,
     proc_table = replicate PROC_MAX zero_process, current_proc = None, next_pid = 1, ticks = 0,
     cpu = zero_context, proc_entrypoint = l_entrypoint L, proc_entry_user = l_entry_user L,
     msg_pool = replicate IPC_POOL_SIZE zero_message, msg_used = replicate IPC_POOL_SIZE False\<rparr>"

lemma initial_proc: "i < 64 \<Longrightarrow> proc_at i (initial_state L m) = zero_process"
  by (simp add: proc_at_def initial_state_def)

lemma zero_process_fields [simp]:
  "state zero_process = PROC_UNUSED" "pid zero_process = 0" "msg_queue zero_process = None"
  "msg_tail zero_process = None" "msg_count zero_process = 0" "sleep_ticks zero_process = 0"
  by (simp_all add: zero_process_def)

lemma initial_fields [simp]:
  "length (proc_table (initial_state L m)) = 64" "current_proc (initial_state L m) = None"
  "next_pid (initial_state L m) = 1" "msg_used (initial_state L m) = replicate 128 False"
  "msg_pool (initial_state L m) = replicate 128 zero_message" "mem (initial_state L m) = m"
  "blocks (initial_state L m) = Map.empty" "heap_head (initial_state L m) = 0"
  "heap_ptr (initial_state L m) = KHEAP_START" "pt_pool (initial_state L m) = l_pt_pool L"
  "pt_pool_used (initial_state L m) = 0" "cr3 (initial_state L m) = l_pml4 L"
  "tss_rsp (tss (initial_state L m)) = [0, 0, 0]"
  by (simp_all add: initial_state_def)

text \<open>A state in which nothing has run yet; every invariant holds there.\<close>

definition fresh :: "'a ipc_state_scheme \<Rightarrow> bool" where
  "fresh s \<longleftrightarrow> proc_table s = replicate PROC_MAX zero_process \<and> current_proc s = None \<and> next_pid s = 1 \<and>
     msg_pool s = replicate IPC_POOL_SIZE zero_message \<and> msg_used s = replicate IPC_POOL_SIZE False \<and>
     heap_ptr s = KHEAP_START \<and> heap_head s = 0 \<and> blocks s = Map.empty"

lemma fresh_proc: "fresh s \<Longrightarrow> i < 64 \<Longrightarrow> proc_at i s = zero_process"
  by (simp add: fresh_def proc_at_def)

lemma fresh_kernel_inv:
  assumes "fresh s"
  shows "kernel_inv s"
proof -
  have u: "\<not> used i s" if "i < 64" for i using fresh_proc [OF assms that] by (simp add: used_def)
  have "heap_inv s"
    using assms unfolding heap_with_def heap_list_def fresh_def by (intro exI [of _ "[]"]) simp
  moreover have "run_inv s"
    by (rule run_invI) (use assms in \<open>auto simp: fresh_def fresh_proc [OF assms]\<close>)
  moreover have "{i. i < 64 \<and> used i s} = {}" using u by blast
  then have "pid_inv s" unfolding pid_inv_def using u assms by (simp add: fresh_def)
  moreover have "queues s (\<lambda>_. [])" "pool_inv s"
    using assms by (simp_all add: queues_def linked_def owned_def box_ok_def fresh_proc fresh_def pool_inv_def
        msg_at_def zero_message_def)
  then have "ipc_inv s" by (auto simp: ipc_inv_def)
  ultimately show ?thesis by (simp add: kernel_inv_def)
qed

lemma fresh_con [simp]: "fresh (s\<lparr>con := d\<rparr>) = fresh s"
  by (simp add: fresh_def)

text \<open>\<^verbatim>\<open>proc_init\<close> on the zeroed table changes nothing but the console.\<close>

lemma set_proc_loop_only: "\<exists>l. for_upto n (\<lambda>i. set_proc i f) s = s\<lparr>proc_table := l\<rparr>"
proof (induction n)
  case 0
  show ?case by (auto intro: exI [of _ "proc_table s"])
next
  case (Suc n)
  then show ?case by (auto simp: set_proc_def)
qed

lemma proc_init_fresh:
  fixes s :: "'a ipc_state_scheme"
  assumes "fresh s"
  shows "\<exists>d. proc_init s = s\<lparr>con := d\<rparr>"
proof -
  let ?f = "\<lambda>p. p\<lparr>state := PROC_UNUSED, pid := 0\<rparr>"
  let ?t = "for_upto PROC_MAX (\<lambda>i. set_proc i ?f) s"
  have z: "?f zero_process = zero_process" by (simp add: zero_process_def)
  have len: "length (proc_table s) = 64" using assms by (simp add: fresh_def)
  have at: "proc_at i ?t = proc_at i s" if "i < 64" for i
    using for_upto_set_proc [of 64 s i ?f] that len z by (simp add: fresh_proc [OF assms])
  have "length (proc_table ?t) = 64" using for_upto_set_proc [of 64 s 0 ?f] len by simp
  then have tab: "proc_table ?t = proc_table s"
    by (intro nth_equalityI) (use len at in \<open>simp_all add: proc_at_def\<close>)
  obtain l where l: "?t = s\<lparr>proc_table := l\<rparr>" using set_proc_loop_only by blast
  then have "l = proc_table s" using tab by simp
  with l have "?t = s" by simp
  then show ?thesis by (auto simp: proc_init_def kprintf_def)
qed

lemma initial_fresh: "fresh (initial_state L m)"
  by (simp add: fresh_def initial_state_def)

lemmas initial_kernel_inv = fresh_kernel_inv [OF initial_fresh]

lemma initial_heap_inv: "heap_inv (initial_state L m)"
  using initial_kernel_inv by (simp add: kernel_inv_def)

lemma initial_heap_exact: "heap_exact (initial_state L m)"
  using initial_fresh [of L m] unfolding heap_with_def heap_list_def fresh_def by (intro exI [of _ "[]"]) simp

lemma initial_ipc_inv: "ipc_inv (initial_state L m)"
  using initial_kernel_inv by (simp add: kernel_inv_def)

section \<open>A small machine\<close>

text \<open>
  Zeroed memory, the table pool at 1 MB and the root table at 64 KB; used to evaluate the
  theorems on a concrete state.
\<close>

definition small_layout :: layout where
  "small_layout = \<lparr>l_pt_pool = 0x100000, l_pml4 = 0x10000, l_gdt = 0x20000, l_tss = 0x21000, l_idt = 0x22000,
     l_stubs = replicate 48 0x30000 @ replicate 80 0 @ [0x31000], l_entrypoint = 0x32000, l_entry_user = 0x32100\<rparr>"

definition small_machine :: ipc_state where
  "small_machine = initial_state small_layout (\<lambda>_. 0)"

text \<open>Sixteen pages of memory from 2 MB on.\<close>

definition small_memory :: ipc_state where
  "small_memory = pmm_init 0x200000 0x10000 small_machine"

text \<open>Sixteen megabytes of memory from 2 MB on.\<close>

definition large_memory :: ipc_state where
  "large_memory = pmm_init 0x200000 0x1000000 small_machine"

lemma load64_zero: "load64 (\<lambda>_. 0) a = 0"
  by (rule bit_eqI) (simp add: load64_def bit_load_le)

lemma tbl_zero: "tbl (\<lambda>_. 0) r k va = (if k = 0 then Some r else None)"
  by (induction k) (simp_all add: load64_zero present_def)

lemma tables_zero: "tables (\<lambda>_. 0) r = {r}"
  by (auto simp: tables_def tbl_zero split: if_splits)

lemma pt_inv_zero: "4096 dvd unat r \<Longrightarrow> pt_inv (\<lambda>_. 0) r"
  by (auto simp: pt_inv_def tbl_zero same_path_def split: if_splits)

lemma pte_zero: "pte (\<lambda>_. 0) r va = 0"
  by (simp add: pte_def tbl_zero)

end
