(* ===== verification/Table_Budget.thy ===== *)
theory Table_Budget
  imports Address_Space
begin

text \<open>
  How many page tables the mappings below one gigabyte can still need.  The count bounds what
  \<^verbatim>\<open>vmm_init\<close> takes from the page allocator, so with enough memory it succeeds.
\<close>

section \<open>Missing tables\<close>

text \<open>
  The table positions for addresses below 2^30: one at each of the depths 1 and 2, and 512 at
  depth 3, one for every two megabytes.
\<close>

definition missing :: "memory \<Rightarrow> u64 \<Rightarrow> (nat \<times> nat) set" where
  "missing m r = {(k, j). k \<in> {1, 2, 3} \<and> j < 512 \<and> (k < 3 \<longrightarrow> j = 0) \<and> tbl m r k (of_nat (j * 2 ^ 21)) = None}"

definition position :: "nat \<Rightarrow> u64 \<Rightarrow> nat" where
  "position k va = (if k < 3 then 0 else unat va div 2 ^ 21)"

lemma missing_bound: "finite (missing m r)" "card (missing m r) \<le> 514"
proof -
  have sub: "missing m r \<subseteq> {(1 :: nat, 0 :: nat), (2, 0)} \<union> Pair 3 ` {..<512}"
    by (auto simp: missing_def)
  then show "finite (missing m r)" by (rule finite_subset) simp
  have "card (missing m r) \<le> card ({(1 :: nat, 0 :: nat), (2, 0)} \<union> Pair 3 ` {..<512 :: nat})"
    using sub by (intro card_mono) simp_all
  also have "\<dots> \<le> card {(1 :: nat, 0 :: nat), (2, 0)} + card (Pair (3 :: nat) ` {..<512 :: nat})"
    by (rule card_Un_le)
  also have "\<dots> \<le> 514" using card_image_le [of "{..<512 :: nat}" "Pair (3 :: nat)"] by simp
  finally show "card (missing m r) \<le> 514" .
qed

lemma low_bits:
  fixes va :: u64
  assumes "unat va < 2 ^ 30" "30 \<le> n"
  shows "\<not> bit va n"
proof -
  have "unat (take_bit 30 va) = unat va" using assms(1) by (simp only: unat_take_bit mod_less)
  then have "take_bit 30 va = va" by (simp add: word_unat_eq_iff)
  then show ?thesis using assms(2) by (metis bit_take_bit_iff not_le)
qed

lemma position_path:
  assumes "unat va < 2 ^ 30" "k \<le> 3"
  shows "same_path k va (of_nat (position k va * 2 ^ 21))"
proof (cases "k < 3")
  case True
  have "ix j va = ix j 0" if "j < k" for j
    unfolding ix_eq_iff using low_bits [OF assms(1)] that True by auto
  then show ?thesis using True by (simp add: same_path_def position_def)
next
  case False
  have "unat (va AND NOT (mask 21)) = unat va div 2 ^ 21 * 2 ^ 21" by (rule unat_and_not_mask)
  then have w: "of_nat (position k va * 2 ^ 21) = va AND NOT (mask 21)"
    using False by (simp only: position_def if_False) (rule word_eq_of_nat [symmetric])
  have "ix j va = ix j (va AND NOT (mask 21))" if "j < k" for j
    unfolding ix_eq_iff using that assms(2) by (auto simp: bit_simps)
  then show ?thesis unfolding w same_path_def by blast
qed

lemma missing_iff:
  assumes "unat va < 2 ^ 30" "k \<in> {1, 2, 3}"
  shows "(k, position k va) \<in> missing m r \<longleftrightarrow> tbl m r k va = None"
proof -
  have "unat va div 2 ^ 21 < 512" using assms(1) by (simp add: less_mult_imp_div_less)
  then have "position k va < 512" "k < 3 \<longrightarrow> position k va = 0" by (auto simp: position_def)
  moreover have "tbl m r k (of_nat (position k va * 2 ^ 21)) = tbl m r k va"
    using position_path [OF assms(1), of k] assms(2) by (intro tbl_same_path) auto
  ultimately show ?thesis using assms(2) by (simp add: missing_def)
qed

lemma missing_cong:
  assumes "\<And>k va. k \<le> 3 \<Longrightarrow> tbl m' r k va = tbl m r k va"
  shows "missing m' r = missing m r"
  unfolding missing_def using assms by (auto simp del: tbl.simps)

section \<open>One level of a mapping\<close>

lemma alloc_table_avail:
  assumes "vm_inv s r" "alloc_table s = Inr (n, s')"
  shows "card (pmm_avail s) \<le> Suc (card (pmm_avail s'))"
proof -
  have pi: "pmm_inv s" using assms(1) by (simp add: vm_inv_def)
  have dec: "card (pmm_avail s) \<le> Suc (card (pmm_avail (snd (pmm_alloc s))))"
    unfolding pmm.alloc_avail [OF pi] by (simp add: card_Diff_singleton_if) arith
  show ?thesis
  proof (cases "pt_pool_used s + PAGE_SIZE \<le> PT_POOL_SIZE")
    case True
    then have "pmm_avail s' = pmm_avail s" using assms(2) by (auto simp: alloc_table_def Let_def)
    then show ?thesis by simp
  next
    case False
    then have "s' = snd (pmm_alloc s)"
      using assms(2) by (cases "pmm_alloc s") (simp add: alloc_table_def split: if_splits)
    then show ?thesis using dec by simp
  qed
qed

lemma vmm_descend_budget:
  assumes inv: "vm_inv s r" and t: "tbl (mem s) r k va = Some t" "k < 3" and low: "unat va < 2 ^ 30"
    and b: "card (missing (mem s) r) \<le> card (pmm_avail s)"
  shows "\<exists>u s'. vmm_descend t (ix k va) flags s = Inr (u, s') \<and>
    card (pmm_avail s) + card (missing (mem s') r) \<le> card (pmm_avail s') + card (missing (mem s) r)"
proof (cases "present (load64 (mem s) (cell t (ix k va)))")
  case True
  then show ?thesis by (simp add: vmm_descend_def)
next
  case False
  have lev: "Suc k \<in> {1, 2, 3}" using t(2) by auto
  have none: "tbl (mem s) r (Suc k) va = None" using False t(1) by (simp add: Let_def)
  then have mem: "(Suc k, position (Suc k) va) \<in> missing (mem s) r"
    using missing_iff [OF low lev] by simp
  then have "0 < card (missing (mem s) r)" using missing_bound(1) card_gt_0_iff by blast
  then have "pmm_avail s \<noteq> {}" using b by auto
  then have "spare s \<noteq> {}" by (simp add: spare_def)
  from alloc_table_total [OF inv this] obtain n s1 where a: "alloc_table s = Inr (n, s1)" by blast
  let ?e = "n OR PTE_PRESENT OR PTE_WRITABLE OR (flags AND PTE_USER)"
  let ?m = "store64 (mem s1) (cell t (ix k va)) ?e"
  note sp = alloc_table_spec [OF inv a]
  have pn: "4096 dvd unat n" "unat n < 2 ^ 52" using inv spare_page sp(1) by (auto simp: vm_inv_def)
  have t1: "tbl (mem s1) r k va = Some t" using sp(7) t by simp
  have slot: "\<not> present (load64 (mem s1) (cell t (ix k va)))"
    using sp(8) [OF tablesI [OF t(1)]] t(2) ix_less False by simp
  have z: "load64 (mem s1) (cell n i) = 0" if "unat i < 512" for i
    using sp(2) that by (simp add: zero_page_def)
  have nt: "n \<notin> tables (mem s1) r" using sp(3,4) by simp
  have st: "tbl ?m r j v = (if j = Suc k \<and> same_path (Suc k) va v then Some n else tbl (mem s1) r j v)"
    if "j \<le> 3" for j v
    using store_table(1) [OF sp(5) t1 t(2) slot pn(1) nt _ table_entry [OF pn], of j] z that by blast
  have "tbl (mem s) r j v = None" if "j \<le> 3" "tbl ?m r j v = None" for j v
    using st [OF that(1), of v] sp(7) [OF that(1), of v] that(2) by (auto split: if_splits)
  then have "missing ?m r \<subseteq> missing (mem s) r" by (auto simp: missing_def simp del: tbl.simps)
  moreover have "(Suc k, position (Suc k) va) \<notin> missing ?m r"
    unfolding missing_iff [OF low lev] using st [of "Suc k" va] t(2) by (simp del: tbl.simps)
  ultimately have "missing ?m r \<subset> missing (mem s) r" using mem by blast
  then have "card (missing ?m r) < card (missing (mem s) r)"
    using missing_bound(1) by (rule psubset_card_mono [rotated])
  moreover have "vmm_descend t (ix k va) flags s = Inr (PTE_PHYS (load64 ?m (cell t (ix k va))), s1\<lparr>mem := ?m\<rparr>)"
    using False a by (simp add: vmm_descend_def)
  ultimately show ?thesis using alloc_table_avail [OF inv a] by (intro exI conjI) (assumption, simp)
qed

section \<open>A mapping, and the loops of \<open>vmm_init\<close>\<close>

lemma vmm_map_budget:
  assumes inv: "vm_inv s r" and low: "unat va < 2 ^ 30" and b: "card (missing (mem s) r) \<le> card (pmm_avail s)"
  shows "\<exists>s'. vmm_map r va pa flags s = Inr (0, s') \<and>
    card (pmm_avail s) + card (missing (mem s') r) \<le> card (pmm_avail s') + card (missing (mem s) r)"
proof -
  obtain t1 s1 where d1: "vmm_descend r (ix 0 va) flags s = Inr (t1, s1)"
    and b1: "card (pmm_avail s) + card (missing (mem s1) r) \<le> card (pmm_avail s1) + card (missing (mem s) r)"
    using vmm_descend_budget [OF inv _ _ low b, of 0 r flags] by auto
  note p1 = vmm_descend_spec [OF inv _ _ d1, simplified]
  note i1 = grows_inv [OF p1(1)]
  have tb1: "tbl (mem s1) r 1 va = Some t1" using p1(2) by simp
  obtain t2 s2 where d2: "vmm_descend t1 (ix 1 va) flags s1 = Inr (t2, s2)"
    and b2: "card (pmm_avail s1) + card (missing (mem s2) r) \<le> card (pmm_avail s2) + card (missing (mem s1) r)"
    using vmm_descend_budget [OF i1 tb1 _ low, of flags] b b1 by auto
  note p2 = vmm_descend_spec [OF i1 tb1 _ d2]
  note i2 = grows_inv [OF p2(1)]
  have tb2: "tbl (mem s2) r 2 va = Some t2" using p2(2) by (simp add: numeral_eq_Suc del: tbl.simps)
  obtain t3 s3 where d3: "vmm_descend t2 (ix 2 va) flags s2 = Inr (t3, s3)"
    and b3: "card (pmm_avail s2) + card (missing (mem s3) r) \<le> card (pmm_avail s3) + card (missing (mem s2) r)"
    using vmm_descend_budget [OF i2 tb2 _ low, of flags] b b1 b2 by auto
  note p3 = vmm_descend_spec [OF i2 tb2 _ d3]
  have pt3: "pt_inv (mem s3) r" using grows_inv [OF p3(1)] by (simp add: vm_inv_def)
  have tb3: "tbl (mem s3) r 3 va = Some t3" using p3(2) by (simp add: numeral_eq_Suc del: tbl.simps)
  let ?m = "store64 (mem s3) (cell t3 (ix 3 va)) (leaf_entry pa flags)"
  have "missing ?m r = missing (mem s3) r"
    by (rule missing_cong) (rule store_leaf(3) [OF pt3 tb3])
  moreover have "vmm_map r va pa flags s = Inr (0, tlb_flush va (s3\<lparr>mem := ?m\<rparr>))"
    using d1 d2 d3 by (simp add: vmm_map_def ix_levels leaf_entry_def Let_def)
  ultimately show ?thesis using b1 b2 b3 by (auto simp: tlb_flush_def)
qed

lemma identity_loop_budget:
  assumes "vm_inv s r" "kernel_pml4 s = r" "4096 dvd unat va" "4096 dvd unat stop" "unat stop \<le> 2 ^ 30"
    "card (missing (mem s) r) \<le> card (pmm_avail s)"
  shows "\<exists>s'. identity_loop va stop s = Some (Inr s') \<and>
    card (pmm_avail s) + card (missing (mem s') r) \<le> card (pmm_avail s') + card (missing (mem s) r)"
  using assms
proof (induction "unat stop - unat va" arbitrary: va s rule: less_induct)
  case less
  show ?case
  proof (cases "va < stop")
    case False
    then show ?thesis by (subst identity_loop.simps) simp
  next
    case True
    then have lt: "unat va < unat stop" by (simp add: word_less_nat_alt)
    with less.prems(3,4) have lt4: "unat va + 4096 \<le> unat stop" by (auto elim!: dvdE)
    then have step: "unat (va + PAGE_SIZE) = unat va + 4096"
      using less.prems(5) by (subst unat_add_u64) simp_all
    have "unat va < 2 ^ 30" using lt less.prems(5) by simp
    from vmm_map_budget [OF less.prems(1) this less.prems(6)] obtain s1 where
      m: "vmm_map r va va RW s = Inr (0, s1)" and
      b: "card (pmm_avail s) + card (missing (mem s1) r) \<le> card (pmm_avail s1) + card (missing (mem s) r)" by blast
    note inv1 = grows_inv [OF vmm_map_spec(2) [OF less.prems(1) m]]
    have k1: "kernel_pml4 s1 = r" using same_config_vmm_map [OF m] less.prems(2) by (simp add: same_config_def)
    have b1: "card (missing (mem s1) r) \<le> card (pmm_avail s1)" using b less.prems(6) by linarith
    have al: "4096 dvd unat (va + PAGE_SIZE)" using step less.prems(3) by simp
    have dec: "unat stop - unat (va + PAGE_SIZE) < unat stop - unat va" using step lt4 by simp
    from less.hyps [OF dec inv1 k1 al less.prems(4,5) b1] obtain s' where
      l: "identity_loop (va + PAGE_SIZE) stop s1 = Some (Inr s')" and
      c: "card (pmm_avail s1) + card (missing (mem s') r) \<le> card (pmm_avail s') + card (missing (mem s1) r)" by blast
    have "identity_loop va stop s = Some (Inr s')"
      using True m l less.prems(2) by (subst identity_loop.simps) (simp add: vmm_map_page_def)
    then show ?thesis using b c by auto
  qed
qed

lemma heap_map_loop_budget:
  assumes "vm_inv s r" "kernel_pml4 s = r" "unat va = 4096 * q" "q \<le> 2048"
    "card (missing (mem s) r) + (2048 - q) \<le> card (pmm_avail s)"
  shows "\<exists>s'. heap_map_loop va s = Some (Inr s')"
  using assms
proof (induction "2048 - q" arbitrary: va q s)
  case 0
  then have "\<not> va < KHEAP_START + KHEAP_SIZE" by (simp add: word_less_nat_alt)
  then show ?case by (subst heap_map_loop.simps) simp
next
  case (Suc n)
  have lt: "va < KHEAP_START + KHEAP_SIZE" "q < 2048" using Suc.hyps(2) Suc.prems(3,4) by (simp_all add: word_less_nat_alt)
  obtain pa s1 where a: "pmm_alloc s = (pa, s1)" by fastforce
  have pi: "pmm_inv s" using Suc.prems(1) by (simp add: vm_inv_def)
  have "pmm_avail s \<noteq> {}" using Suc.prems(5) lt(2) by auto
  then have pa: "pa \<noteq> 0" using pmm.alloc_null_iff [OF pi] a by simp
  note al = grows_pmm_alloc [OF Suc.prems(1) a pa]
  note inv1 = grows_inv [OF al(1)]
  have cfg1: "same_config s s1" using same_config_pmm_alloc [of s] a by simp
  have fin: "finite (pmm_avail s)" using pi by (rule pmm.avail_finite)
  have c1: "card (pmm_avail s) = Suc (card (pmm_avail s1))"
    unfolding al(3) using card_Suc_Diff1 [OF fin al(2)] by simp
  have b1: "card (missing (mem s1) r) \<le> card (pmm_avail s1)"
    unfolding al(4) using c1 Suc.prems(5) lt(2) by linarith
  have low: "unat va < 2 ^ 30" using Suc.prems(3) lt(2) by simp
  from vmm_map_budget [OF inv1 low b1] obtain s2 where m: "vmm_map r va pa RW s1 = Inr (0, s2)" and
    b: "card (pmm_avail s1) + card (missing (mem s2) r) \<le> card (pmm_avail s2) + card (missing (mem s1) r)" by blast
  note inv2 = grows_inv [OF vmm_map_spec(2) [OF inv1 m]]
  have k1: "kernel_pml4 s1 = r" "kernel_pml4 s2 = r"
    using cfg1 same_config_vmm_map [OF m] Suc.prems(2) by (simp_all add: same_config_def)
  have step: "unat (va + PAGE_SIZE) = 4096 * Suc q"
    using Suc.prems(3) lt(2) by (subst unat_add_u64) simp_all
  have "card (missing (mem s2) r) + (2048 - Suc q) \<le> card (pmm_avail s2)"
    using b c1 Suc.prems(5) lt(2) unfolding al(4) by linarith
  moreover have "n = 2048 - Suc q" "Suc q \<le> 2048" using Suc.hyps(2) lt(2) by linarith+
  ultimately obtain s' where "heap_map_loop (va + PAGE_SIZE) s2 = Some (Inr s')"
    using Suc.hyps(1) [OF _ inv2 k1(2) step] by blast
  then show ?case
    using lt(1) a pa m k1 by (subst heap_map_loop.simps) (simp add: vmm_map_page_def pmm_alloc_page_def)
qed

lemma spare_config:
  "spare (s\<lparr>kernel_pml4 := k\<rparr>) = spare s" "spare (s\<lparr>cr3 := k\<rparr>) = spare s" "spare (s\<lparr>con := d\<rparr>) = spare s"
  by (simp_all add: spare_def spare_pool_def)

text \<open>With 1024 pages for the heap and 514 for tables \<^verbatim>\<open>vmm_init\<close> succeeds.\<close>

lemma vmm_init_total:
  assumes inv: "vm_inv s (cr3 s)" and top: "unat (pmm_base s) + unat (pmm_total_pages s) * 4096 \<le> 2 ^ 30"
    and pages: "1538 \<le> card (pmm_avail s)"
  shows "\<exists>s'. vmm_init s = Some (Inr s') \<and> same_config (s\<lparr>kernel_pml4 := cr3 s\<rparr>) s' \<and> grows (cr3 s) s s'"
proof -
  let ?r = "cr3 s"
  obtain d where d: "vmm_init_log (s\<lparr>kernel_pml4 := ?r\<rparr>) = s\<lparr>kernel_pml4 := ?r\<rparr>\<lparr>con := d\<rparr>"
    using vmm_init_log_eq by blast
  define s1 where "s1 = s\<lparr>kernel_pml4 := ?r\<rparr>\<lparr>con := d\<rparr>"
  define stop where "stop = pmm_base s + pmm_total_pages s * PAGE_SIZE"
  have s1: "vm_inv s1 ?r" "kernel_pml4 s1 = ?r" "mem s1 = mem s" "cr3 s1 = ?r" "pmm_avail s1 = pmm_avail s"
    using inv by (simp_all add: s1_def)
  have mul: "unat (pmm_total_pages s * PAGE_SIZE) = unat (pmm_total_pages s) * 4096"
    using top by (subst unat_mult_u64) simp_all
  then have ustop: "unat stop = unat (pmm_base s) + unat (pmm_total_pages s) * 4096"
    using top unfolding stop_def by (subst unat_add_u64) simp_all
  have al: "4096 dvd unat (pmm_base s)" using inv by (simp add: vm_inv_def pmm_inv_def)
  then have "4096 dvd unat stop" "unat stop \<le> 2 ^ 30" using top by (simp_all add: ustop)
  moreover have "card (missing (mem s1) ?r) \<le> card (pmm_avail s1)"
    using missing_bound(2) [of "mem s1" ?r] pages by (simp add: s1(5))
  ultimately obtain s2 where l1: "identity_loop (pmm_base s) stop s1 = Some (Inr s2)" and
    b: "card (pmm_avail s1) + card (missing (mem s2) ?r) \<le> card (pmm_avail s2) + card (missing (mem s1) ?r)"
    using identity_loop_budget [OF s1(1,2) al] by blast
  have "unat stop \<le> 2 ^ 48" using \<open>unat stop \<le> 2 ^ 30\<close> by simp
  from identity_loop_spec [OF s1(1,2) al \<open>4096 dvd unat stop\<close> this] l1
  have g: "grows ?r s1 s2" "same_config s1 s2" by auto
  have "card (missing (mem s2) ?r) + (2048 - 1024) \<le> card (pmm_avail s2)"
    using b missing_bound(2) [of "mem s1" ?r] pages by (simp add: s1(5))
  moreover have "kernel_pml4 s2 = ?r" using g(2) s1(2) by (simp add: same_config_def)
  ultimately obtain s3 where l2: "heap_map_loop KHEAP_START s2 = Some (Inr s3)"
    using heap_map_loop_budget [OF grows_inv [OF g(1)], of KHEAP_START 1024] by auto
  have g3: "grows ?r s2 s3" "same_config s2 s3"
    using heap_map_loop_spec [OF grows_inv [OF g(1)] \<open>kernel_pml4 s2 = ?r\<close>, of KHEAP_START] l2 by auto
  have "same_config s1 s3" using g(2) g3(2) same_config_trans by blast
  then have "same_config (s\<lparr>kernel_pml4 := ?r\<rparr>) (s3\<lparr>cr3 := kernel_pml4 s3\<rparr>)"
    by (simp add: same_config_def s1_def)
  moreover have "grows ?r s (s3\<lparr>cr3 := kernel_pml4 s3\<rparr>)"
    using grows_trans [OF g(1) g3(1)] by (simp add: grows_def s1_def spare_config)
  ultimately show ?thesis using l1 l2 d by (simp add: vmm_init_def s1_def stop_def Let_def)
qed

text \<open>A change that respects the entries of the tree leaves every byte of a page outside it.\<close>

lemma load64_byte:
  assumes "load64 m' a = load64 m a" "k < 8"
  shows "m' (a + of_nat k) = m (a + of_nat k)"
proof (rule bit_word_eqI)
  fix j assume j: "j < LENGTH(8)"
  have "bit (load64 m a) (8 * k + j) \<longleftrightarrow> bit (m (a + of_nat k)) j" for m
    using j assms(2) by (simp add: load64_def bit_load_le)
  with assms(1) show "bit (m' (a + of_nat k)) j \<longleftrightarrow> bit (m (a + of_nat k)) j" by metis
qed

lemma grows_byte:
  assumes g: "grows r s s'" and x: "x AND NOT (mask 12) \<notin> spare s \<union> tables (mem s) r"
  shows "mem s' x = mem s x"
proof -
  define u where "u = x AND NOT (mask 12)"
  define q where "q = unat x mod 4096 div 8"
  define k where "k = unat x mod 8"
  have ux: "unat u = unat x div 4096 * 4096" by (simp add: u_def unat_and_not_mask)
  have "unat x mod 4096 mod 8 = k" unfolding k_def by (rule mod_mod_cancel) simp
  then have split: "unat x = unat u + 8 * q + k"
    unfolding ux q_def using div_mult_mod_eq [of "unat x" 4096] mult_div_mod_eq [of 8 "unat x mod 4096"] by linarith
  have q: "q < 512" unfolding q_def by (simp add: less_mult_imp_div_less)
  have "x = of_nat (unat x)" by simp
  then have "x = of_nat (unat u + 8 * q + k)" by (simp only: split)
  then have eq: "x = cell u (of_nat q) + of_nat k" by (simp add: cell_def)
  have "u \<notin> tables (mem s) r \<union> (spare s - spare s')" using x by (simp add: u_def)
  moreover have "unat (of_nat q :: u64) < 512" using q by (simp add: unat_of_nat)
  ultimately have "load64 (mem s') (cell u (of_nat q)) = load64 (mem s) (cell u (of_nat q))"
    using g ux unfolding grows_def by simp
  from load64_byte [OF this, of k] show ?thesis unfolding eq by (simp add: k_def)
qed

end
