(* ===== verification/Memory_Props.thy ===== *)
theory Memory_Props
  imports Initial Table_Budget
begin

text \<open>
  The properties of the memory managers (\<^verbatim>\<open>kernel/mm/pmm.c\<close>, \<^verbatim>\<open>kernel/mm/vmm.c\<close>), each with a
  concrete instance on the small machine of theory Initial.
\<close>

section \<open>The small machine has memory\<close>

lemma pmm_set_free_loop_more [simp]:
  "pmm_state.more (for_upto n (\<lambda>i. pmm_set_free (of_nat i)) s) = pmm_state.more s"
  by (induction n) (simp_all add: pmm_set_free_def)

lemma pmm_fill_more [simp]:
  "pmm_state.more (for_upto n (\<lambda>i s. s\<lparr>bitmap := (bitmap s)[i := v]\<rparr>) s) = pmm_state.more s"
  by (induction n) simp_all

lemma pmm_init_more [simp]: "pmm_state.more (pmm_init b z s) = pmm_state.more s"
  by (simp add: pmm_init_def Let_def kprintf_def)

lemma machine_memory_fields:
  fixes z :: u64
  assumes "unat z \<le> 0x20000000"
  defines "s \<equiv> pmm_init 0x200000 z small_machine"
  shows "mem s = (\<lambda>_. 0)" "pt_pool s = 0x100000" "pt_pool_used s = 0"
    "cr3 s = 0x10000" "heap_ptr s = KHEAP_START" "heap_head s = 0"
    "blocks s = Map.empty" "pmm_base s = 0x200000" "unat (pmm_total_pages s) = unat z div 4096"
    "free_pages s = {..<unat z div 4096}" "pmm_inv s"
proof -
  have b: "length (bitmap small_machine) = BITMAP_SIZE" by (simp add: small_machine_def initial_state_def)
  note f = pmm_init_fields [OF b, of "0x200000" z, folded s_def]
  note m = vmm_more_fields [OF pmm_init_more, of "0x200000" z small_machine, folded s_def]
  have sm: "small_machine = initial_state small_layout (\<lambda>_. 0)" by (rule small_machine_def)
  show "mem s = (\<lambda>_. 0)" "pt_pool s = 0x100000" "pt_pool_used s = 0"
    "cr3 s = 0x10000" "heap_ptr s = KHEAP_START" "heap_head s = 0"
    "blocks s = Map.empty"
    by (simp_all add: m sm) (simp_all add: small_layout_def)
  show "pmm_base s = 0x200000" by (simp add: f(2) PAGE_ALIGN_def ALIGN_UP_def)
  show t: "unat (pmm_total_pages s) = unat z div 4096" using assms(1) by (simp add: f(3))
  show "free_pages s = {..<unat z div 4096}" using f(6) t by simp
  show "pmm_inv s" unfolding s_def by (rule pmm_init_inv [OF b]) (use assms(1) in simp_all)
qed

lemmas small_memory_fields = machine_memory_fields [of "0x10000", folded small_memory_def, simplified]
lemmas large_memory_fields = machine_memory_fields [of "0x1000000", folded large_memory_def, simplified]

lemma card_machine_avail:
  assumes "pmm_inv s" "free_pages s = {..<n}" "unat (pmm_total_pages s) = n"
  shows "card (pmm_avail s) = n"
proof -
  have "inj_on (page_addr s) {..<n}" using inj_page_addr [OF assms(1)] by (simp add: assms(3))
  then show ?thesis by (simp add: pmm_avail_def assms(2) card_image)
qed

lemma card_small_avail: "card (pmm_avail small_memory) = 16"
  by (rule card_machine_avail) (simp_all add: small_memory_fields)

lemma machine_pool_ok:
  assumes "pt_pool s = 0x100000" "pt_pool_used s = 0" "pmm_base s = 0x200000" "unat (pmm_total_pages s) \<le> 131072"
  shows "pool_ok s"
  using assms by (simp add: pool_ok_def)

lemma machine_not_spare:
  assumes "pt_pool s = 0x100000" "pt_pool_used s = 0" "pmm_base s = 0x200000" "unat (pmm_total_pages s) \<le> 131072"
    "pmm_inv s" "unat r < 0x100000"
  shows "r \<notin> spare s"
proof
  assume "r \<in> spare s"
  then consider q where "q < 64" "r = pt_pool s + of_nat (4096 * q)"
    | p where "p < unat (pmm_total_pages s)" "r = page_addr s p"
    unfolding spare_def spare_pool_def pmm_avail_def free_pages_def by auto
  then show False
  proof cases
    case 1
    then have "unat r = unat (pt_pool s) + 4096 * q"
      by (simp only: pool_page_unat [OF machine_pool_ok [OF assms(1-4)] 1(1)])
    then show False using assms by simp
  next
    case 2
    then have "unat r = unat (pmm_base s) + p * 4096"
      using page_addr_unat [OF assms(5)] by simp
    then show False using assms by simp
  qed
qed

lemma machine_vm_inv:
  assumes "pt_pool s = 0x100000" "pt_pool_used s = 0" "pmm_base s = 0x200000" "unat (pmm_total_pages s) \<le> 131072"
    "pmm_inv s" "mem s = (\<lambda>_. 0)" "unat r < 0x100000" "4096 dvd unat r"
  shows "vm_inv s r"
  using machine_not_spare [OF assms(1-5,7)] machine_pool_ok [OF assms(1-4)] assms(5-)
  by (auto simp: vm_inv_def pt_inv_zero tables_zero zero_page_def load64_zero)

lemma small_vm_inv_at: "unat r < 0x100000 \<Longrightarrow> 4096 dvd unat r \<Longrightarrow> vm_inv small_memory r"
  by (rule machine_vm_inv) (simp_all add: small_memory_fields)

lemma small_vm_inv: "vm_inv small_memory 0x10000"
  by (rule small_vm_inv_at) simp_all

lemma large_vm_inv: "vm_inv large_memory 0x10000"
  by (rule machine_vm_inv) (simp_all add: large_memory_fields)

lemma small_spare: "3 \<le> card (spare small_memory)"
proof -
  have "card (pmm_avail small_memory) \<le> card (spare small_memory)"
    by (rule card_mono) (auto simp: finite_spare small_memory_fields spare_def)
  then show ?thesis using card_small_avail by simp
qed

section \<open>Physical pages\<close>

text \<open>C21. \<^verbatim>\<open>pmm_init\<close> hands out every page of the region it is given, up to the bitmap's 131072,
  from the page-aligned base on: its pages are free, distinct, page aligned and counted.\<close>

theorem pmm_init_correct:
  assumes "length (bitmap s) = BITMAP_SIZE" "mem_base \<noteq> 0" "unat mem_base + 4096 + unat mem_size \<le> 2 ^ 64"
  shows "pmm_inv (pmm_init mem_base mem_size s) \<and>
    free_pages (pmm_init mem_base mem_size s) = {..<min (unat mem_size div 4096) 131072} \<and>
    unat (pmm_base (pmm_init mem_base mem_size s)) = (unat mem_base + 4095) div 4096 * 4096 \<and>
    unat (pmm_free_count (pmm_init mem_base mem_size s)) = min (unat mem_size div 4096) 131072"
proof -
  note f = pmm_init_fields [OF assms(1), of mem_base mem_size]
  have "unat (PAGE_ALIGN mem_base) = (unat mem_base + 4095) div 4096 * 4096"
    using unat_ALIGN_UP [of 4096 12 mem_base] assms(3) by (simp add: PAGE_ALIGN_def)
  then show ?thesis using f pmm_init_inv [OF assms] by (simp add: pmm_free_count_def)
qed

theorem pmm_init_correct_witness:
  "pmm_inv (pmm_init 0x200000 0x10000 small_machine) \<and>
    free_pages (pmm_init 0x200000 0x10000 small_machine) = {..<16}"
  using pmm_init_correct [of small_machine "0x200000" "0x10000"]
  by (simp add: small_machine_def initial_state_def)

text \<open>C10. \<^verbatim>\<open>pmm_alloc\<close> fails exactly when no page is free; otherwise it returns a free page, which
  is then no longer free, and every other page keeps its status.\<close>

theorem pmm_alloc_correct:
  assumes "pmm_inv s"
  shows "pmm_inv (snd (pmm_alloc s)) \<and>
    (if pmm_avail s = {} then fst (pmm_alloc s) = 0 \<and> pmm_avail (snd (pmm_alloc s)) = {}
     else fst (pmm_alloc s) \<noteq> 0 \<and> fst (pmm_alloc s) \<in> pmm_avail s \<and>
       pmm_avail (snd (pmm_alloc s)) = pmm_avail s - {fst (pmm_alloc s)})"
  using pmm.alloc_inv [OF assms] pmm.alloc_empty [OF assms] pmm.alloc_fresh [OF assms]
    pmm.alloc_null_iff [OF assms] by simp

theorem pmm_alloc_correct_witness:
  "fst (pmm_alloc small_memory) \<in> pmm_avail small_memory \<and>
    pmm_avail (snd (pmm_alloc small_memory)) = pmm_avail small_memory - {fst (pmm_alloc small_memory)}"
  using pmm_alloc_correct [OF small_memory_fields(11)] card_small_avail by (auto split: if_splits)

text \<open>Pages allocated one after the other are pairwise different as long as pages are left,
  none of them is free afterwards, and no other page is lost.\<close>

lemma pmm_alloc_many_distinct:
  assumes "pmm_inv s" "n \<le> card (pmm_avail s)"
  shows "distinct (fst (alloc_many pmm_alloc n s)) \<and> length (fst (alloc_many pmm_alloc n s)) = n \<and>
    set (fst (alloc_many pmm_alloc n s)) \<subseteq> pmm_avail s \<and>
    pmm_avail (snd (alloc_many pmm_alloc n s)) = pmm_avail s - set (fst (alloc_many pmm_alloc n s))"
  using pmm.alloc_many [OF assms] by blast

lemma pmm_alloc_many_distinct_witness:
  "distinct (fst (alloc_many pmm_alloc 16 small_memory)) \<and> length (fst (alloc_many pmm_alloc 16 small_memory)) = 16"
  using pmm_alloc_many_distinct [OF small_memory_fields(11), of 16] by (simp add: card_small_avail)

text \<open>\<^verbatim>\<open>pmm_free\<close> of a page just allocated makes exactly that page free again, so the set of
  free pages and their count are what they were.\<close>

lemma pmm_free_alloc:
  assumes "pmm_inv s" "pmm_avail s \<noteq> {}"
  shows "pmm_avail (pmm_free (fst (pmm_alloc s)) (snd (pmm_alloc s))) = pmm_avail s \<and>
    unat (pmm_free_count (pmm_free (fst (pmm_alloc s)) (snd (pmm_alloc s)))) = unat (pmm_free_count s)"
proof -
  let ?t = "pmm_free (fst (pmm_alloc s)) (snd (pmm_alloc s))"
  have av: "pmm_avail ?t = pmm_avail s" by (rule pmm.release_alloc [OF assms])
  have inv: "pmm_inv ?t" using pmm.release_inv [OF pmm.alloc_inv [OF assms(1)]] .
  have count: "unat (pmm_free_pages u) = card (pmm_avail u)" if "pmm_inv u" for u :: "'a pmm_state_scheme"
  proof -
    have "inj_on (page_addr u) (free_pages u)"
      using inj_page_addr [OF that] free_pages_subset by (rule inj_on_subset)
    then show ?thesis using that by (simp add: pmm_avail_def card_image pmm_inv_def)
  qed
  show ?thesis using av count [OF inv] count [OF assms(1)] by (simp add: pmm_free_count_def)
qed

lemma pmm_free_alloc_witness:
  "pmm_avail (pmm_free (fst (pmm_alloc small_memory)) (snd (pmm_alloc small_memory))) = pmm_avail small_memory"
  using pmm_free_alloc [OF small_memory_fields(11)] card_small_avail by force

section \<open>Kernel heap\<close>

text \<open>C11. \<^verbatim>\<open>kmalloc\<close> of at most 2^63 bytes always returns; a non-null result lies in the heap
  region, overlaps no block in use, and leaves the blocks in use where they are.\<close>

theorem kmalloc_correct:
  assumes "heap_ok s" "unat n \<le> 2 ^ 63"
  shows "\<exists>p s'. kmalloc n s = Some (p, s') \<and> heap_ok s' \<and>
    (if p = 0 then live s' = live s
     else live s' = insert p (live s) \<and> p \<notin> live s \<and>
       {unat p ..< unat p + unat n} \<subseteq> {0x400018..<0x800000} \<and>
       (\<forall>q\<in>live s. {unat p ..< unat p + unat n} \<inter> payload s q = {} \<and> payload s' q = payload s q))"
proof -
  obtain p s' where k: "kmalloc n s = Some (p, s')" "heap_ok s'" using kheap.alloc_returns [OF assms] by blast
  show ?thesis
  proof (cases "p = 0")
    case True
    then show ?thesis using k kheap.alloc_null [OF assms, of s'] by simp
  next
    case False
    then show ?thesis
      using k kheap.alloc_block [OF assms k(1) False] kheap.alloc_inside [OF assms k(1) False]
        kheap.alloc_separate [OF assms k(1) False] kheap.alloc_keeps [OF assms k(1)]
      by (intro exI [of _ p] exI [of _ s']) simp
  qed
qed

theorem kmalloc_correct_witness:
  "\<exists>p s'. kmalloc 100 small_machine = Some (p, s') \<and> heap_ok s' \<and> (p \<noteq> 0 \<longrightarrow> p \<notin> live small_machine)"
proof -
  have "heap_ok small_machine"
    unfolding small_machine_def by (rule heap_with_mono [OF initial_heap_exact]) (simp add: exact_def fitting_def)
  then show ?thesis using kmalloc_correct [of small_machine 100] by (fastforce split: if_splits)
qed

text \<open>C22. \<^verbatim>\<open>kfree\<close> of a block just obtained restores the blocks in use and leaves the others where they are,
  and the same request then succeeds again, however full the heap is.\<close>

theorem kmalloc_kfree:
  assumes "heap_exact s" "unat n \<le> 2 ^ 63" "n \<noteq> 0" "kmalloc n s = Some (p, s1)" "p \<noteq> 0"
  shows "\<exists>s2 q s3. kfree p s1 = Some s2 \<and> heap_exact s2 \<and> live s2 = live s \<and>
    (\<forall>r\<in>live s. payload s2 r = payload s r) \<and> kmalloc n s2 = Some (q, s3) \<and> q \<noteq> 0"
  by (rule exact_heap.alloc_release_alloc [OF assms])

theorem kmalloc_kfree_witness:
  "\<exists>p s1 s2. kmalloc 100 small_machine = Some (p, s1) \<and> kfree p s1 = Some s2 \<and> live s2 = live small_machine"
proof -
  have h: "heap_exact small_machine" using initial_heap_exact by (simp add: small_machine_def)
  have f0: "kmalloc_find Map.empty z 0 = Some 0" for z by (subst kmalloc_find.simps) simp
  have "\<exists>s1. kmalloc 100 small_machine = Some (0x400018, s1)"
    by (simp add: kmalloc_def small_machine_def f0 ALIGN_UP_def Let_def)
  then obtain s1 where k: "kmalloc 100 small_machine = Some (0x400018, s1)" ..
  obtain s2 where "kfree 0x400018 s1 = Some s2" "live s2 = live small_machine"
    using kmalloc_kfree [OF h _ _ k] by auto
  with k show ?thesis by blast
qed

section \<open>Address spaces\<close>

text \<open>C4. A successful \<^verbatim>\<open>vmm_map\<close> makes the addresses of one page resolve to the given frame and
  leaves the translation of every other address as it was; the tree invariant is kept and the
  stale translation of the page is flushed.\<close>

theorem vmm_map_correct:
  assumes "vm_inv s r" "vmm_map r va pa flags s = Inr (c, s')" "flags AND PTE_ADDR_MASK = 0"
  shows "c = 0 \<and> vm_inv s' r \<and> va \<in> set (tlb_flushed s') \<and>
    vmm_resolve r va' s' =
      (if va' AND 0x0000FFFFFFFFF000 = va AND 0x0000FFFFFFFFF000
       then (pa AND PTE_ADDR_MASK) OR (va' AND 0xFFF) else vmm_resolve r va' s)"
proof -
  note m = vmm_map_spec [OF assms(1,2)]
  have sym: "va' AND 0x0000FFFFFFFFF000 = va AND 0x0000FFFFFFFFF000 \<longleftrightarrow> same_page va va'"
    unfolding same_page_iff by (rule eq_commute)
  show ?thesis
    unfolding sym using m grows_inv [OF m(2)]
    by (simp add: vmm_resolve_eq leaf_entry_present leaf_entry_phys [OF assms(3)])
qed

theorem vmm_map_correct_witness:
  "\<exists>s'. vmm_map 0x10000 0x700000 0x200000 3 small_memory = Inr (0, s') \<and>
    vmm_resolve 0x10000 0x700123 s' = 0x200123 \<and> vmm_resolve 0x10000 0x701000 s' = 0"
proof -
  obtain s' where m: "vmm_map 0x10000 0x700000 0x200000 3 small_memory = Inr (0, s')"
    using vmm_map_total [OF small_vm_inv small_spare] by blast
  have "vmm_resolve 0x10000 0x701000 small_memory = 0"
    by (simp add: vmm_resolve_eq small_memory_fields pte_zero present_def)
  with m vmm_map_correct [OF small_vm_inv m, of "0x700123"] vmm_map_correct [OF small_vm_inv m, of "0x701000"]
  show ?thesis by simp
qed

text \<open>\<^verbatim>\<open>vmm_map\<close> cannot fail while three pages are left for new tables, in the static pool or
  in the page allocator.\<close>

lemma vmm_map_succeeds:
  assumes "vm_inv s r" "3 \<le> card (spare s)"
  shows "\<exists>s'. vmm_map r va pa flags s = Inr (0, s')"
  using vmm_map_total [OF assms] by blast

lemma vmm_map_succeeds_witness: "\<exists>s'. vmm_map 0x10000 0x700000 0x200000 3 small_memory = Inr (0, s')"
  by (rule vmm_map_succeeds [OF small_vm_inv small_spare])

text \<open>C18. \<^verbatim>\<open>vmm_unmap\<close> makes the addresses of one page unmapped and leaves every other address's
  translation; no table is given back.\<close>

theorem vmm_unmap_correct:
  assumes "vm_inv s r"
  shows "vm_inv (vmm_unmap r va s) r \<and> spare (vmm_unmap r va s) = spare s \<and>
    vmm_resolve r va' (vmm_unmap r va s) =
      (if va' AND 0x0000FFFFFFFFF000 = va AND 0x0000FFFFFFFFF000 then 0 else vmm_resolve r va' s)"
proof -
  note u = vmm_unmap_spec [OF assms, of va]
  have sym: "va' AND 0x0000FFFFFFFFF000 = va AND 0x0000FFFFFFFFF000 \<longleftrightarrow> same_page va va'"
    unfolding same_page_iff by (rule eq_commute)
  show ?thesis
    unfolding sym using u grows_inv [OF u(1)] by (simp add: vmm_resolve_eq present_def)
qed

theorem vmm_unmap_correct_witness:
  "vm_inv (vmm_unmap 0x10000 0x700000 small_memory) 0x10000 \<and>
    vmm_resolve 0x10000 0x700123 (vmm_unmap 0x10000 0x700000 small_memory) = 0"
  using vmm_unmap_correct [OF small_vm_inv, of "0x700000" "0x700123"] by simp

text \<open>C12. Mapping and unmapping in one address space change no translation of another one that
  shares no table with it, and the two still share none afterwards.\<close>

theorem address_spaces_isolated:
  assumes "vm_inv s r" "vm_inv s q" "tables (mem s) r \<inter> tables (mem s) q = {}"
    and "vmm_map r va pa flags s = Inr (c, s') \<or> s' = vmm_unmap r va s"
  shows "vm_inv s' q \<and> vmm_resolve q va' s' = vmm_resolve q va' s \<and>
    tables (mem s') r \<inter> tables (mem s') q = {}"
proof -
  have "grows r s s'" using assms(4) vmm_map_spec(2) [OF assms(1)] vmm_unmap_spec(1) [OF assms(1)] by blast
  from grows_isolated [OF this assms(3,2)] show ?thesis by (simp add: vmm_resolve_eq)
qed

theorem address_spaces_isolated_witness:
  "vmm_resolve 0x10000 0x700000 (vmm_unmap 0x12000 0x700000 small_memory) = vmm_resolve 0x10000 0x700000 small_memory"
proof -
  have "vm_inv small_memory 0x12000" by (rule small_vm_inv_at) simp_all
  from address_spaces_isolated [OF this small_vm_inv, of "0x700000" _ _ _ "vmm_unmap 0x12000 0x700000 small_memory"]
  show ?thesis by (simp add: small_memory_fields tables_zero)
qed

text \<open>C13. With 1538 free pages (1024 for the heap, 514 for tables) below one gigabyte \<^verbatim>\<open>vmm_init\<close> succeeds:
  the heap's 1024 pages are mapped to 1024 different pages taken from the allocator, the rest of
  the managed memory is mapped to itself, every other address is as before, and the tables stay a
  tree.\<close>

theorem vmm_init_correct:
  assumes "vm_inv s (cr3 s)" "unat (pmm_base s) + unat (pmm_total_pages s) * 4096 \<le> 2 ^ 30"
    "1538 \<le> card (pmm_avail s)"
  shows "\<exists>s'. vmm_init s = Some (Inr s') \<and>
    kernel_pml4 s' = cr3 s \<and> cr3 s' = cr3 s \<and> vm_inv s' (cr3 s) \<and>
    (\<exists>f. inj_on f {1024..<2048} \<and> f ` {1024..<2048} \<subseteq> pmm_avail s - pmm_avail s' \<and>
      (\<forall>x. unat x < 2 ^ 48 \<longrightarrow> vmm_resolve (cr3 s) x s' =
        (if 0x400000 \<le> unat x \<and> unat x < 0x800000 then f (unat x div 4096) OR (x AND 0xFFF)
         else if unat (pmm_base s) \<le> unat x \<and> unat x < unat (pmm_base s) + unat (pmm_total_pages s) * 4096
           then x
         else vmm_resolve (cr3 s) x s)))"
proof -
  obtain s' where s': "vmm_init s = Some (Inr s')" using vmm_init_total [OF assms] by blast
  have "unat (pmm_base s) + unat (pmm_total_pages s) * 4096 \<le> 2 ^ 48" using assms(2) by simp
  from vmm_init_spec [OF assms(1) this] s' show ?thesis by simp
qed

theorem vmm_init_correct_witness:
  "\<exists>s'. vmm_init large_memory = Some (Inr s') \<and> cr3 s' = 0x10000 \<and> vmm_resolve 0x10000 0x300123 s' = 0x300123"
proof -
  have "card (pmm_avail large_memory) = 4096"
    by (rule card_machine_avail) (simp_all add: large_memory_fields)
  then show ?thesis
    using vmm_init_correct [of large_memory] large_vm_inv by (auto simp: large_memory_fields)
qed

text \<open>
  After \<^verbatim>\<open>vmm_init\<close> the identity mapping is broken under the heap: a page of the allocator in the
  heap's address range that is still free is not reached at its own address.
\<close>

lemma vmm_init_breaks_identity:
  assumes inv0: "vm_inv s (cr3 s)" and top: "unat (pmm_base s) + unat (pmm_total_pages s) * 4096 \<le> 2 ^ 48"
    and init: "vmm_init s = Some (Inr s')" and a: "a \<in> pmm_avail s'" "0x400000 \<le> unat a" "unat a < 0x800000"
  shows "vmm_resolve (cr3 s) a s' \<noteq> a"
proof
  assume eq: "vmm_resolve (cr3 s) a s' = a"
  obtain res where res: "vmm_init s = Some res" and all: "\<forall>s'. res = Inr s' \<longrightarrow>
    kernel_pml4 s' = cr3 s \<and> cr3 s' = cr3 s \<and> vm_inv s' (cr3 s) \<and>
    (\<exists>f. inj_on f {1024..<2048} \<and> f ` {1024..<2048} \<subseteq> pmm_avail s - pmm_avail s' \<and>
      (\<forall>x. unat x < 2 ^ 48 \<longrightarrow> vmm_resolve (cr3 s) x s' =
        (if 0x400000 \<le> unat x \<and> unat x < 0x800000 then f (unat x div 4096) OR (x AND 0xFFF)
         else if unat (pmm_base s) \<le> unat x \<and> unat x < unat (pmm_base s) + unat (pmm_total_pages s) * 4096
           then x
         else vmm_resolve (cr3 s) x s)))"
    using vmm_init_spec [OF inv0 top] by blast
  have "res = Inr s'" using res init by simp
  with all obtain f where inv: "vm_inv s' (cr3 s)"
    and f: "f ` {1024..<2048} \<subseteq> pmm_avail s - pmm_avail s'"
    and r: "\<forall>x. unat x < 2 ^ 48 \<longrightarrow> vmm_resolve (cr3 s) x s' =
        (if 0x400000 \<le> unat x \<and> unat x < 0x800000 then f (unat x div 4096) OR (x AND 0xFFF)
         else if unat (pmm_base s) \<le> unat x \<and> unat x < unat (pmm_base s) + unat (pmm_total_pages s) * 4096
           then x
         else vmm_resolve (cr3 s) x s)" by blast
  have pi: "pmm_inv s'" using inv by (simp add: vm_inv_def)
  then have "a \<in> pmm_pool s'" using pmm.avail_pool [of s'] a(1) by blast
  with pi have "4096 dvd unat a" using pmm.pool_page by blast
  then have "unat (a AND NOT (mask 12)) = unat a" by (simp add: unat_and_not_mask)
  then have l: "a AND NOT (mask 12) = a" by (simp add: word_unat_eq_iff)
  have "a AND 0xFFF = (a AND NOT (mask 12)) AND 0xFFF" by (simp add: l)
  also have "\<dots> = 0" by (simp add: and.assoc mask_eq_exp_minus_1)
  finally have z: "a AND 0xFFF = 0" .
  have "unat a < 2 ^ 48" using a(3) by simp
  with r [rule_format, of a] a(2,3) have "vmm_resolve (cr3 s) a s' = f (unat a div 4096) OR (a AND 0xFFF)"
    by simp
  then have fa: "f (unat a div 4096) = a" using z eq by simp
  have "unat a div 4096 \<in> {1024..<2048}" using a(2,3) by auto
  then have "f (unat a div 4096) \<in> pmm_avail s - pmm_avail s'" using subsetD [OF f imageI] by simp
  with fa a(1) show False by simp
qed

end
