(* ===== verification/Process_Props.thy ===== *)
theory Process_Props
  imports Initial
begin

text \<open>
  The properties of processes, scheduling, messages and system calls, each with a concrete
  instance on a machine with two processes.
\<close>

section \<open>A machine with two processes\<close>

definition duo_running :: process where
  "duo_running = zero_process\<lparr>state := PROC_RUNNING, pid := 1\<rparr>"

definition duo_ready :: process where
  "duo_ready = zero_process\<lparr>state := PROC_READY, pid := 2, kernel_rsp := 0x500000,
     p_context := zero_context\<lparr>rsp := 0x500000, rip := 0x32000\<rparr>\<rparr>"

definition duo :: ipc_state where
  "duo = small_machine\<lparr>proc_table := [duo_running, duo_ready] @ replicate 62 zero_process,
     current_proc := Some 0, next_pid := 3\<rparr>"

lemma duo_proc: "i < 64 \<Longrightarrow> proc_at i duo = (if i = 0 then duo_running else if i = 1 then duo_ready else zero_process)"
  by (auto simp: duo_def proc_at_def nth_append nth_Cons' )

lemma duo_fields [simp]:
  "length (proc_table duo) = 64" "current_proc duo = Some 0" "next_pid duo = 3"
  "msg_used duo = replicate 128 False" "msg_pool duo = replicate 128 zero_message" "mem duo = (\<lambda>_. 0)"
  by (simp_all add: duo_def small_machine_def initial_state_def)

lemma duo_process_fields [simp]:
  "state duo_running = PROC_RUNNING" "pid duo_running = 1" "msg_queue duo_running = None"
  "msg_tail duo_running = None" "msg_count duo_running = 0"
  "state duo_ready = PROC_READY" "pid duo_ready = 2" "msg_queue duo_ready = None"
  "msg_tail duo_ready = None" "msg_count duo_ready = 0"
  by (simp_all add: duo_running_def duo_ready_def)

lemma duo_used: "i < 64 \<Longrightarrow> used i duo \<longleftrightarrow> i = 0 \<or> i = 1"
  by (simp add: used_def duo_proc)

lemma duo_run_inv: "run_inv duo"
  by (rule run_invI) (auto simp: duo_proc duo_used split: if_splits)

lemma duo_pid_inv: "pid_inv duo"
proof -
  have "{i. i < 64 \<and> used i duo} = {0, 1}" using duo_used by auto
  then have "card {i. i < 64 \<and> used i duo} = 2" by simp
  then show ?thesis unfolding pid_inv_def by (auto simp: duo_used duo_proc)
qed

lemma duo_ipc_inv: "ipc_inv duo"
proof -
  have "queues duo (\<lambda>_. [])" by (simp add: queues_def linked_def owned_def box_ok_def duo_proc)
  moreover have "pool_inv duo" by (simp add: pool_inv_def msg_at_def zero_message_def)
  ultimately show ?thesis by (auto simp: ipc_inv_def)
qed

lemma duo_kernel_inv: "kernel_inv duo"
proof -
  have "heap_inv duo = heap_inv small_machine" by (rule heap_inv_cong) (simp_all add: duo_def)
  then show ?thesis
    using initial_heap_inv by (simp add: kernel_inv_def duo_run_inv duo_pid_inv duo_ipc_inv small_machine_def)
qed

lemma duo_mail_inv: "mail_inv duo"
  by (simp add: mail_inv_def duo_run_inv duo_ipc_inv)

lemma duo_mailbox: "p < 64 \<Longrightarrow> mailbox duo p = []"
  by (simp add: mailbox_def entries_def duo_proc)

section \<open>The kernel's invariant\<close>

text \<open>C1. Whatever sequence of timer interrupts, system calls, creations of kernel and user processes and computations
  follows, the kernel's invariant is kept: at most the current process is RUNNING, process numbers
  are different, message queues are well formed and share no entry, and the heap's blocks fill it one after
  another, all in use (what their headers say of their size aside, which a switch may overwrite).
  No process ever leaves the table or changes its number.\<close>

theorem kernel_invariant:
  assumes "kernel_inv s" "reaches s s'"
  shows "kernel_inv s' \<and> (\<forall>i<PROC_MAX. used i s \<longrightarrow> used i s' \<and> pid (proc_at i s') = pid (proc_at i s))"
  using reaches_inv [OF assms(2,1)] by (simp add: later_def)

theorem kernel_invariant_witness:
  "kernel_inv (proc_yield (timer_irq duo)) \<and> pid (proc_at 1 (proc_yield (timer_irq duo))) = 2"
proof -
  have "kstep duo (timer_irq duo)" "kstep (timer_irq duo) (proc_yield (timer_irq duo))"
    by (rule k_timer k_yield)+
  then have "reaches duo (proc_yield (timer_irq duo))" by (metis rtranclp.simps)
  from kernel_invariant [OF duo_kernel_inv this] have k: "kernel_inv (proc_yield (timer_irq duo))"
    and i: "\<forall>i<PROC_MAX. used i duo \<longrightarrow> pid (proc_at i (proc_yield (timer_irq duo))) = pid (proc_at i duo)"
    by blast+
  have "used 1 duo" "pid (proc_at 1 duo) = 2" by (simp_all add: duo_used duo_proc)
  with k i show ?thesis by simp
qed

text \<open>The invariant holds when the kernel starts, after \<^verbatim>\<open>proc_init\<close> on the zeroed tables.\<close>

lemma initial_invariant: "kernel_inv (proc_init (initial_state L m))"
proof -
  obtain d where "proc_init (initial_state L m) = (initial_state L m)\<lparr>con := d\<rparr>"
    using proc_init_fresh [OF initial_fresh] by blast
  moreover have "fresh ((initial_state L m)\<lparr>con := d\<rparr>)" using initial_fresh by simp
  ultimately show ?thesis using fresh_kernel_inv by metis
qed

section \<open>Scheduling\<close>

text \<open>C2. \<^verbatim>\<open>schedule\<close> gives the processor to the READY process that comes first in cyclic order after
  the caller, or back to a caller that was RUNNING if it is the only one; the new process is the
  RUNNING one, a RUNNING caller becomes READY, the stack pointer for interrupts is the new
  process's, and every other process keeps its state.\<close>

theorem schedule_correct:
  assumes "run_inv s" "current_proc s = Some c" "tss_rsp (tss s) \<noteq> []"
    "state (proc_at c s) = PROC_RUNNING \<or> (\<exists>i<PROC_MAX. state (proc_at i s) = PROC_READY)"
  shows "\<exists>i<PROC_MAX. current_proc (schedule s) = Some i \<and>
    (state (proc_at i s) = PROC_READY \<or> i = c \<and> state (proc_at c s) = PROC_RUNNING) \<and>
    (\<forall>j<PROC_MAX. state (proc_at j s) = PROC_READY \<longrightarrow> dist c i \<le> dist c j) \<and>
    tss_rsp (tss (schedule s)) ! 0 = kernel_rsp (proc_at i s) \<and>
    (\<forall>k<PROC_MAX. state (proc_at k (schedule s)) =
      (if k = i then PROC_RUNNING else if k = c \<and> state (proc_at c s) = PROC_RUNNING then PROC_READY
       else state (proc_at k s)))"
  using assms(1,2)
proof (cases rule: schedule_cases)
  case idle
  then show ?thesis using assms(4) by blast
next
  case (switch i)
  have c: "c < length (proc_table s)" "i < length (proc_table s)"
    using run_inv_current [OF assms(1,2)] run_inv_length [OF assms(1)] switch(1) by simp_all
  have "kernel_rsp (proc_at i (preempt c s)) = kernel_rsp (proc_at i s)" using c by (simp add: preempt_proc)
  then have "tss_rsp (tss (schedule s)) ! 0 = kernel_rsp (proc_at i s)"
    using dispatch_rsp0 [of i "preempt c s" c] c assms(3) by (simp add: switch(5))
  moreover have "current_proc (schedule s) = Some i" by (simp add: switch(5))
  ultimately show ?thesis
    using switch schedule_state [OF assms(1,2) switch(5,1)] by blast
qed

theorem schedule_correct_witness:
  "\<exists>i<PROC_MAX. current_proc (schedule duo) = Some i \<and> dist 0 i \<le> dist 0 1"
proof -
  have "tss_rsp (tss duo) \<noteq> []" by (simp add: duo_def small_machine_def)
  from schedule_correct [OF duo_run_inv duo_fields(2) this] obtain i where
    "i < PROC_MAX" "current_proc (schedule duo) = Some i"
    "\<forall>j<PROC_MAX. state (proc_at j duo) = PROC_READY \<longrightarrow> dist 0 i \<le> dist 0 j"
    by (auto simp: duo_proc)
  then show ?thesis by (auto simp: duo_proc)
qed

text \<open>If the processor is only passed on, each READY process runs after at most as many calls of
  \<^verbatim>\<open>schedule\<close> as its distance in the table, so after at most 64.\<close>

lemma round_robin:
  assumes "run_inv s" "current_proc s = Some c" "i < PROC_MAX" "state (proc_at i s) = PROC_READY"
  shows "\<exists>k. 1 \<le> k \<and> k \<le> dist c i \<and> dist c i \<le> PROC_MAX \<and> current_proc ((schedule ^^ k) s) = Some i \<and>
    state (proc_at i ((schedule ^^ k) s)) = PROC_RUNNING"
proof -
  have "dist c i \<le> 64" using dist_bounds run_inv_current [OF assms(1,2)] assms(3) by blast
  then show ?thesis using round_robin_steps [OF assms] by blast
qed

lemma round_robin_witness: "current_proc (schedule duo) = Some 1"
proof -
  have "state (proc_at 1 duo) = PROC_READY" by (simp add: duo_proc)
  moreover have "dist 0 1 = 1" by (simp add: dist_def)
  ultimately show ?thesis using round_robin [OF duo_run_inv duo_fields(2), of 1] by (auto simp: le_Suc_eq)
qed

text \<open>C15. A process switched away and later switched back to finds the registers, stack pointer and
  continuation it would have after an ordinary return from \<^verbatim>\<open>switch_context\<close>, provided only that
  its saved context was left alone; so does one that is picked again at once.\<close>

theorem switch_context_roundtrip:
  assumes "i < length (proc_table s)" "k < length (proc_table t)"
    and "k \<noteq> i \<Longrightarrow> p_context (proc_at i t) = p_context (proc_at i (switch_context i j s))"
    and "k = i \<Longrightarrow> t = s"
  shows "cpu (switch_context k i t) = (cpu s)\<lparr>rip := load64 (mem s) (rsp (cpu s)), rsp := rsp (cpu s) + 8\<rparr>"
proof (cases "k = i")
  case True
  then show ?thesis using switch_context_self [OF assms(1)] assms(4) by (simp add: after_return_def)
next
  case False
  then have "cpu (switch_context k i t) = (p_context (proc_at i t))\<lparr>rsp := rsp (p_context (proc_at i t)) + 8\<rparr>"
    using switch_context_cpu [OF assms(2)] by simp
  moreover have "p_context (proc_at i t) = saved_context s"
    using assms(1,3) False by (simp add: proc_at_switch_context)
  ultimately show ?thesis by (simp add: saved_context_def)
qed

theorem switch_context_roundtrip_witness:
  "cpu (switch_context 1 0 (switch_context 0 1 duo))
    = (cpu duo)\<lparr>rip := load64 (mem duo) (rsp (cpu duo)), rsp := rsp (cpu duo) + 8\<rparr>"
  using switch_context_roundtrip [of 0 duo 1 "switch_context 0 1 duo" 1] by simp



text \<open>\<^verbatim>\<open>proc_find\<close> finds a process by its number: for every process in the table it returns that
  process and no other, and nothing for a number nobody has.\<close>

lemma proc_find_correct:
  assumes "pid_inv s"
  shows "proc_find p s = Some i \<longleftrightarrow> i < PROC_MAX \<and> used i s \<and> pid (proc_at i s) = p"
proof
  assume "proc_find p s = Some i"
  then show "i < PROC_MAX \<and> used i s \<and> pid (proc_at i s) = p" using proc_find_Some by blast
next
  assume i: "i < PROC_MAX \<and> used i s \<and> pid (proc_at i s) = p"
  show "proc_find p s = Some i"
  proof (cases "proc_find p s")
    case None
    then show ?thesis using i by (auto simp: proc_find_def find_None_iff used_def)
  next
    case (Some j)
    note j = proc_find_Some [OF Some]
    have "j = i" using assms j i unfolding pid_inv_def by blast
    with Some show ?thesis by simp
  qed
qed

text \<open>When nothing else is READY, \<^verbatim>\<open>proc_exit\<close> returns to its caller: the process is a ZOMBIE but
  stays the current one and goes on executing.\<close>

lemma proc_exit_may_return:
  assumes "run_inv s" "current_proc s = Some c" "\<forall>i<PROC_MAX. i \<noteq> c \<longrightarrow> state (proc_at i s) \<noteq> PROC_READY"
  shows "current_proc (proc_exit code s) = Some c \<and> state (proc_at c (proc_exit code s)) = PROC_ZOMBIE \<and>
    cpu (proc_exit code s) = cpu s"
proof -
  let ?t = "set_proc c (\<lambda>p. p\<lparr>state := PROC_ZOMBIE, exit_code := code\<rparr>) s"
  have c: "c < length (proc_table s)" using run_inv_current [OF assms(1,2)] by simp
  have t: "proc_at k ?t = (if k = c then (proc_at c s)\<lparr>state := PROC_ZOMBIE, exit_code := code\<rparr> else proc_at k s)" for k
    using c by (simp add: proc_at_set_proc)
  have "run_inv ?t" by (rule run_inv_set_proc [OF assms(1)]) simp_all
  then have r: "run_inv (kprintf f xs ?t)" for f xs by simp
  have cu: "current_proc (kprintf f xs ?t) = Some c" for f xs using assms(2) by simp
  have id: "schedule (kprintf f xs ?t) = kprintf f xs ?t" for f xs
    using r [of f xs] cu [of f xs]
  proof (cases rule: schedule_cases)
    case (switch i)
    then show ?thesis using assms(3) by (auto simp: t split: if_splits)
  qed
  have "proc_exit code s = kprintf ''[PROC] pid=%d exited code=%d
'' [Num (scast (pid (proc_at c ?t))), Num (scast code)] ?t"
    using assms(2) id by (simp only: proc_exit_def option.case Let_def)
  then show ?thesis using assms(2) t by simp
qed

definition solo :: ipc_state where
  "solo = set_proc 1 (\<lambda>p. p\<lparr>state := PROC_ZOMBIE\<rparr>) duo"

lemma proc_exit_may_return_witness:
  "current_proc (proc_exit 0 solo) = Some 0 \<and> state (proc_at 0 (proc_exit 0 solo)) = PROC_ZOMBIE"
proof -
  have r: "run_inv solo" unfolding solo_def by (rule run_inv_set_proc [OF duo_run_inv]) simp_all
  have "\<forall>i<PROC_MAX. i \<noteq> 0 \<longrightarrow> state (proc_at i solo) \<noteq> PROC_READY"
    by (auto simp: solo_def proc_at_set_proc duo_proc)
  from proc_exit_may_return [OF r _ this] show ?thesis by (simp add: solo_def)
qed

end
