(* ===== verification/Message_Props.thy ===== *)
theory Message_Props
  imports Process_Props
begin

text \<open>
  The properties of message passing (\<^verbatim>\<open>kernel/ipc/ipc.c\<close>), of the system calls
  (\<^verbatim>\<open>kernel/proc/syscall.c\<close>) and of the interrupt dispatcher (\<^verbatim>\<open>kernel/arch/x86_64/idt.c\<close>).
\<close>

section \<open>Messages\<close>

lemma duo_find: "proc_find 2 duo = Some 1" "proc_find 1 duo = Some 0"
  by (simp_all add: proc_find_def upt_rec duo_proc)

lemma duo_cur_pid: "cur_pid duo = 1"
  by (simp add: cur_pid_def duo_proc)

lemma duo_bytes: "read_bytes (mem duo) 0x1000 (unat (3 :: u32)) = [0, 0, 0]"
  by (simp add: read_bytes_def upt_rec)

lemma duo_send:
  assumes "proc_find d duo = Some t"
  shows "\<exists>s1. ipc_send d 7 0x1000 3 duo = (0, s1)"
proof -
  obtain q where pi: "pool_inv duo" and ow: "owned duo q"
    using duo_ipc_inv by (auto simp: ipc_inv_def queues_def)
  have "\<not> (\<forall>i<128. msg_used duo ! i)" by (intro notI) (drule spec [of _ 0], simp)
  with pi ow assms show ?thesis
    by (cases rule: ipc_send_cases [of duo q d 7 "0x1000" 3]) simp_all
qed



text \<open>C3. Messages arrive in the order they were sent: after a successful send, the receiver gets first
  the letters that were waiting before, in order, then the new one, and its box is then empty.\<close>

theorem ipc_fifo:
  assumes "mail_inv s" "ipc_send dst ty data len s = (0, s1)" "proc_find dst s = Some t"
    "length bufs = length (mailbox s t)" "data \<noteq> 0"
  shows "\<exists>s2 s3. fetch_many fetch t bufs s1 = Some (mailbox s t, s2) \<and>
    fetch t out s2 = Some ((cur_pid s, ty, read_bytes (mem s) data (unat len)), s3) \<and> mailbox s3 t = []"
proof -
  have "post (dst, ty, data, len) s = (0, s1)" "request_target (dst, ty, data, len) s = Some t"
    using assms(2,3) by simp_all
  from ipc.posted_letter_arrives [OF assms(1) this assms(4), of out] obtain l s2 s3 where
    l: "request_letter (dst, ty, data, len) s l" and
    r: "fetch_many fetch t bufs s1 = Some (mailbox s t, s2)" "fetch t out s2 = Some (l, s3)" "mailbox s3 t = []"
    by blast
  from l have "l = (cur_pid s, ty, read_bytes (mem s) data (unat len))"
    using assms(5) by (cases l) auto
  with r show ?thesis by blast
qed

theorem ipc_fifo_witness:
  "\<exists>s1 s2 s3. ipc_send 2 7 0x1000 3 duo = (0, s1) \<and> fetch_many fetch 1 [] s1 = Some ([], s2) \<and>
    fetch 1 0x2000 s2 = Some ((1, 7, [0, 0, 0]), s3)"
proof -
  have b: "mailbox duo 1 = []" by (rule duo_mailbox) simp
  obtain s1 where s1: "ipc_send 2 7 0x1000 3 duo = (0, s1)" using duo_send [OF duo_find(1)] by blast
  from ipc_fifo [OF duo_mail_inv s1 duo_find(1), of "[]" "0x2000"] s1 show ?thesis
    unfolding b duo_cur_pid duo_bytes by auto
qed

text \<open>
  \<open>waits\<close>: the receiver has found its box empty \<open>n\<close> times and was resumed each time, the last
  time in state \<open>s'\<close>, with the invariant in force whenever it looks.
\<close>

primrec waits :: "'a ipc_state_scheme resume \<Rightarrow> nat \<Rightarrow> nat \<Rightarrow> 'a ipc_state_scheme \<Rightarrow> 'a ipc_state_scheme \<Rightarrow> bool" where
  "waits resume c 0 s s' \<longleftrightarrow> s' = s \<and> mail_inv s"
| "waits resume c (Suc n) s s' \<longleftrightarrow> mail_inv s \<and> mailbox s c = [] \<and>
     (\<exists>t. resume c (proc_sleep 10 s) = Some t \<and> waits resume c n t s')"

lemma recv_loop_returns:
  assumes "waits resume c n s s'" "c < 64" "mailbox s' c = l # ls"
  shows "\<exists>s''. ipc_recv_loop resume c out s = Some (0, s'') \<and> letter_in (mem s'') out = l \<and>
    mailbox s'' c = ls \<and> mail_inv s'' \<and> (\<forall>p<64. p \<noteq> c \<longrightarrow> mailbox s'' p = mailbox s' p)"
  using assms
proof (induction n arbitrary: s)
  case 0
  then have s: "s' = s" "mail_inv s" by simp_all
  from s(2) 0(2) show ?case
  proof (cases rule: mail_recv [where out = out])
    case empty
    then show ?thesis using 0(3) s by simp
  next
    case (letter l' ls' t)
    then have "ipc_recv_loop resume c out s = Some (0, t)" by (subst ipc_recv_loop.simps) simp
    then show ?thesis using letter 0 s by auto
  qed
next
  case (Suc n)
  then obtain t where t: "mail_inv s" "mailbox s c = []" "resume c (proc_sleep 10 s) = Some t" "waits resume c n t s'"
    by auto
  from t(1) Suc.prems(2) have "ipc_recv_pass c out s = Inr (proc_sleep 10 s)"
    by (cases rule: mail_recv [where out = out]) (use t(2) in auto)
  then have "ipc_recv_loop resume c out s = ipc_recv_loop resume c out t"
    using t(3) by (subst ipc_recv_loop.simps) simp
  then show ?case using Suc.IH [OF t(4) Suc.prems(2,3)] by simp
qed

text \<open>C9. \<^verbatim>\<open>ipc_recv\<close> returns as soon as the caller, resumed any number of times with an empty box, is
  resumed with a letter in it: the result is 0, the caller's buffer holds the oldest letter, that
  letter has left the box, and no other box has changed.\<close>

theorem ipc_recv_returns:
  assumes "current_proc s = Some c" "c < PROC_MAX" "out \<noteq> 0" "waits resume c n s s'" "mailbox s' c = l # ls"
  shows "\<exists>s''. ipc_recv resume out s = Some (0, s'') \<and> letter_in (mem s'') out = l \<and> mailbox s'' c = ls \<and>
    mail_inv s'' \<and> (\<forall>p<PROC_MAX. p \<noteq> c \<longrightarrow> mailbox s'' p = mailbox s' p)"
  using recv_loop_returns [OF assms(4,2,5), of out] assms(1,3) by (simp add: ipc_recv_def)

theorem ipc_recv_returns_witness:
  "\<exists>s1 s''. ipc_send 1 7 0x1000 3 duo = (0, s1) \<and> ipc_recv (\<lambda>c _. Some s1) 0x2000 duo = Some (0, s'') \<and>
    letter_in (mem s'') 0x2000 = (1, 7, [0, 0, 0])"
proof -
  obtain s1 where s1: "ipc_send 1 7 0x1000 3 duo = (0, s1)" using duo_send [OF duo_find(2)] by blast
  have nz: "(0x1000 :: u64) \<noteq> 0" by simp
  have "mail_inv s1 \<and> (\<exists>t m. request_target (1, 7, 0x1000, 3) duo = Some t \<and> t < 64 \<and>
      request_letter (1, 7, 0x1000, 3) duo m \<and> (\<forall>p<64. mailbox s1 p = (if p = t then mailbox duo t @ [m] else mailbox duo p)))"
    by (rule ipc.post_ok [OF duo_mail_inv]) (simp add: s1)
  then obtain m where mi: "mail_inv s1" and m: "request_letter (1, 7, 0x1000, 3) duo m"
    and b: "mailbox s1 0 = [m]" using duo_find(2) duo_mailbox [of 0] by auto
  have "m = (1, 7, [0, 0, 0])" using m duo_cur_pid duo_bytes nz by (cases m) simp
  moreover have "waits (\<lambda>c _. Some s1) 0 1 duo s1" by (simp add: duo_mail_inv mi duo_mailbox)
  ultimately show ?thesis
    using ipc_recv_returns [of duo 0 "0x2000" "\<lambda>c _. Some s1" 1 s1] s1 b by auto
qed

section \<open>System calls\<close>

text \<open>A system call with a number the dispatcher does not know returns \<open>- ENOSYS\<close> and changes nothing
  but the console; this includes READ, OPEN, CLOSE, LSEEK, SPAWN, WAITPID, GETDENTS and SBRK of the
  public header.\<close>

lemma unknown_syscall:
  assumes "num \<notin> {SYS_EXIT, SYS_WRITE, SYS_GETPID, SYS_GETPPID, SYS_YIELD, SYS_SLEEP, SYS_IPC_SEND, SYS_IPC_RECV}"
  shows "\<exists>d. syscall_handler resume num a1 a2 a3 a4 s = Some (- 38, s\<lparr>con := d\<rparr>)"
  using assms by (auto simp: syscall_handler_def ENOSYS_def kprintf_def)

lemma unknown_syscall_witness:
  "\<exists>d. syscall_handler (\<lambda>_ _. None) 251 2 0 0 0 duo = Some (- 38, duo\<lparr>con := d\<rparr>)"
  by (rule unknown_syscall) simp

lemma sys_write_con: "\<exists>d. sys_write buf len s = s\<lparr>con := d\<rparr> \<and>
    d = fold kputc (read_bytes (mem s) buf (unat len)) (con s)"
proof -
  have "for_upto n (\<lambda>i s. s\<lparr>con := kputc (mem s (buf + of_nat i)) (con s)\<rparr>) s
      = s\<lparr>con := fold kputc (read_bytes (mem s) buf n) (con s)\<rparr>" for n
    by (induction n) (simp_all add: read_bytes_def)
  then show ?thesis by (simp add: sys_write_def)
qed

section \<open>Interrupts\<close>

text \<open>The timer interrupt acknowledges the interrupt controller only after the scheduler: up to the
  switch to another process nothing has been written to the controller, so no further timer
  interrupt is delivered until the interrupted process is resumed.\<close>

lemma timer_switches_before_eoi:
  assumes "run_inv s"
  shows "outs (con (timer_irq s)) = outs (con s)"
proof -
  have "run_inv (s\<lparr>ticks := ticks s + 1\<rparr>)" using assms by simp
  from schedule_frame(5) [OF count_down_inv [OF this]] show ?thesis
    by (simp add: timer_irq_def sched_tick_eq) (simp add: count_down_def)
qed

lemma timer_switches_before_eoi_witness: "outs (con (timer_irq duo)) = []"
  using timer_switches_before_eoi [OF duo_run_inv] by (simp add: duo_def small_machine_def initial_state_def zero_console_def)

text \<open>The dispatcher: an exception always ends in a panic with interrupts off; any other interrupt that returns leaves
  the interrupted registers alone, except that a system call sets \<^verbatim>\<open>rax\<close> to its result.\<close>

lemma interrupt_dispatch_frame:
  "case interrupt_dispatch resume fr s of
     None \<Rightarrow> 32 \<le> int_no fr
   | Some (Inl (e, s')) \<Rightarrow> int_no fr < 32 \<and> e = Panic ''unhandled exception'' \<and>
       \<not> iflag s'
   | Some (Inr (fr', s')) \<Rightarrow> 32 \<le> int_no fr \<and>
       fr' = (if int_no fr = 0x80 then fr\<lparr>f_rax := f_rax fr'\<rparr> else fr)"
proof (cases "int_no fr < 32")
  case True
  then show ?thesis by (simp add: interrupt_dispatch_def panic_def kprintf_def cli_def)
next
  case False
  then show ?thesis
    by (auto simp: interrupt_dispatch_def Let_def not_less split: option.split)
qed

end
