(* ===== verification/Initrd.thy ===== *)
theory Initrd
  imports Initial
begin

text \<open>
  The initial ramdisk, \<^verbatim>\<open>kernel/initrd.c\<close>: a parser of the cpio \<open>newc\<close> format that fills a table of
  at most 128 files, with look-up, read and listing.  A C string given as an argument is the list
  of its bytes before the NUL; one in memory is an address.
\<close>

section \<open>State\<close>

record initrd_file =
  f_name :: u64
  f_size :: u32
  f_data :: u64

record kern_state = ipc_state +
  initrd_files :: "initrd_file list"
  initrd_file_count :: u64

abbreviation INITRD_MAX_FILES :: u64 where "INITRD_MAX_FILES \<equiv> 128"

text \<open>\<open>CPIO_HEADER_SIZE\<close> is \<^verbatim>\<open>sizeof(cpio_newc_header_t)\<close>; two of its fields are read, besides the magic.\<close>

abbreviation CPIO_HEADER_SIZE :: u64 where "CPIO_HEADER_SIZE \<equiv> 110"
abbreviation C_FILESIZE :: u64 where "C_FILESIZE \<equiv> 54"
abbreviation C_NAMESIZE :: u64 where "C_NAMESIZE \<equiv> 94"

section \<open>Utilities\<close>

fun memcmp_simple :: "u8 list \<Rightarrow> u8 list \<Rightarrow> int" where
  "memcmp_simple (p # ps) (q # qs) = (if p \<noteq> q then uint p - uint q else memcmp_simple ps qs)"
| "memcmp_simple _ _ = 0"

fun strcmp_simple :: "memory \<Rightarrow> u64 \<Rightarrow> u8 list \<Rightarrow> int" where
  "strcmp_simple m a [] = uint (m a)"
| "strcmp_simple m a (b # bs) =
     (if m a \<noteq> 0 \<and> b \<noteq> 0 \<and> m a = b then strcmp_simple m (a + 1) bs else uint (m a) - uint b)"

definition hex_digit :: "u8 \<Rightarrow> u32" where
  "hex_digit c =
     (if 48 \<le> c \<and> c \<le> 57 then ucast c - 48
      else if 97 \<le> c \<and> c \<le> 102 then ucast c - 97 + 10
      else if 65 \<le> c \<and> c \<le> 70 then ucast c - 65 + 10
      else 0)"

definition hex8_to_u32 :: "memory \<Rightarrow> u64 \<Rightarrow> u32" where
  "hex8_to_u32 m s = for_upto 8 (\<lambda>i v. push_bit 4 v OR hex_digit (m (s + of_nat i))) 0"

definition align4 :: "u32 \<Rightarrow> u32" where
  "align4 x = (x + 3) AND NOT 3"

definition align4_ptr :: "u64 \<Rightarrow> u64" where
  "align4_ptr x = (x + 3) AND NOT 3"

text \<open>A C string in memory; \<open>None\<close> if no NUL follows, when C code reading it runs on for ever.\<close>

partial_function (option) c_string :: "memory \<Rightarrow> u64 \<Rightarrow> u8 list option" where
  "c_string m a =
     (if m a = 0 then Some []
      else Option.bind (c_string m (a + 1)) (\<lambda>bs. Some (m a # bs)))"

section \<open>Operations\<close>

definition initrd_dump :: "u64 \<Rightarrow> 'a kern_state_scheme \<Rightarrow> 'a kern_state_scheme" where
  "initrd_dump start s =
     kprintf [CHR 0x0A] []
       (for_upto 32 (\<lambda>i s. kprintf ''%02x '' [Num (ucast (mem s (start + of_nat i)))] s)
         (kprintf ''[INITRD] dump @%p (first 32 bytes):
'' [Num start] s))"

definition magic_ok :: "memory \<Rightarrow> u64 \<Rightarrow> bool" where
  "magic_ok m p \<longleftrightarrow> \<not> (m p \<noteq> 48 \<or> m (p + 1) \<noteq> 55 \<or> m (p + 2) \<noteq> 48 \<or> m (p + 3) \<noteq> 55 \<or>
     m (p + 4) \<noteq> 48 \<or> m (p + 5) \<noteq> 49)"

definition initrd_add :: "u64 \<Rightarrow> u32 \<Rightarrow> u64 \<Rightarrow> 'a kern_state_scheme \<Rightarrow> 'a kern_state_scheme" where
  "initrd_add name sz data s =
     (if initrd_file_count s < INITRD_MAX_FILES
      then s\<lparr>initrd_files := (initrd_files s)[unat (initrd_file_count s) :=
               \<lparr>f_name = name, f_size = sz, f_data = data\<rparr>],
             initrd_file_count := initrd_file_count s + 1\<rparr>
      else s)"

text \<open>
  The scan.  The pointer arithmetic is that of the machine: near the end of the address space it
  wraps, and the loop may then not end.
\<close>

partial_function (option) initrd_scan ::
  "u64 \<Rightarrow> u64 \<Rightarrow> 'a kern_state_scheme \<Rightarrow> 'a kern_state_scheme option" where
  "initrd_scan p stop s =
     (if p + CPIO_HEADER_SIZE \<le> stop then
        if \<not> magic_ok (mem s) p then Some (kprintf ''[INITRD] invalid magic
'' [] s)
        else
          let namesize = hex8_to_u32 (mem s) (p + C_NAMESIZE);
              filesize = hex8_to_u32 (mem s) (p + C_FILESIZE);
              name = p + CPIO_HEADER_SIZE
          in if namesize = 11 \<and> memcmp_simple (read_bytes (mem s) name 10) (bytes_of ''TRAILER!!!'') = 0
             then Some s
             else
               let file_data = align4_ptr (name + ucast namesize);
                   p' = align4_ptr (file_data + ucast filesize)
               in if p' > stop then Some s
                  else initrd_scan p' stop (initrd_add name filesize file_data s)
      else Some s)"

definition initrd_init :: "u64 \<Rightarrow> u64 \<Rightarrow> 'a kern_state_scheme \<Rightarrow> 'a kern_state_scheme option" where
  "initrd_init start stop s =
     (case initrd_scan start stop (initrd_dump start (s\<lparr>initrd_file_count := 0\<rparr>)) of
        None \<Rightarrow> None
      | Some s1 \<Rightarrow> Some (kprintf ''[INITRD] files=%d
'' [Num (scast (ucast (initrd_file_count s1) :: u32))] s1))"

definition initrd_find :: "u8 list \<Rightarrow> 'a kern_state_scheme \<Rightarrow> nat option" where
  "initrd_find name s =
     find (\<lambda>i. strcmp_simple (mem s) (f_name (initrd_files s ! i)) name = 0)
       [0..<unat (initrd_file_count s)]"

definition initrd_read ::
  "initrd_file option \<Rightarrow> u64 \<Rightarrow> u64 \<Rightarrow> u64 \<Rightarrow> 'a kern_state_scheme \<Rightarrow> u64 \<times> 'a kern_state_scheme" where
  "initrd_read f off buf len s =
     (case f of
        None \<Rightarrow> (0, s)
      | Some x \<Rightarrow>
          if off \<ge> ucast (f_size x) then (0, s)
          else
            let n = (if off + len > ucast (f_size x) then ucast (f_size x) - off else len)
            in (n, s\<lparr>mem := memcpy_mem buf (f_data x + off) (unat n) (mem s)\<rparr>))"

fun list_files :: "initrd_file list \<Rightarrow> 'a kern_state_scheme \<Rightarrow> 'a kern_state_scheme option" where
  "list_files [] s = Some s"
| "list_files (f # fs) s =
     (case c_string (mem s) (f_name f) of
        None \<Rightarrow> None
      | Some nm \<Rightarrow> list_files fs (kprintf ''[INITRD] %s (%u bytes)
'' [Str (Some nm), Num (ucast (f_size f))] s))"

definition initrd_list :: "'a kern_state_scheme \<Rightarrow> 'a kern_state_scheme option" where
  "initrd_list s = list_files (take (unat (initrd_file_count s)) (initrd_files s)) s"

text \<open>The static data at boot, with the empty file table.\<close>

definition initial_kernel :: "layout \<Rightarrow> memory \<Rightarrow> kern_state" where
  "initial_kernel L m = ipc_state.extend (initial_state L m)
     (kern_state.fields (replicate 128 \<lparr>f_name = 0, f_size = 0, f_data = 0\<rparr>) 0)"

lemma initial_kernel_fields [simp]:
  "mem (initial_kernel L m) = m" "length (initrd_files (initial_kernel L m)) = 128"
  "initrd_file_count (initial_kernel L m) = 0" "con (initial_kernel L m) = zero_console"
  by (simp_all add: initial_kernel_def initial_state_def ipc_state.defs kern_state.defs)

section \<open>Numbers and alignment\<close>

lemma hex_digit_char: "d < 16 \<Longrightarrow> hex_digit (digit_char d) = of_nat d"
proof -
  assume "d < 16"
  moreover have "list_all (\<lambda>d. hex_digit (digit_char d) = of_nat d) [0..<16]"
    by (simp add: upt_rec hex_digit_def digit_char_def bytes_of_def)
  ultimately show ?thesis by (simp add: list_all_iff)
qed

text \<open>Eight hexadecimal digits, most significant first.\<close>

definition hex8 :: "u32 \<Rightarrow> u8 list" where
  "hex8 v = map (\<lambda>i. digit_char (unat (drop_bit (28 - 4 * i) v AND 15))) [0..<8]"

lemma length_hex8 [simp]: "length (hex8 v) = 8"
  by (simp add: hex8_def)

lemma nibble_step:
  fixes v :: u32
  assumes "k < 8"
  shows "push_bit 4 (drop_bit (32 - 4 * k) v) OR (drop_bit (28 - 4 * k) v AND 15) = drop_bit (28 - 4 * k) v"
proof (rule bit_word_eqI)
  fix n :: nat
  assume "n < LENGTH(32)"
  have m: "(15 :: u32) = mask 4" by (simp add: mask_eq_exp_minus_1)
  have e: "32 - 4 * k + (n - 4) = 28 - 4 * k + n" if "4 \<le> n" using that assms by simp
  show "bit (push_bit 4 (drop_bit (32 - 4 * k) v) OR (drop_bit (28 - 4 * k) v AND 15)) n
      = bit (drop_bit (28 - 4 * k) v) n"
    unfolding m using \<open>n < LENGTH(32)\<close> e by (cases "4 \<le> n") (auto simp: bit_simps)
qed

lemma hex8_to_u32_hex8:
  assumes "read_bytes m a 8 = hex8 v"
  shows "hex8_to_u32 m a = v"
proof -
  have d: "hex_digit (m (a + of_nat i)) = drop_bit (28 - 4 * i) v AND 15" if "i < 8" for i
  proof -
    let ?w = "drop_bit (28 - 4 * i) v AND (15 :: u32)"
    have "m (a + of_nat i) = hex8 v ! i" using that assms nth_read_bytes [of i 8 m a] by simp
    then have "m (a + of_nat i) = digit_char (unat ?w)" using that by (simp add: hex8_def)
    moreover have "unat ?w < 16"
    proof -
      have "?w = take_bit 4 (drop_bit (28 - 4 * i) v)"
        by (simp add: take_bit_eq_mask mask_eq_exp_minus_1)
      then show ?thesis by (simp only: unat_take_bit) simp
    qed
    ultimately show ?thesis by (simp add: hex_digit_char)
  qed
  have "k \<le> 8 \<Longrightarrow> for_upto k (\<lambda>i v. push_bit 4 v OR hex_digit (m (a + of_nat i))) 0 = drop_bit (32 - 4 * k) v" for k
  proof (induction k)
    case 0
    show ?case by (rule bit_word_eqI) (auto simp: bit_simps dest: bit_imp_le_length)
  next
    case (Suc k)
    have "32 - 4 * Suc k = 28 - 4 * k" by simp
    then show ?case using Suc nibble_step [of k v] by (simp add: d)
  qed
  from this [of 8] show ?thesis by (simp add: hex8_to_u32_def)
qed

lemma unat_align4_ptr:
  assumes "unat x < 2 ^ 64 - 4"
  shows "unat (align4_ptr x) = (unat x + 3) div 4 * 4"
proof -
  have "(3 :: u64) = mask 2" by (simp add: mask_eq_exp_minus_1)
  then have "unat (align4_ptr x) = unat (x + 3) div 4 * 4"
    unfolding align4_ptr_def using unat_and_not_mask [of "x + 3" 2] by simp
  moreover have "unat (x + 3) = unat x + 3" using assms by (subst unat_add_u64) simp_all
  ultimately show ?thesis by simp
qed

section \<open>Every scan ends, inside the module\<close>

definition up4 :: "nat \<Rightarrow> nat" where
  "up4 n = (n + 3) div 4 * 4"

lemma up4_bounds: "n \<le> up4 n" "up4 n \<le> n + 3"
  unfolding up4_def by presburger+

lemma up4_dvd [simp]: "4 dvd up4 n"
  by (simp add: up4_def)

lemma up4_add: "4 dvd a \<Longrightarrow> up4 (a + n) = a + up4 n"
  unfolding up4_def by presburger

text \<open>Where the parts of an entry at \<open>p\<close> are, without wrap-around.\<close>

lemma entry_layout:
  fixes p :: u64 and ns fs :: u32
  assumes "unat p + 110 \<le> 2 ^ 63"
  shows "unat (p + 110) = unat p + 110"
    and "unat (align4_ptr (p + 110 + ucast ns)) = up4 (unat p + 110 + unat ns)"
    and "unat (align4_ptr (align4_ptr (p + 110 + ucast ns) + ucast fs)) = up4 (up4 (unat p + 110 + unat ns) + unat fs)"
proof -
  have n: "unat (ucast ns :: u64) = unat ns" "unat (ucast fs :: u64) = unat fs"
    by (simp_all add: unat_ucast_32)
  have b: "unat ns < 2 ^ 32" "unat fs < 2 ^ 32"
    using unsigned_less [where ?'a = nat, of ns] unsigned_less [where ?'a = nat, of fs] by simp_all
  show a: "unat (p + 110) = unat p + 110" using assms by (subst unat_add_u64) simp_all
  have a2: "unat (p + 110 + ucast ns) = unat p + 110 + unat ns"
    using assms a n b by (subst unat_add_u64) simp_all
  show c: "unat (align4_ptr (p + 110 + ucast ns)) = up4 (unat p + 110 + unat ns)"
    using assms a2 b by (subst unat_align4_ptr) (simp_all add: up4_def)
  have a3: "unat (align4_ptr (p + 110 + ucast ns) + ucast fs) = up4 (unat p + 110 + unat ns) + unat fs"
    using assms c n b up4_bounds(2) [of "unat p + 110 + unat ns"] by (subst unat_add_u64) simp_all
  show "unat (align4_ptr (align4_ptr (p + 110 + ucast ns) + ucast fs)) = up4 (up4 (unat p + 110 + unat ns) + unat fs)"
    using assms a3 b up4_bounds(2) [of "unat p + 110 + unat ns"]
    by (subst unat_align4_ptr) (simp_all add: up4_def)
qed

text \<open>The file table: at most 128 entries, each with its data between \<open>lo\<close> and \<open>hi\<close>, after its name.\<close>

definition files_ok :: "nat \<Rightarrow> nat \<Rightarrow> 'a kern_state_scheme \<Rightarrow> bool" where
  "files_ok lo hi s \<longleftrightarrow> length (initrd_files s) = 128 \<and> unat (initrd_file_count s) \<le> 128 \<and>
     (\<forall>i<unat (initrd_file_count s). let f = initrd_files s ! i in
        lo \<le> unat (f_name f) \<and> unat (f_name f) \<le> unat (f_data f) \<and> unat (f_data f) + unat (f_size f) \<le> hi)"

lemma initrd_add_other:
  "mem (initrd_add n z d s) = mem s" "con (initrd_add n z d s) = con s"
  "ipc_state.truncate (initrd_add n z d s) = ipc_state.truncate s"
  by (simp_all add: initrd_add_def ipc_state.defs)

lemma files_ok_add:
  assumes "files_ok lo hi s" "lo \<le> unat n" "unat n \<le> unat d" "unat d + unat z \<le> hi"
  shows "files_ok lo hi (initrd_add n z d s)"
proof (cases "initrd_file_count s < 128")
  case True
  then have c: "unat (initrd_file_count s) < 128" by (simp add: word_less_nat_alt)
  then have "unat (initrd_file_count s + 1) = unat (initrd_file_count s) + 1"
    by (subst unat_add_u64) simp_all
  then show ?thesis
    using assms True c by (auto simp: files_ok_def initrd_add_def Let_def nth_list_update less_Suc_eq)
qed (use assms in \<open>simp add: initrd_add_def\<close>)

lemma initrd_scan_returns:
  assumes "unat stop \<le> 2 ^ 63" "lo \<le> unat p" "unat p \<le> 2 ^ 63" "files_ok lo (unat stop) s"
  shows "\<exists>s'. initrd_scan p stop s = Some s' \<and> files_ok lo (unat stop) s' \<and> mem s' = mem s"
  using assms(2-)
proof (induction "2 ^ 63 - unat p" arbitrary: p s rule: less_induct)
  case less
  let ?ns = "hex8_to_u32 (mem s) (p + 94)" and ?fs = "hex8_to_u32 (mem s) (p + 54)"
  let ?d = "align4_ptr (p + 110 + ucast ?ns)"
  let ?q = "align4_ptr (?d + ucast ?fs)"
  show ?case
  proof (cases "p + 110 \<le> stop \<and> magic_ok (mem s) p \<and> \<not> (?ns = 11 \<and> memcmp_simple (read_bytes (mem s) (p + 110) 10) (bytes_of ''TRAILER!!!'') = 0) \<and> \<not> ?q > stop")
    case True
    have "unat (p + 110) = unat p + 110" using less.prems by (subst unat_add_u64) simp_all
    moreover have "unat (p + 110) \<le> unat stop" using True by (simp add: word_le_nat_alt)
    ultimately have b: "unat p + 110 \<le> 2 ^ 63" using assms(1) by simp
    note e = entry_layout [OF b]
    note u = up4_bounds
    have q: "unat ?q \<le> unat stop" using True by (simp add: word_le_nat_alt not_less)
    have "unat p + 110 \<le> unat ?d" unfolding e using u(1) [of "unat p + 110 + unat ?ns"] by simp
    moreover have "unat ?d + unat ?fs \<le> unat ?q" unfolding e using u(1) by simp
    ultimately have lt: "unat p < unat ?q" "files_ok lo (unat stop) (initrd_add (p + 110) ?fs ?d s)"
      using q e(1) less.prems by (auto intro!: files_ok_add)
    have "\<exists>s'. initrd_scan ?q stop (initrd_add (p + 110) ?fs ?d s) = Some s' \<and> files_ok lo (unat stop) s' \<and>
        mem s' = mem (initrd_add (p + 110) ?fs ?d s)"
      using lt q assms(1) less.prems by (intro less.hyps) simp_all
    then show ?thesis using True by (subst initrd_scan.simps) (auto simp: Let_def initrd_add_other)
  next
    case False
    then show ?thesis using less.prems
      by (subst initrd_scan.simps) (auto simp: Let_def kprintf_def files_ok_def)
  qed
qed

end
