(* ===== verification/Cpio.thy ===== *)
theory Cpio
  imports Initrd
begin

text \<open>
  A reference encoder of the cpio \<open>newc\<close> format and the proof that the kernel's parser inverts it:
  every file of an archive is found under its name, with its contents.
\<close>

section \<open>Archives\<close>

text \<open>
  A reference encoder of the format: header fields other than the two sizes are free (\<open>meta\<close>),
  names and contents are padded to four bytes, and the last entry is the trailer.
\<close>

type_synonym entry = "(nat \<Rightarrow> u32) \<times> u8 list \<times> u8 list"

definition entry_name :: "entry \<Rightarrow> u8 list" where "entry_name e = fst (snd e)"
definition entry_data :: "entry \<Rightarrow> u8 list" where "entry_data e = snd (snd e)"

definition pad4 :: "u8 list \<Rightarrow> u8 list" where
  "pad4 bs = bs @ replicate (up4 (length bs) - length bs) 0"

definition cpio_header :: "(nat \<Rightarrow> u32) \<Rightarrow> u32 \<Rightarrow> u32 \<Rightarrow> u8 list" where
  "cpio_header meta ns fs = bytes_of ''070701'' @
     concat (map (\<lambda>i. hex8 (if i = 6 then fs else if i = 11 then ns else meta i)) [0..<13])"

definition cpio_entry :: "entry \<Rightarrow> u8 list" where
  "cpio_entry e =
     pad4 (cpio_header (fst e) (of_nat (length (entry_name e) + 1)) (of_nat (length (entry_data e))) @ entry_name e @ [0]) @
     pad4 (entry_data e)"

definition trailer :: entry where
  "trailer = (\<lambda>_. 0, bytes_of ''TRAILER!!!'', [])"

definition cpio_archive :: "entry list \<Rightarrow> u8 list" where
  "cpio_archive es = concat (map cpio_entry es) @ cpio_entry trailer"

definition valid_entry :: "entry \<Rightarrow> bool" where
  "valid_entry e \<longleftrightarrow> 0 \<notin> set (entry_name e) \<and> entry_name e \<noteq> entry_name trailer \<and>
     length (entry_name e) + 1 < 2 ^ 32 \<and> length (entry_data e) < 2 ^ 32"

lemma length_pad4 [simp]: "length (pad4 bs) = up4 (length bs)"
  using up4_bounds(1) [of "length bs"] by (simp add: pad4_def)

lemma length_cpio_header [simp]: "length (cpio_header meta ns fs) = 110"
  by (simp add: cpio_header_def bytes_of_def upt_rec)

lemma length_cpio_entry:
  "length (cpio_entry e) = up4 (111 + length (entry_name e)) + up4 (length (entry_data e))"
  by (simp add: cpio_entry_def)

lemma read_bytes_Suc: "read_bytes m a (Suc n) = m a # read_bytes m (a + 1) n"
  by (rule nth_equalityI) (auto simp: nth_Cons add.assoc split: nat.split)

lemma read_bytes_add: "read_bytes m a (n + k) = read_bytes m a n @ read_bytes m (a + of_nat n) k"
  by (induction n arbitrary: a) (simp_all add: read_bytes_Suc add.assoc read_bytes_def [of _ _ 0])

lemma read_bytes_append:
  "read_bytes m a (length xs + length ys) = xs @ ys \<longleftrightarrow>
     read_bytes m a (length xs) = xs \<and> read_bytes m (a + of_nat (length xs)) (length ys) = ys"
  by (simp add: read_bytes_add)

lemma read_bytes_prefix:
  assumes "read_bytes m a (length (xs @ ys)) = xs @ ys"
  shows "read_bytes m a (length xs) = xs" "read_bytes m (a + of_nat (length xs)) (length ys) = ys"
  using assms read_bytes_append [of m a xs ys] by simp_all

text \<open>What the parser finds at the place of a header.\<close>

lemma header_fields:
  assumes h: "read_bytes m p 110 = cpio_header meta ns fs"
  shows "magic_ok m p" "hex8_to_u32 m (p + C_NAMESIZE) = ns" "hex8_to_u32 m (p + C_FILESIZE) = fs"
proof -
  have b: "m (p + of_nat i) = cpio_header meta ns fs ! i" if "i < 110" for i
    using that h nth_read_bytes [of i 110 m p] by simp
  have "m p = 48" "m (p + 1) = 55" "m (p + 2) = 48" "m (p + 3) = 55" "m (p + 4) = 48" "m (p + 5) = 49"
    using b [of 0] b [of 1] b [of 2] b [of 3] b [of 4] b [of 5]
    by (simp_all add: cpio_header_def bytes_of_def nth_append)
  then show "magic_ok m p" by (simp add: magic_ok_def)
  have f: "read_bytes m (p + of_nat (6 + 8 * k)) 8 = hex8 (if k = 6 then fs else if k = 11 then ns else meta k)"
    if "k < 13" for k
  proof -
    let ?g = "\<lambda>i. hex8 (if i = 6 then fs else if i = 11 then ns else meta i)"
    have u: "[0..<13] = [0..<k] @ k # [Suc k..<13]"
      using that upt_add_eq_append [of 0 k "13 - k"] upt_conv_Cons [of k 13] by simp
    have l: "length (concat (map (\<lambda>i. hex8 (g i)) xs)) = 8 * length xs" for g and xs :: "nat list"
      by (induction xs) simp_all
    define A where "A = bytes_of ''070701'' @ concat (map ?g [0..<k])"
    define B where "B = concat (map ?g [Suc k..<13])"
    have split: "cpio_header meta ns fs = A @ ?g k @ B" unfolding cpio_header_def A_def B_def u by simp
    have len: "length A = 6 + 8 * k" by (simp add: A_def l bytes_of_def)
    have "length (A @ ?g k @ B) = 110" by (simp only: split [symmetric] length_cpio_header)
    then have "read_bytes m p (length (A @ ?g k @ B)) = A @ ?g k @ B"
      using h unfolding split by (simp only:)
    from read_bytes_prefix(1) [OF read_bytes_prefix(2) [OF this]] show ?thesis by (simp add: len)
  qed
  show "hex8_to_u32 m (p + C_NAMESIZE) = ns" using f [of 11] by (intro hex8_to_u32_hex8) simp
  show "hex8_to_u32 m (p + C_FILESIZE) = fs" using f [of 6] by (intro hex8_to_u32_hex8) simp
qed

lemma memcmp_simple_0: "length ps = length qs \<Longrightarrow> memcmp_simple ps qs = 0 \<longleftrightarrow> ps = qs"
  by (induction ps qs rule: list_induct2) (auto dest: word_uint_eq_iff [THEN iffD2])

lemma strcmp_simple_0:
  assumes "read_bytes m a (length nm + 1) = nm @ [0]" "0 \<notin> set nm" "0 \<notin> set b"
  shows "strcmp_simple m a b = 0 \<longleftrightarrow> b = nm"
  using assms
proof (induction nm arbitrary: a b)
  case Nil
  then have "m a = 0" by (simp add: read_bytes_def)
  then show ?case using Nil by (cases b) (auto simp: uint_0_iff)
next
  case (Cons x nm)
  then have x: "m a = x" "read_bytes m (a + 1) (length nm + 1) = nm @ [0]"
    by (simp_all add: read_bytes_Suc)
  show ?case using Cons.IH [OF x(2)] Cons.prems x
    by (cases b) (auto simp: uint_0_iff dest: word_uint_eq_iff [THEN iffD2])
qed

lemma c_string_of:
  assumes "read_bytes m a (length nm + 1) = nm @ [0]" "0 \<notin> set nm"
  shows "c_string m a = Some nm"
  using assms
proof (induction nm arbitrary: a)
  case Nil
  then show ?case by (subst c_string.simps) (simp add: read_bytes_def)
next
  case (Cons x nm)
  then have "m a = x" "c_string m (a + 1) = Some nm" by (simp_all add: read_bytes_Suc)
  then show ?case using Cons.prems by (subst c_string.simps) simp
qed

section \<open>Parsing an archive\<close>

text \<open>The table entries for an archive at address \<open>p\<close>.\<close>

fun placed :: "u64 \<Rightarrow> entry list \<Rightarrow> initrd_file list" where
  "placed p [] = []"
| "placed p (e # es) =
     (let d = p + of_nat (up4 (111 + length (entry_name e))) in
      \<lparr>f_name = p + 110, f_size = of_nat (length (entry_data e)), f_data = d\<rparr>
        # placed (d + of_nat (up4 (length (entry_data e)))) es)"

definition add_files :: "initrd_file list \<Rightarrow> 'a kern_state_scheme \<Rightarrow> 'a kern_state_scheme" where
  "add_files fs s = fold (\<lambda>f. initrd_add (f_name f) (f_size f) (f_data f)) fs s"

text \<open>One entry in memory at a four-byte boundary: what the parser computes from it.\<close>

lemma entry_parts:
  assumes p: "4 dvd unat p" and len: "unat p + length (cpio_entry e @ rest) \<le> 2 ^ 63"
    and small: "length (entry_name e) + 1 < 2 ^ 32" "length (entry_data e) < 2 ^ 32"
    and rd: "read_bytes m p (length (cpio_entry e @ rest)) = cpio_entry e @ rest"
  defines "ns \<equiv> hex8_to_u32 m (p + C_NAMESIZE)" and "fs \<equiv> hex8_to_u32 m (p + C_FILESIZE)"
    and "d \<equiv> p + of_nat (up4 (111 + length (entry_name e)))"
  shows "magic_ok m p" "ns = of_nat (length (entry_name e) + 1)" "fs = of_nat (length (entry_data e))"
    and "align4_ptr (p + 110 + ucast ns) = d"
    and "align4_ptr (d + ucast fs) = p + of_nat (length (cpio_entry e))"
    and "read_bytes m (p + 110) (length (entry_name e) + 1) = entry_name e @ [0]"
    and "read_bytes m d (length (entry_data e)) = entry_data e"
    and "read_bytes m (p + of_nat (length (cpio_entry e))) (length rest) = rest"
    and "4 dvd unat (p + of_nat (length (cpio_entry e)))"
    and "unat (p + of_nat (length (cpio_entry e))) = unat p + length (cpio_entry e)"
proof -
  let ?h = "cpio_header (fst e) (of_nat (length (entry_name e) + 1)) (of_nat (length (entry_data e)))"
  let ?n = "entry_name e @ [0]"
  let ?x = "111 + length (entry_name e)"
  define z1 where "z1 = replicate (up4 ?x - ?x) (0 :: u8)"
  define z2 where "z2 = replicate (up4 (length (entry_data e)) - length (entry_data e)) (0 :: u8)"
  have ce: "cpio_entry e = ?h @ ?n @ z1 @ entry_data e @ z2"
    by (simp add: cpio_entry_def pad4_def z1_def z2_def)
  have l1: "length (?h @ ?n @ z1) = up4 ?x" using up4_bounds(1) [of ?x] by (simp add: z1_def)
  have r: "read_bytes m p (length (cpio_entry e)) = cpio_entry e"
    and rr: "read_bytes m (p + of_nat (length (cpio_entry e))) (length rest) = rest"
    by (rule read_bytes_prefix [OF rd])+
  have r': "read_bytes m p (length ((?h @ ?n @ z1) @ entry_data e @ z2)) = (?h @ ?n @ z1) @ entry_data e @ z2"
    using r by (simp only: ce append_assoc)
  have hd: "read_bytes m p (length (?h @ ?n @ z1)) = ?h @ ?n @ z1"
    and dt: "read_bytes m (p + of_nat (length (?h @ ?n @ z1))) (length (entry_data e @ z2)) = entry_data e @ z2"
    by (rule read_bytes_prefix [OF r'])+
  have "read_bytes m p 110 = ?h" using read_bytes_prefix(1) [OF hd] by (simp only: length_cpio_header)
  note hf = header_fields [OF this]
  show "magic_ok m p" by (rule hf(1))
  show ns: "ns = of_nat (length (entry_name e) + 1)" unfolding ns_def by (rule hf(2))
  show fs: "fs = of_nat (length (entry_data e))" unfolding fs_def by (rule hf(3))
  show "read_bytes m (p + 110) (length (entry_name e) + 1) = ?n"
    using read_bytes_prefix(1) [OF read_bytes_prefix(2) [OF hd]] by simp
  show "read_bytes m d (length (entry_data e)) = entry_data e"
    unfolding d_def using read_bytes_prefix(1) [OF dt] by (simp only: l1)
  show "read_bytes m (p + of_nat (length (cpio_entry e))) (length rest) = rest" by (rule rr)
  have lc: "length (cpio_entry e) = up4 ?x + up4 (length (entry_data e))" by (rule length_cpio_entry)
  have b: "unat p + 110 \<le> 2 ^ 63" "unat p + length (cpio_entry e) < 2 ^ 64" "unat p + up4 ?x < 2 ^ 64"
    using len up4_bounds(1) [of ?x] lc by simp_all
  note el = entry_layout [OF b(1)]
  have un: "unat ns = length (entry_name e) + 1" "unat fs = length (entry_data e)"
    unfolding ns fs unat_of_nat using small by simp_all
  show ul: "unat (p + of_nat (length (cpio_entry e))) = unat p + length (cpio_entry e)"
    using b(2) by (subst unat_add_u64) (simp_all add: unat_of_nat)
  then show "4 dvd unat (p + of_nat (length (cpio_entry e)))" using p lc by simp
  have ud: "unat d = unat p + up4 ?x"
    unfolding d_def using b(3) by (subst unat_add_u64) (simp_all add: unat_of_nat)
  have "unat (align4_ptr (p + 110 + ucast ns)) = unat d"
    unfolding el(2) un ud using up4_add [OF p, of ?x] by (simp add: ac_simps)
  then show ad: "align4_ptr (p + 110 + ucast ns) = d" by (simp add: word_unat_eq_iff)
  have "4 dvd unat p + up4 ?x" using p by simp
  from up4_add [OF this, of "length (entry_data e)"]
  have "unat (align4_ptr (d + ucast fs)) = unat p + length (cpio_entry e)"
    using el(3) [of ns fs] up4_add [OF p, of ?x] unfolding ad un lc by (simp add: ac_simps)
  then show "align4_ptr (d + ucast fs) = p + of_nat (length (cpio_entry e))" using ul by (simp add: word_unat_eq_iff)
qed

lemma scan_archive:
  assumes "4 dvd unat p" "unat p + length (cpio_archive es) \<le> 2 ^ 63" "\<forall>e\<in>set es. valid_entry e"
    "read_bytes (mem s) p (length (cpio_archive es)) = cpio_archive es"
    "unat stop = unat p + length (cpio_archive es)"
  shows "initrd_scan p stop s = Some (add_files (placed p es) s)"
  using assms
proof (induction es arbitrary: p s)
  case Nil
  have tl: "length (entry_name trailer) = 10" "entry_data trailer = []"
    by (simp_all add: trailer_def entry_name_def entry_data_def bytes_of_def)
  note e = entry_parts [where e = trailer and rest = "[]" and m = "mem s" and p = p]
  have ns: "hex8_to_u32 (mem s) (p + C_NAMESIZE) = 11" and mg: "magic_ok (mem s) p"
    and nm: "read_bytes (mem s) (p + 110) (length (entry_name trailer) + 1) = entry_name trailer @ [0]"
    using e(1,2,6) Nil tl by (simp_all add: cpio_archive_def)
  have "read_bytes (mem s) (p + 110) (length (entry_name trailer)) = entry_name trailer"
    by (rule read_bytes_prefix(1) [where ys = "[0]"]) (use nm in simp)
  then have "memcmp_simple (read_bytes (mem s) (p + 110) 10) (bytes_of ''TRAILER!!!'') = 0"
    using tl by (simp add: trailer_def entry_name_def memcmp_simple_0)
  then show ?case using ns mg by (subst initrd_scan.simps) (simp add: add_files_def)
next
  case (Cons x es)
  have v: "length (entry_name x) + 1 < 2 ^ 32" "length (entry_data x) < 2 ^ 32" "entry_name x \<noteq> bytes_of ''TRAILER!!!''"
    using Cons.prems(3) by (simp_all add: valid_entry_def trailer_def entry_name_def)
  have ca: "cpio_archive (x # es) = cpio_entry x @ cpio_archive es" by (simp add: cpio_archive_def)
  note e = entry_parts [OF Cons.prems(1) Cons.prems(2) [unfolded ca] v(1,2) Cons.prems(4) [unfolded ca]]
  let ?q = "p + of_nat (length (cpio_entry x))"
  let ?d = "p + of_nat (up4 (111 + length (entry_name x)))"
  have le: "unat p + length (cpio_entry x) \<le> unat stop" using Cons.prems(5) ca by simp
  have "unat (p + 110) = unat p + 110" using Cons.prems(2,5) le by (subst unat_add_u64) simp_all
  moreover have "110 \<le> length (cpio_entry x)"
    using up4_bounds(1) [of "111 + length (entry_name x)"] by (simp add: length_cpio_entry)
  ultimately have c1: "p + 110 \<le> stop" using le by (simp add: word_le_nat_alt)
  have c2: "\<not> ?q > stop" using le e(10) by (simp add: word_le_nat_alt not_less)
  have c3: "\<not> (hex8_to_u32 (mem s) (p + C_NAMESIZE) = 11 \<and>
      memcmp_simple (read_bytes (mem s) (p + 110) 10) (bytes_of ''TRAILER!!!'') = 0)"
  proof
    assume a: "hex8_to_u32 (mem s) (p + C_NAMESIZE) = 11 \<and>
      memcmp_simple (read_bytes (mem s) (p + 110) 10) (bytes_of ''TRAILER!!!'') = 0"
    have "unat (of_nat (length (entry_name x) + 1) :: u32) = unat (11 :: u32)" using a e(2) by (simp only:)
    then have "length (entry_name x) = 10" using v(1) unfolding unat_of_nat by simp
    moreover have "read_bytes (mem s) (p + 110) (length (entry_name x)) = entry_name x"
      by (rule read_bytes_prefix(1) [where ys = "[0]"]) (use e(6) in simp)
    ultimately have "entry_name x = bytes_of ''TRAILER!!!''"
      using a by (simp add: memcmp_simple_0 bytes_of_def)
    with v(3) show False by contradiction
  qed
  let ?s = "initrd_add (p + 110) (of_nat (length (entry_data x))) ?d s"
  have "initrd_scan ?q stop ?s = Some (add_files (placed ?q es) ?s)"
    using Cons.prems e(8-10) ca le by (intro Cons.IH) (simp_all add: initrd_add_other)
  moreover have "initrd_scan p stop s = initrd_scan ?q stop ?s"
    using c1 c2 c3 e(1) unfolding e(2)
    by (subst initrd_scan.simps) (simp only: Let_def e(2,3) e(4,5) [unfolded e(2,3)] simp_thms if_True if_False not_True_eq_False)
  moreover have "?q = ?d + of_nat (up4 (length (entry_data x)))"
    by (simp add: length_cpio_entry)
  ultimately show ?case by (simp add: add_files_def Let_def)
qed

section \<open>The table holds the archive\<close>

lemma add_files_other [simp]: "mem (add_files fs s) = mem s"
  by (induction fs arbitrary: s) (simp_all add: add_files_def initrd_add_other)

lemma add_files_table:
  assumes "length (initrd_files s) = 128" "unat (initrd_file_count s) + length fs \<le> 128"
  shows "unat (initrd_file_count (add_files fs s)) = unat (initrd_file_count s) + length fs \<and>
    length (initrd_files (add_files fs s)) = 128 \<and>
    (\<forall>i<unat (initrd_file_count s) + length fs. initrd_files (add_files fs s) ! i =
      (if i < unat (initrd_file_count s) then initrd_files s ! i else fs ! (i - unat (initrd_file_count s))))"
  using assms
proof (induction fs arbitrary: s)
  case Nil
  then show ?case by (simp add: add_files_def)
next
  case (Cons f fs)
  let ?c = "unat (initrd_file_count s)"
  let ?t = "initrd_add (f_name f) (f_size f) (f_data f) s"
  have lt: "initrd_file_count s < 128" "?c < 128" using Cons.prems by (simp_all add: word_less_nat_alt)
  have c: "unat (initrd_file_count s + 1) = ?c + 1" using lt(2) by (subst unat_add_u64) simp_all
  have t: "unat (initrd_file_count ?t) = ?c + 1" "initrd_files ?t = (initrd_files s)[?c := f]"
    using lt c by (cases f; simp add: initrd_add_def)+
  have ih: "unat (initrd_file_count (add_files fs ?t)) = ?c + 1 + length fs \<and>
    length (initrd_files (add_files fs ?t)) = 128 \<and>
    (\<forall>i<?c + 1 + length fs. initrd_files (add_files fs ?t) ! i =
      (if i < ?c + 1 then (initrd_files s)[?c := f] ! i else fs ! (i - (?c + 1))))"
    using Cons.IH [of ?t] Cons.prems unfolding t by simp
  have "(if i < ?c + 1 then (initrd_files s)[?c := f] ! i else fs ! (i - (?c + 1)))
      = (if i < ?c then initrd_files s ! i else (f # fs) ! (i - ?c))" if "i < ?c + 1 + length fs" for i
    using that lt(2) Cons.prems(1) by (cases "i < ?c"; cases "i = ?c") (auto simp: nth_Cons')
  with ih show ?case by (simp add: add_files_def)
qed

text \<open>A table entry \<open>f\<close> whose name and contents in memory are those of archive entry \<open>e\<close>.\<close>

definition file_is :: "memory \<Rightarrow> initrd_file \<Rightarrow> entry \<Rightarrow> bool" where
  "file_is m f e \<longleftrightarrow> read_bytes m (f_name f) (length (entry_name e) + 1) = entry_name e @ [0] \<and>
     unat (f_size f) = length (entry_data e) \<and> read_bytes m (f_data f) (length (entry_data e)) = entry_data e"

lemma length_placed [simp]: "length (placed p es) = length es"
  by (induction es arbitrary: p) (simp_all add: Let_def)

lemma placed_holds:
  assumes "4 dvd unat p" "unat p + length (cpio_archive es) \<le> 2 ^ 63" "\<forall>e\<in>set es. valid_entry e"
    "read_bytes m p (length (cpio_archive es)) = cpio_archive es" "i < length es"
  shows "file_is m (placed p es ! i) (es ! i)"
  using assms
proof (induction es arbitrary: p i)
  case (Cons x es)
  have v: "length (entry_name x) + 1 < 2 ^ 32" "length (entry_data x) < 2 ^ 32"
    using Cons.prems(3) by (simp_all add: valid_entry_def)
  have ca: "cpio_archive (x # es) = cpio_entry x @ cpio_archive es" by (simp add: cpio_archive_def)
  note e = entry_parts [OF Cons.prems(1) Cons.prems(2) [unfolded ca] v Cons.prems(4) [unfolded ca]]
  let ?d = "p + of_nat (up4 (111 + length (entry_name x)))"
  have q: "?d + of_nat (up4 (length (entry_data x))) = p + of_nat (length (cpio_entry x))"
    by (simp add: length_cpio_entry)
  show ?case
  proof (cases i)
    case 0
    have "unat (of_nat (length (entry_data x)) :: u32) = length (entry_data x)"
      using v(2) unfolding unat_of_nat by simp
    then show ?thesis using 0 e(6,7) by (simp add: file_is_def Let_def)
  next
    case (Suc j)
    have "file_is m (placed (p + of_nat (length (cpio_entry x))) es ! j) (es ! j)"
      using Cons.prems e(8-10) ca Suc by (intro Cons.IH) simp_all
    then show ?thesis unfolding Suc placed.simps Let_def nth_Cons_Suc q .
  qed
qed simp

lemma find_file:
  assumes "unat (initrd_file_count s) = length es" "0 \<notin> set nm" "\<forall>e\<in>set es. valid_entry e"
    "\<And>i. i < length es \<Longrightarrow> file_is (mem s) (initrd_files s ! i) (es ! i)"
  shows "initrd_find nm s = find (\<lambda>i. entry_name (es ! i) = nm) [0..<length es]"
proof -
  have "strcmp_simple (mem s) (f_name (initrd_files s ! i)) nm = 0 \<longleftrightarrow> entry_name (es ! i) = nm"
    if "i < length es" for i
  proof -
    have "0 \<notin> set (entry_name (es ! i))" using assms(3) that by (auto simp: valid_entry_def)
    from strcmp_simple_0 [OF _ this assms(2)] assms(4) [OF that] show ?thesis by (auto simp: file_is_def)
  qed
  then show ?thesis unfolding initrd_find_def assms(1) by (intro find_cong) auto
qed

lemma initrd_dump_other [simp]:
  "mem (initrd_dump p s) = mem s" "initrd_files (initrd_dump p s) = initrd_files s"
  "initrd_file_count (initrd_dump p s) = initrd_file_count s"
proof -
  have "mem (for_upto n (\<lambda>i s. kprintf f [Num (g i s)] s) s) = mem s"
    "initrd_files (for_upto n (\<lambda>i s. kprintf f [Num (g i s)] s) s) = initrd_files s"
    "initrd_file_count (for_upto n (\<lambda>i s. kprintf f [Num (g i s)] s) s) = initrd_file_count s"
    for n f and g :: "nat \<Rightarrow> 'a kern_state_scheme \<Rightarrow> u64" and s :: "'a kern_state_scheme"
    by (induction n) (simp_all add: kprintf_def)
  then show "mem (initrd_dump p s) = mem s" "initrd_files (initrd_dump p s) = initrd_files s"
    "initrd_file_count (initrd_dump p s) = initrd_file_count s"
    by (simp_all add: initrd_dump_def) (simp_all add: kprintf_def)
qed

lemma for_upto_con:
  assumes "\<And>i s. \<exists>d. f i s = s\<lparr>con := d\<rparr>"
  shows "\<exists>d. for_upto n f s = s\<lparr>con := d\<rparr>"
proof (induction n)
  case 0
  show ?case by (auto intro: exI [of _ "con s"])
next
  case (Suc n)
  then obtain d where "for_upto n f s = s\<lparr>con := d\<rparr>" ..
  moreover obtain d' where "f n (s\<lparr>con := d\<rparr>) = s\<lparr>con := d\<rparr>\<lparr>con := d'\<rparr>" using assms by blast
  ultimately show ?case by auto
qed

lemma kprintf_con: "\<exists>d. kprintf f xs s = s\<lparr>con := d\<rparr>"
  by (auto simp: kprintf_def)

lemma initrd_dump_con: "\<exists>d. initrd_dump p s = s\<lparr>con := d\<rparr>"
proof -
  let ?f = "\<lambda>i s. kprintf ''%02x '' [Num (ucast (mem s (p + of_nat i)))] s"
  obtain d where "for_upto 32 ?f (kprintf ''[INITRD] dump @%p (first 32 bytes):
'' [Num p] s) = (kprintf ''[INITRD] dump @%p (first 32 bytes):
'' [Num p] s)\<lparr>con := d\<rparr>"
    using for_upto_con [of ?f] kprintf_con by blast
  then show ?thesis by (auto simp: initrd_dump_def kprintf_def)
qed

lemma add_files_only: "\<exists>fs' n. add_files fs s = s\<lparr>initrd_files := fs', initrd_file_count := n\<rparr>"
proof (induction fs arbitrary: s)
  case Nil
  show ?case by (simp add: add_files_def exI [of _ "initrd_files s"] exI [of _ "initrd_file_count s"])
next
  case (Cons f fs)
  have "\<exists>fs' n. initrd_add (f_name f) (f_size f) (f_data f) s = s\<lparr>initrd_files := fs', initrd_file_count := n\<rparr>"
  proof (cases "initrd_file_count s < INITRD_MAX_FILES")
    case True
    then show ?thesis unfolding initrd_add_def by auto
  next
    case False
    then have "initrd_add (f_name f) (f_size f) (f_data f) s
      = s\<lparr>initrd_files := initrd_files s, initrd_file_count := initrd_file_count s\<rparr>" by (simp add: initrd_add_def)
    then show ?thesis by blast
  qed
  then obtain fs1 n1 where "initrd_add (f_name f) (f_size f) (f_data f) s = s\<lparr>initrd_files := fs1, initrd_file_count := n1\<rparr>" by blast
  moreover from Cons.IH [of "s\<lparr>initrd_files := fs1, initrd_file_count := n1\<rparr>"] obtain fs2 n2
    where "add_files fs (s\<lparr>initrd_files := fs1, initrd_file_count := n1\<rparr>) = s\<lparr>initrd_files := fs2, initrd_file_count := n2\<rparr>" by auto
  ultimately show ?case by (auto simp: add_files_def)
qed

text \<open>The whole effect of \<^verbatim>\<open>initrd_init\<close> on an archive.\<close>

lemma initrd_init_placed:
  assumes "4 dvd unat p" "unat p + length (cpio_archive es) \<le> 2 ^ 63" "\<forall>e\<in>set es. valid_entry e"
    "read_bytes (mem s) p (length (cpio_archive es)) = cpio_archive es"
    "length es \<le> 128" "length (initrd_files s) = 128"
  shows "\<exists>d fs n. initrd_init p (p + of_nat (length (cpio_archive es))) s =
      Some (s\<lparr>initrd_files := fs, initrd_file_count := n, con := d\<rparr>) \<and>
    unat n = length es \<and> length fs = 128 \<and> (\<forall>i<length es. fs ! i = placed p es ! i)"
proof -
  let ?A = "cpio_archive es"
  obtain d where d: "initrd_dump p (s\<lparr>initrd_file_count := 0\<rparr>) = s\<lparr>initrd_file_count := 0, con := d\<rparr>"
    using initrd_dump_con [of p "s\<lparr>initrd_file_count := 0\<rparr>"] by auto
  let ?s = "s\<lparr>initrd_file_count := 0, con := d\<rparr>"
  have "unat (p + of_nat (length ?A)) = unat p + length ?A"
    using assms(2) by (subst unat_add_u64) (simp_all add: unat_of_nat)
  then have sc: "initrd_scan p (p + of_nat (length ?A)) ?s = Some (add_files (placed p es) ?s)"
    using assms by (intro scan_archive) simp_all
  obtain fs n where f: "add_files (placed p es) ?s = ?s\<lparr>initrd_files := fs, initrd_file_count := n\<rparr>"
    using add_files_only by blast
  have "unat n = length es \<and> length fs = 128 \<and> (\<forall>i<length es. fs ! i = placed p es ! i)"
    using add_files_table [of ?s "placed p es"] assms(5,6) unfolding f by simp
  moreover have "\<exists>d'. initrd_init p (p + of_nat (length ?A)) s =
      Some (s\<lparr>initrd_files := fs, initrd_file_count := n, con := d'\<rparr>)"
    unfolding initrd_init_def d sc f by (auto simp: kprintf_def)
  ultimately show ?thesis by blast
qed

lemma initrd_init_archive:
  assumes "4 dvd unat p" "unat p + length (cpio_archive es) \<le> 2 ^ 63" "\<forall>e\<in>set es. valid_entry e"
    "read_bytes (mem s) p (length (cpio_archive es)) = cpio_archive es"
    "length es \<le> 128" "length (initrd_files s) = 128"
  shows "\<exists>s'. initrd_init p (p + of_nat (length (cpio_archive es))) s = Some s' \<and> mem s' = mem s \<and>
    unat (initrd_file_count s') = length es \<and> (\<forall>i<length es. file_is (mem s') (initrd_files s' ! i) (es ! i))"
  using initrd_init_placed [OF assms] placed_holds [OF assms(1-4)] by auto

text \<open>Listing.\<close>

lemma list_files_returns:
  assumes "\<And>f. f \<in> set fs \<Longrightarrow> \<exists>nm. c_string (mem s) (f_name f) = Some nm"
  shows "\<exists>d. list_files fs s = Some (s\<lparr>con := d\<rparr>)"
  using assms
proof (induction fs arbitrary: s)
  case Nil
  show ?case by (auto intro: exI [of _ "con s"])
next
  case (Cons f fs)
  from Cons.prems obtain nm where nm: "c_string (mem s) (f_name f) = Some nm" by auto
  obtain d where k: "kprintf ''[INITRD] %s (%u bytes)
'' [Str (Some nm), Num (ucast (f_size f))] s = s\<lparr>con := d\<rparr>" using kprintf_con by blast
  have "\<exists>d'. list_files fs (s\<lparr>con := d\<rparr>) = Some (s\<lparr>con := d\<rparr>\<lparr>con := d'\<rparr>)"
    by (rule Cons.IH) (use Cons.prems in simp)
  then show ?case by (auto simp: nm k)
qed

lemma initrd_list_returns:
  assumes "unat (initrd_file_count s) = length es" "length es \<le> length (initrd_files s)" "\<forall>e\<in>set es. valid_entry e"
    "\<And>i. i < length es \<Longrightarrow> file_is (mem s) (initrd_files s ! i) (es ! i)"
  shows "\<exists>d. initrd_list s = Some (s\<lparr>con := d\<rparr>)"
  unfolding initrd_list_def
proof (rule list_files_returns)
  fix f assume "f \<in> set (take (unat (initrd_file_count s)) (initrd_files s))"
  then obtain i where i: "i < length es" "f = initrd_files s ! i"
    unfolding assms(1) by (auto simp: in_set_conv_nth)
  then show "\<exists>nm. c_string (mem s) (f_name f) = Some nm"
    using c_string_of [of "mem s" "f_name f" "entry_name (es ! i)"] assms(3,4) nth_mem [OF i(1)]
    by (auto simp: file_is_def valid_entry_def)
qed

end
