(* ===== verification/Initrd_Props.thy ===== *)
theory Initrd_Props
  imports Cpio
begin

text \<open>
  The properties of the initial ramdisk (\<^verbatim>\<open>kernel/initrd.c\<close>), each with a concrete instance.
\<close>

section \<open>Copying\<close>

lemma memcpy_mem_apply:
  assumes "n < 2 ^ 64" "\<And>i j. i < n \<Longrightarrow> j < n \<Longrightarrow> src + of_nat i \<noteq> dest + of_nat j"
  shows "memcpy_mem dest src n m x = (if unat (x - dest) < n then m (src + (x - dest)) else m x)"
  using assms
proof (induction n arbitrary: x)
  case 0
  then show ?case by (simp add: memcpy_mem_def)
next
  case (Suc n)
  have ih: "memcpy_mem dest src n m y = (if unat (y - dest) < n then m (src + (y - dest)) else m y)" for y
    by (rule Suc.IH) (use Suc.prems in auto)
  have sn: "\<not> unat (src + of_nat n - dest) < n"
  proof
    assume a: "unat (src + of_nat n - dest) < n"
    have "src + of_nat n = dest + of_nat (unat (src + of_nat n - dest))" by simp
    with Suc.prems(2) [of n "unat (src + of_nat n - dest)"] a show False by simp
  qed
  show ?case
  proof (cases "x = dest + of_nat n")
    case True
    have "unat (of_nat n :: u64) = n" using Suc.prems(1) by (simp add: unat_of_nat)
    then show ?thesis using True ih [of "src + of_nat n"] sn by (simp add: memcpy_mem_def)
  next
    case False
    have "unat (x - dest) \<noteq> n"
    proof
      assume "unat (x - dest) = n"
      then have "x - dest = of_nat n" by auto
      then show False using False by (simp add: algebra_simps)
    qed
    then show ?thesis using False ih [of x] by (auto simp: memcpy_mem_def)
  qed
qed

section \<open>Parsing\<close>

text \<open>C27. \<^verbatim>\<open>initrd_init\<close> on any bytes at all returns, as long as the module ends below 2^63: the table
  then has at most 128 files, the data of each lies inside the module, and memory is unchanged.\<close>

theorem initrd_init_total:
  assumes "unat stop \<le> 2 ^ 63" "unat start \<le> 2 ^ 63" "length (initrd_files s) = 128"
  shows "\<exists>s'. initrd_init start stop s = Some s' \<and> mem s' = mem s \<and> unat (initrd_file_count s') \<le> 128 \<and>
    (\<forall>i<unat (initrd_file_count s'). let f = initrd_files s' ! i in
      unat start \<le> unat (f_data f) \<and> unat (f_data f) + unat (f_size f) \<le> unat stop)"
proof -
  let ?s = "initrd_dump start (s\<lparr>initrd_file_count := 0\<rparr>)"
  have "files_ok (unat start) (unat stop) ?s" using assms(3) by (simp add: files_ok_def)
  from initrd_scan_returns [OF assms(1) order_refl assms(2) this] obtain s' where
    s': "initrd_scan start stop ?s = Some s'" "files_ok (unat start) (unat stop) s'" "mem s' = mem s" by auto
  then show ?thesis
    unfolding initrd_init_def by (fastforce simp: files_ok_def kprintf_def Let_def)
qed

theorem initrd_init_total_witness:
  "\<exists>s'. initrd_init 0x100000 0x101000 (initial_kernel small_layout (\<lambda>a. ucast (a * 7))) = Some s' \<and>
    unat (initrd_file_count s') \<le> 128"
  using initrd_init_total [of "0x101000" "0x100000" "initial_kernel small_layout (\<lambda>a. ucast (a * 7))"]
  by auto


definition sample_archive :: "entry list" where
  "sample_archive = [(\<lambda>_. 0, bytes_of ''etc/motd'', [72, 105]), (\<lambda>_. 7, bytes_of ''bin/sh'', [127, 69, 76, 70, 2])]"

definition sample_kernel :: kern_state where
  "sample_kernel = initial_kernel small_layout (write_bytes (\<lambda>_. 0) 0x100000 (cpio_archive sample_archive))"

lemma read_write_bytes:
  assumes "length bs < 2 ^ 64"
  shows "read_bytes (write_bytes m a bs) a (length bs) = bs"
  using assms by (intro nth_equalityI) (simp_all add: write_bytes_apply unat_of_nat)

lemma sample_archive_length: "length (cpio_archive sample_archive) = 376"
  by (simp add: cpio_archive_def sample_archive_def length_cpio_entry trailer_def entry_name_def entry_data_def
      bytes_of_def up4_def)

lemma sample_archive_valid: "\<forall>e\<in>set sample_archive. valid_entry e"
  by (simp add: sample_archive_def valid_entry_def entry_name_def entry_data_def trailer_def bytes_of_def)


section \<open>Reading\<close>



text \<open>The length check of \<^verbatim>\<open>initrd_read\<close> is defeated by wrap-around: when \<open>off + len\<close> exceeds 2^64 and
  comes out below the file's size, the call reads \<open>len\<close> bytes, far past the end of the file.\<close>

lemma initrd_read_overflow:
  assumes "unat off < unat (f_size f)" "2 ^ 64 \<le> unat off + unat len"
  shows "fst (initrd_read (Some f) off buf len s) = len \<and> unat (f_size f) < unat len"
proof -
  have z: "unat (f_size f) < 2 ^ 32" using unsigned_less [where ?'a = nat, of "f_size f"] by simp
  have "unat (off + len) = unat off + unat len - 2 ^ 64"
    using assms(2) unat_less_u64 [of off] unat_less_u64 [of len] by (simp add: unat_word_ariths mod_if)
  then have "unat (off + len) \<le> unat (f_size f)" using assms(1) unat_less_u64 [of len] by simp
  then show ?thesis using assms z
    by (auto simp: initrd_read_def Let_def word_le_nat_alt word_less_nat_alt)
qed

lemma initrd_read_overflow_witness:
  "fst (initrd_read (Some \<lparr>f_name = 0, f_size = 5, f_data = 0x1000\<rparr>) 2 0x2000 0xFFFFFFFFFFFFFFFF (initial_kernel small_layout ucast))
    = 0xFFFFFFFFFFFFFFFF"
  using initrd_read_overflow [of 2 "\<lparr>f_name = 0, f_size = 5, f_data = 0x1000\<rparr>" "0xFFFFFFFFFFFFFFFF"] by simp

end
