(* ===== verification/Elf.thy ===== *)
theory Elf
  imports Initrd
begin

text \<open>
  The ELF loader, \<^verbatim>\<open>kernel/elf_loader.c\<close>, with the structures of \<^verbatim>\<open>include/elf.h\<close> and the check of
  \<^verbatim>\<open>include/elf64.h\<close>.  The headers are read where the file lies in memory.  The addresses a segment
  asks for come from the file, so a store there is looked up in the active page table and faults
  if the page is missing.

  The loader calls \<^verbatim>\<open>vmm_map\<close>, which takes four arguments, with three: the address to be mapped
  arrives as the table, the frame as the address, the flags as the frame, and the flags are
  whatever the fourth argument register holds, here \<open>rcx\<close>.
\<close>

section \<open>Headers\<close>

record elf64_ehdr =
  e_ident :: "u8 list"
  e_type :: u16
  e_machine :: u16
  e_version :: u32
  e_entry :: u64
  e_phoff :: u64
  e_shoff :: u64
  e_flags :: u32
  e_ehsize :: u16
  e_phentsize :: u16
  e_phnum :: u16
  e_shentsize :: u16
  e_shnum :: u16
  e_shstrndx :: u16

record elf64_phdr =
  p_type :: u32
  p_flags :: u32
  p_offset :: u64
  p_vaddr :: u64
  p_paddr :: u64
  p_filesz :: u64
  p_memsz :: u64
  p_align :: u64

abbreviation ELF_MAGIC :: u32 where "ELF_MAGIC \<equiv> 0x464C457F"
abbreviation PT_LOAD :: u32 where "PT_LOAD \<equiv> 1"
abbreviation EM_X86_64 :: u16 where "EM_X86_64 \<equiv> 62"

definition ehdr_at :: "memory \<Rightarrow> u64 \<Rightarrow> elf64_ehdr" where
  "ehdr_at m a = \<lparr>e_ident = read_bytes m a 16, e_type = load16 m (a + 16), e_machine = load16 m (a + 18),
     e_version = load32 m (a + 20), e_entry = load64 m (a + 24), e_phoff = load64 m (a + 32),
     e_shoff = load64 m (a + 40), e_flags = load32 m (a + 48), e_ehsize = load16 m (a + 52),
     e_phentsize = load16 m (a + 54), e_phnum = load16 m (a + 56), e_shentsize = load16 m (a + 58),
     e_shnum = load16 m (a + 60), e_shstrndx = load16 m (a + 62)\<rparr>"

definition phdr_at :: "memory \<Rightarrow> u64 \<Rightarrow> elf64_phdr" where
  "phdr_at m a = \<lparr>p_type = load32 m a, p_flags = load32 m (a + 4), p_offset = load64 m (a + 8),
     p_vaddr = load64 m (a + 16), p_paddr = load64 m (a + 24), p_filesz = load64 m (a + 32),
     p_memsz = load64 m (a + 40), p_align = load64 m (a + 48)\<rparr>"

definition elf64_valid :: "memory \<Rightarrow> u64 \<Rightarrow> u64 \<Rightarrow> bool" where
  "elf64_valid m data sz \<longleftrightarrow>
     (if sz < 64 then False
      else if load32 m data \<noteq> ELF_MAGIC then False
      else if e_ident (ehdr_at m data) ! 4 \<noteq> 2 then False
      else if e_ident (ehdr_at m data) ! 5 \<noteq> 1 then False
      else if e_machine (ehdr_at m data) \<noteq> EM_X86_64 then False
      else True)"

section \<open>Loading\<close>

text \<open>\<^verbatim>\<open>for (i = 0; i < n; i++)\<close> with a body that can stop the machine.\<close>

primrec try_upto :: "nat \<Rightarrow> (nat \<Rightarrow> 's \<Rightarrow> 's result) \<Rightarrow> 's \<Rightarrow> 's result" where
  "try_upto 0 f s = Inr s"
| "try_upto (Suc n) f s = try_then (try_upto n f s) (f n)"

definition store8 :: "u64 \<Rightarrow> u8 \<Rightarrow> 'a vmm_state_scheme \<Rightarrow> 'a vmm_state_scheme result" where
  "store8 va b s = try_then (kernel_addr va s) (\<lambda>pa. Inr (s\<lparr>mem := (mem s)(pa := b)\<rparr>))"

text \<open>The page loop: \<open>n\<close> pages are left, \<open>p\<close> is the counter; \<open>False\<close> is the early return.\<close>

fun elf_map_pages :: "u64 \<Rightarrow> u64 \<Rightarrow> nat \<Rightarrow> u64 \<Rightarrow> 'a kern_state_scheme
    \<Rightarrow> (bool \<times> 'a kern_state_scheme) result" where
  "elf_map_pages rcx page_start 0 p s = Inr (True, s)"
| "elf_map_pages rcx page_start (Suc n) p s =
     (case pmm_alloc_page s of (pa, s1) \<Rightarrow>
        if pa = 0 then Inr (False, kprintf ''[ELF] out of memory
'' [] s1)
        else
          try_then (kernel_addr (page_start + p * 0x1000) s1) (\<lambda>tbl.
          try_then (vmm_map tbl pa 0x3 rcx s1) (\<lambda>(_, s2).
            elf_map_pages rcx page_start n (p + 1) s2)))"

definition elf_load_segment :: "u64 \<Rightarrow> u64 \<Rightarrow> elf64_phdr \<Rightarrow> 'a kern_state_scheme
    \<Rightarrow> (bool \<times> 'a kern_state_scheme) result" where
  "elf_load_segment rcx base ph s =
     (if p_type ph \<noteq> PT_LOAD then Inr (True, s)
      else
        let vaddr = p_vaddr ph; memsz = p_memsz ph; filesz = p_filesz ph; offset = p_offset ph;
            page_start = vaddr AND NOT 0xFFF;
            page_end = (vaddr + memsz + 0xFFF) AND NOT 0xFFF;
            pages = drop_bit 12 (page_end - page_start)
        in try_then (elf_map_pages rcx page_start (unat pages) 0 s) (\<lambda>(ok, s1).
           if \<not> ok then Inr (False, s1)
           else
             try_then (try_upto (unat filesz)
               (\<lambda>j s. store8 (vaddr + of_nat j) (mem s (base + offset + of_nat j)) s) s1) (\<lambda>s2.
             try_then (try_upto (unat memsz - unat filesz)
               (\<lambda>k s. store8 (vaddr + (filesz + of_nat k)) 0 s) s2) (\<lambda>s3. Inr (True, s3)))))"

text \<open>The loop over the program headers; their number is read again in every round.\<close>

lemma unat_less_u16: "unat (x :: u16) < 65536"
  using unsigned_less [where ?'a = nat, of x] by simp

function elf_segments :: "u64 \<Rightarrow> u64 \<Rightarrow> u64 \<Rightarrow> nat \<Rightarrow> 'a kern_state_scheme
    \<Rightarrow> (bool \<times> 'a kern_state_scheme) result" where
  "elf_segments rcx base ph i s =
     (if i < unat (e_phnum (ehdr_at (mem s) base)) then
        try_then (elf_load_segment rcx base (phdr_at (mem s) (ph + of_nat i * 56)) s) (\<lambda>(ok, s1).
          if \<not> ok then Inr (False, s1) else elf_segments rcx base ph (Suc i) s1)
      else Inr (True, s))"
  by pat_completeness auto
termination
proof (relation "measure (\<lambda>(rcx, base, ph, i, s). 65536 - i)")
  show "wf (measure (\<lambda>(rcx, base, ph, i, s). 65536 - i))" by (rule wf_measure)
next
  fix rcx base ph i and s s1 :: "'a kern_state_scheme" and r ok
  assume "i < unat (e_phnum (ehdr_at (mem s) base))"
  then have "i < 65536" using unat_less_u16 less_trans by blast
  then show "((rcx, base, ph, Suc i, s1), rcx, base, ph, i, s) \<in> measure (\<lambda>(rcx, base, ph, i, s). 65536 - i)"
    by simp
qed

declare elf_segments.simps [simp del]

definition elf_log_header :: "u64 \<Rightarrow> 'a kern_state_scheme \<Rightarrow> 'a kern_state_scheme" where
  "elf_log_header base s =
     kprintf ''e_phoff = %lx
'' [Num (e_phoff (ehdr_at (mem s) base))] (kprintf ''e_entry = %p
'' [Num (e_entry (ehdr_at (mem s) base))] (kprintf ''magic = %x
'' [Num (ucast (load32 (mem s) base))] (kprintf ''base = %p
'' [Num base] s)))"

text \<open>The result is the entry address, or \<open>None\<close> where the function returns \<^verbatim>\<open>false\<close>.\<close>

definition elf_load_from_initrd :: "u64 \<Rightarrow> u8 list \<Rightarrow> 'a kern_state_scheme
    \<Rightarrow> (u64 option \<times> 'a kern_state_scheme) result" where
  "elf_load_from_initrd rcx path s =
     (case initrd_find path s of
        None \<Rightarrow> Inr (None, kprintf ''[ELF] file not found: %s
'' [Str (Some path)] s)
      | Some i \<Rightarrow>
          let f = initrd_files s ! i in
          if f_size f < 64 then Inr (None, kprintf ''[ELF] too small: %s
'' [Str (Some path)] s)
          else
            let base = f_data f;
                s1 = elf_log_header base s;
                magic = load32 (mem s1) base
            in if magic \<noteq> ELF_MAGIC then Inr (None, kprintf ''[ELF] bad magic: %x
'' [Num (ucast magic)] s1)
            else if e_machine (ehdr_at (mem s1) base) \<noteq> 0x3E then
              Inr (None, kprintf ''[ELF] unsupported machine: %u
'' [Num (ucast (e_machine (ehdr_at (mem s1) base)))] s1)
            else
              try_then (elf_segments rcx base (base + e_phoff (ehdr_at (mem s1) base)) 0 s1) (\<lambda>(ok, s2).
                if \<not> ok then Inr (None, s2)
                else
                  let entry = e_entry (ehdr_at (mem s2) base)
                  in Inr (Some entry, kprintf ''[ELF] loaded %s entry=%p
'' [Str (Some path), Num entry] s2)))"

section \<open>Which files are accepted\<close>

definition elf_accepted :: "u8 list \<Rightarrow> 'a kern_state_scheme \<Rightarrow> bool" where
  "elf_accepted path s \<longleftrightarrow>
     (case initrd_find path s of
        None \<Rightarrow> False
      | Some i \<Rightarrow> let f = initrd_files s ! i in
          64 \<le> f_size f \<and> load32 (mem s) (f_data f) = ELF_MAGIC \<and> e_machine (ehdr_at (mem s) (f_data f)) = EM_X86_64)"

lemma elf_log_header_con: "\<exists>d. elf_log_header base s = s\<lparr>con := d\<rparr>"
  by (auto simp: elf_log_header_def kprintf_def)

lemma elf_load_accepted:
  assumes "elf_accepted path s"
  obtains i d where "initrd_find path s = Some i"
    "elf_load_from_initrd rcx path s =
       (let base = f_data (initrd_files s ! i) in
        try_then (elf_segments rcx base (base + e_phoff (ehdr_at (mem s) base)) 0 (s\<lparr>con := d\<rparr>)) (\<lambda>(ok, s2).
          if \<not> ok then Inr (None, s2)
          else let entry = e_entry (ehdr_at (mem s2) base)
               in Inr (Some entry, kprintf ''[ELF] loaded %s entry=%p
'' [Str (Some path), Num entry] s2)))"
proof -
  obtain i where i: "initrd_find path s = Some i" using assms by (auto simp: elf_accepted_def split: option.splits)
  obtain d where d: "elf_log_header (f_data (initrd_files s ! i)) s = s\<lparr>con := d\<rparr>" using elf_log_header_con by blast
  have "\<not> f_size (initrd_files s ! i) < 64" using assms i by (auto simp: elf_accepted_def Let_def)
  then show ?thesis
    by (intro that [OF i, of d]) (use assms d in \<open>simp add: elf_load_from_initrd_def elf_accepted_def i Let_def\<close>)
qed

lemma elf_load_refused:
  assumes "\<not> elf_accepted path s"
  shows "\<exists>d. elf_load_from_initrd rcx path s = Inr (None, s\<lparr>con := d\<rparr>)"
proof (cases "initrd_find path s")
  case None
  then show ?thesis by (auto simp: elf_load_from_initrd_def kprintf_def)
next
  case (Some i)
  obtain d where d: "elf_log_header (f_data (initrd_files s ! i)) s = s\<lparr>con := d\<rparr>" using elf_log_header_con by blast
  show ?thesis using assms Some d
    by (auto simp: elf_load_from_initrd_def elf_accepted_def Let_def kprintf_def not_less)
qed

text \<open>The same of a file's bytes: long enough for a header, the magic number, the machine.\<close>

definition elf_file :: "u8 list \<Rightarrow> bool" where
  "elf_file d \<longleftrightarrow> 64 \<le> length d \<and> take 4 d = [0x7F, 0x45, 0x4C, 0x46] \<and> take 2 (drop 18 d) = [62, 0]"

lemma byte_loads:
  "k < 4 \<Longrightarrow> m (a + of_nat k) = ucast (drop_bit (8 * k) (load32 m a))"
  "k < 2 \<Longrightarrow> m (a + of_nat k) = ucast (drop_bit (8 * k) (load16 m a))"
  by (auto intro!: bit_word_eqI simp: load32_def load16_def bit_load_le bit_simps)

lemma elf_accepted_file:
  assumes "elf_accepted path s" "initrd_find path s = Some i"
    and "read_bytes (mem s) (f_data (initrd_files s ! i)) (unat (f_size (initrd_files s ! i))) = d"
  shows "elf_file d"
proof -
  let ?f = "initrd_files s ! i"
  have a: "64 \<le> f_size ?f" "load32 (mem s) (f_data ?f) = ELF_MAGIC" "load16 (mem s) (f_data ?f + 18) = EM_X86_64"
    using assms(1,2) by (simp_all add: elf_accepted_def Let_def ehdr_at_def)
  have l: "64 \<le> length d" using a(1) assms(3) by (auto simp: word_le_nat_alt)
  have t: "take n (drop j d) = map (\<lambda>k. mem s (f_data ?f + of_nat (j + k))) [0..<n]" if "j + n \<le> 64" for j n
    by (rule nth_equalityI) (use that l assms(3) in auto)
  have "take 4 d = map (\<lambda>k. ucast (drop_bit (8 * k) ELF_MAGIC)) [0..<4]"
    using t [of 0 4] byte_loads(1) [of _ "mem s" "f_data ?f"] a(2) by simp
  moreover have "take 2 (drop 18 d) = map (\<lambda>k. ucast (drop_bit (8 * k) EM_X86_64)) [0..<2]"
    using t [of 18 2] byte_loads(2) [of _ "mem s" "f_data ?f + 18"] a(3) by (simp add: add.assoc)
  ultimately show ?thesis using l by (simp add: elf_file_def upt_rec)
qed

end
