(* ===== verification/Boot.thy ===== *)
theory Boot
  imports Elf
begin

text \<open>
  The start of the kernel, \<^verbatim>\<open>kernel/main.c\<close>: the multiboot memory map, the search for the ramdisk
  module, \<^verbatim>\<open>kernel_main\<close> up to its idle loop, one round of that loop, and the kernel's test
  processes.  \<open>None\<close> is a loop that does not end, \<open>Some (Inl e)\<close> a panic.
\<close>

section \<open>Memory map\<close>

text \<open>Offsets of the packed structures \<^verbatim>\<open>mb2_tag_t\<close>, \<^verbatim>\<open>mb2_tag_mmap_t\<close> and \<^verbatim>\<open>mb2_mmap_entry_t\<close>.\<close>

definition tag_type :: "memory \<Rightarrow> u64 \<Rightarrow> u32" where "tag_type m p = load32 m p"
definition tag_size :: "memory \<Rightarrow> u64 \<Rightarrow> u32" where "tag_size m p = load32 m (p + 4)"
definition mmap_entry_size :: "memory \<Rightarrow> u64 \<Rightarrow> u32" where "mmap_entry_size m p = load32 m (p + 8)"
definition entry_base_addr :: "memory \<Rightarrow> u64 \<Rightarrow> u64" where "entry_base_addr m e = load64 m e"
definition entry_length :: "memory \<Rightarrow> u64 \<Rightarrow> u64" where "entry_length m e = load64 m (e + 8)"
definition entry_type :: "memory \<Rightarrow> u64 \<Rightarrow> u32" where "entry_type m e = load32 m (e + 16)"

text \<open>\<^verbatim>\<open>ALIGN_UP(tag->size, 8)\<close> and \<^verbatim>\<open>(tag->size + 7) & ~7\<close> are 32-bit computations.\<close>

definition align8 :: "u32 \<Rightarrow> u32" where
  "align8 x = (x + 8 - 1) AND NOT (8 - 1)"

text \<open>\<open>better\<close>: the larger of the best region so far and an available one.\<close>

definition better :: "u64 \<Rightarrow> u64 \<Rightarrow> u32 \<Rightarrow> u64 \<times> u64 \<Rightarrow> u64 \<times> u64" where
  "better base len ty best = (if ty = 1 \<and> len > snd best then (base, len) else best)"

partial_function (option) mmap_entries ::
  "u64 \<Rightarrow> u64 \<Rightarrow> u64 \<Rightarrow> u64 \<times> u64 \<Rightarrow> 'a vmm_state_scheme \<Rightarrow> ((u64 \<times> u64) \<times> 'a vmm_state_scheme) option" where
  "mmap_entries mm e ee best s =
     (if e < ee then
        let base = entry_base_addr (mem s) e; len = entry_length (mem s) e; ty = entry_type (mem s) e;
            s1 = kprintf ''[MMAP] base=%p len=%luMB type=%d
'' [Num base, Num (len div (1024 * 1024)), Num (ucast ty)] s
        in mmap_entries mm (e + ucast (mmap_entry_size (mem s1) mm)) ee (better base len ty best) s1
      else Some (best, s))"

partial_function (option) mmap_tags ::
  "u64 \<Rightarrow> u64 \<Rightarrow> u64 \<times> u64 \<Rightarrow> 'a vmm_state_scheme \<Rightarrow> ((u64 \<times> u64) \<times> 'a vmm_state_scheme) option" where
  "mmap_tags p stop best s =
     (if p < stop then
        if tag_type (mem s) p = 0 then Some (best, s)
        else
          Option.bind
            (if tag_type (mem s) p = 6
             then mmap_entries p (p + 16) (p + ucast (tag_size (mem s) p)) best s
             else Some (best, s))
            (\<lambda>(best1, s1). mmap_tags (p + ucast (align8 (tag_size (mem s1) p))) stop best1 s1)
      else Some (best, s))"

definition parse_mmap :: "u64 \<Rightarrow> 'a vmm_state_scheme \<Rightarrow> ((u64 \<times> u64) \<times> 'a vmm_state_scheme) option" where
  "parse_mmap info s =
     (let best = (0x100000, 32 * 1024 * 1024) in
      if info = 0 \<or> load32 (mem s) info < 8 then Some (best, s)
      else mmap_tags (info + 8) (info + ucast (load32 (mem s) info)) best s)"

text \<open>The pages of the kernel image, below two megabytes, are left out.\<close>

definition skip_kernel :: "u64 \<times> u64 \<Rightarrow> u64 \<times> u64" where
  "skip_kernel r =
     (case r of (mem_base, mem_size) \<Rightarrow>
        if mem_base < 0x200000 then
          let skip = 0x200000 - mem_base
          in if skip < mem_size then (mem_base + skip, mem_size - skip) else (0x200000, 16 * 1024 * 1024)
        else (mem_base, mem_size))"

section \<open>The ramdisk module\<close>

text \<open>The fields of \<^verbatim>\<open>struct multiboot_tag_module\<close>.\<close>

abbreviation MULTIBOOT2_TAG_TYPE_MODULE :: u32 where "MULTIBOOT2_TAG_TYPE_MODULE \<equiv> 3"
abbreviation module_start :: "memory \<Rightarrow> u64 \<Rightarrow> u32" where "module_start m tag \<equiv> load32 m (tag + 8)"
abbreviation module_end :: "memory \<Rightarrow> u64 \<Rightarrow> u32" where "module_end m tag \<equiv> load32 m (tag + 12)"

text \<open>The first module tag; the search is bounded by the end tag only.\<close>

partial_function (option) module_search ::
  "u64 \<Rightarrow> 'a vmm_state_scheme \<Rightarrow> ((u64 \<times> u64) \<times> 'a vmm_state_scheme) option" where
  "module_search tag s =
     (if tag_type (mem s) tag \<noteq> 0 then
        if tag_type (mem s) tag = MULTIBOOT2_TAG_TYPE_MODULE then
          let mod_start = ucast (module_start (mem s) tag); mod_end = ucast (module_end (mem s) tag)
          in Some ((mod_start, mod_end), kprintf ''[INITRD] module start=%p end=%p size=%u
'' [Num mod_start, Num mod_end, Num (ucast (ucast (mod_end - mod_start) :: u32))] s)
        else module_search (tag + ucast (align8 (tag_size (mem s) tag))) s
      else Some ((0, 0), s))"

section \<open>Kernel main\<close>

definition run_then :: "'a result option \<Rightarrow> ('a \<Rightarrow> 'b result option) \<Rightarrow> 'b result option" where
  "run_then m f = (case m of None \<Rightarrow> None | Some (Inl e) \<Rightarrow> Some (Inl e) | Some (Inr a) \<Rightarrow> f a)"

definition returns :: "'a option \<Rightarrow> 'a result option" where
  "returns m = map_option Inr m"

definition boot_banner :: "u32 \<Rightarrow> 'a con_state_scheme \<Rightarrow> 'a con_state_scheme" where
  "boot_banner magic s =
     (let s1 = kprintf ''====================================
'' [] (kprintf ''  MicroKernel x86_64 (C)
'' [] (kprintf ''====================================
'' [] (s\<lparr>con := vga_init (serial_init (con s))\<rparr>)))
      in if magic \<noteq> 0x36D76289 then kprintf ''[WARN] bad multiboot magic: 0x%x (expected 0x%x)
'' [Num (ucast magic), Num 0x36D76289] s1
         else kprintf ''[BOOT] Multiboot2 OK
'' [] s1)"

definition arch_init :: "'a arch_state_scheme \<Rightarrow> 'a arch_state_scheme" where
  "arch_init s = pit_init (pic_init (idt_init (gdt_init s)))"

text \<open>
  The shell: \<^verbatim>\<open>main.c\<close> passes the structure \<^verbatim>\<open>elf\<close> itself where \<^verbatim>\<open>proc_create_elf\<close> takes a pointer to
  it, so the entry address is what the callee gets as the pointer.  \<open>ptable\<close> is the address of
  \<^verbatim>\<open>proc_table\<close>, whose elements have 480 bytes, for the trace line.
\<close>

definition start_shell :: "u64 \<Rightarrow> u64 \<Rightarrow> 'a kern_state_scheme \<Rightarrow> 'a kern_state_scheme result" where
  "start_shell ptable rcx s =
     try_then (elf_load_from_initrd rcx (bytes_of ''bin/sh'') s) (\<lambda>(r, s1).
       case r of
         None \<Rightarrow> Inr (kprintf ''[KERN] failed to load shell
'' [] s1)
       | Some entry \<Rightarrow>
           try_then (proc_create_elf entry (kprintf ''[ELF] loaded bin/sh entry=%p
'' [Num entry] s1)) (\<lambda>(shell, s2).
             case shell of
               None \<Rightarrow> Inl (Panic ''failed to create shell process'')
             | Some i \<Rightarrow> Inr (kprintf ''[ELF] created shell proc=%p pid=%d
'' [Num (ptable + 480 * of_nat i), Num (ucast (pid (proc_at i s2)))] s2)))"

text \<open>What the linker and the calling convention provide to \<^verbatim>\<open>kernel_main\<close>.\<close>

record boot_env =
  b_initrd_start :: u64
  b_initrd_end :: u64
  b_proc_idle :: u64
  b_proc_table :: u64
  b_rcx :: u64

text \<open>Memory is set up.\<close>

definition memory_init :: "u64 \<Rightarrow> 'a sched_state_scheme \<Rightarrow> 'a sched_state_scheme result option" where
  "memory_init mb_info s =
     run_then (returns (parse_mmap mb_info s)) (\<lambda>(region, s1).
       case skip_kernel region of (mem_base, mem_size) \<Rightarrow>
         run_then (vmm_init (pmm_init mem_base mem_size s1)) (\<lambda>s2.
           Some (Inr (proc_init (syscall_init s2)))))"

definition ramdisk_init :: "boot_env \<Rightarrow> u64 \<Rightarrow> 'a kern_state_scheme \<Rightarrow> 'a kern_state_scheme result option" where
  "ramdisk_init env mb_info s =
     run_then (returns (module_search (mb_info + 8) (kprintf ''[INITRD] start=%p end=%p size=%u
'' [Num (b_initrd_start env), Num (b_initrd_end env),
         Num (ucast (ucast (b_initrd_end env - b_initrd_start env) :: u32))] s))) (\<lambda>((mod_start, mod_end), s1).
       let s2 = (if mod_start = 0 then kprintf ''[INITRD] no module found
'' [] s1 else s1)
       in run_then (returns (initrd_init mod_start mod_end s2)) (\<lambda>s3. returns (initrd_list s3)))"

definition start_scheduler :: "nat \<Rightarrow> 'a sched_state_scheme \<Rightarrow> 'a sched_state_scheme" where
  "start_scheduler idle s =
     (let s1 = kprintf ''[KERN] starting scheduler...
'' [] s;
          s2 = set_proc idle (\<lambda>p. p\<lparr>state := PROC_RUNNING\<rparr>) (s1\<lparr>current_proc := Some idle\<rparr>)
      in kprintf ''[KERN] entering idle loop
'' [] (sti s2))"

text \<open>The state in which the idle loop is entered.\<close>

definition kernel_main :: "boot_env \<Rightarrow> u32 \<Rightarrow> u64 \<Rightarrow> 'a kern_state_scheme \<Rightarrow> 'a kern_state_scheme result option" where
  "kernel_main env magic mb_info s =
     run_then (memory_init mb_info (arch_init (boot_banner magic s))) (\<lambda>s1.
     run_then (ramdisk_init env mb_info s1) (\<lambda>s2.
     run_then (returns (proc_create (bytes_of ''idle'') (b_proc_idle env) s2)) (\<lambda>(idle, s3).
       case idle of
         None \<Rightarrow> Some (Inl (Panic ''failed to create idle process''))
       | Some i \<Rightarrow>
           run_then (Some (start_shell (b_proc_table env) (b_rcx env) s3)) (\<lambda>s4.
             Some (Inr (start_scheduler i s4))))))"

text \<open>One round of the idle loop, after the interrupt that ends \<^verbatim>\<open>hlt\<close>.\<close>

definition idle_round :: "u64 \<Rightarrow> 'a sched_state_scheme \<Rightarrow> u64 \<times> 'a sched_state_scheme" where
  "idle_round last_stat s =
     (if ticks s - last_stat \<ge> 5 * PIT_HZ
      then (ticks s, kprintf ''[KERN] ticks=%lu free_pages=%lu
'' [Num (ticks s), Num (pmm_free_count s)] s)
      else (last_stat, s))"

section \<open>Test processes\<close>

text \<open>The bodies of the kernel's test processes, with \<open>resume\<close> as for the system calls.\<close>

function hello_loop :: "'a ipc_state_scheme resume \<Rightarrow> nat \<Rightarrow> 'a ipc_state_scheme \<Rightarrow> 'a ipc_state_scheme option" where
  "hello_loop resume n s =
     (let s1 = kprintf ''[proc_hello] tick=%lu count=%d
'' [Num (ticks s), Num (of_nat n)] s in
      case came_back resume s1 (proc_sleep 1000 s1) of
        None \<Rightarrow> None
      | Some s2 \<Rightarrow> if Suc n \<ge> 5 then Some s2 else hello_loop resume (Suc n) s2)"
  by pat_completeness auto
termination
  by (relation "measure (\<lambda>(_, n, _). 5 - n)") auto

declare hello_loop.simps [simp del]

definition proc_hello :: "'a ipc_state_scheme resume \<Rightarrow> 'a ipc_state_scheme \<Rightarrow> 'a ipc_state_scheme option" where
  "proc_hello resume s =
     map_option (kprintf ''[proc_hello] done
'' []) (hello_loop resume 0 (kprintf ''[proc_hello] pid=%d started
'' [Num (scast (cur_pid s))] s))"

text \<open>\<open>msg\<close> is the address of the local array, which is filled anew in every round.\<close>

primrec sender_loop :: "'a ipc_state_scheme resume \<Rightarrow> u64 \<Rightarrow> nat \<Rightarrow> 'a ipc_state_scheme \<Rightarrow> 'a ipc_state_scheme option" where
  "sender_loop resume msg 0 s = Some s"
| "sender_loop resume msg (Suc k) s =
     (case came_back resume s (proc_sleep 500 s) of
        None \<Rightarrow> None
      | Some s1 \<Rightarrow>
          let s2 = s1\<lparr>mem := write_bytes (mem s1) msg (bytes_of ''hello from sender'' @ [0])\<rparr>;
              s3 = snd (ipc_send 2 0x100 msg 18 s2)
          in sender_loop resume msg k (kprintf ''[proc_sender] sent msg %d
'' [Num (of_nat (2 - k))] s3))"

definition proc_sender :: "'a ipc_state_scheme resume \<Rightarrow> u64 \<Rightarrow> 'a ipc_state_scheme \<Rightarrow> 'a ipc_state_scheme option" where
  "proc_sender resume msg s = sender_loop resume msg 3 (kprintf ''[proc_sender] pid=%d started
'' [Num (scast (cur_pid s))] s)"

text \<open>One round of \<^verbatim>\<open>proc_idle\<close>.\<close>

definition proc_idle_round :: "'a sched_state_scheme \<Rightarrow> 'a sched_state_scheme" where
  "proc_idle_round s = proc_yield s"

end
