(* ===== verification/Boot_Spec.thy ===== *)
theory Boot_Spec
  imports Boot
begin

text \<open>
  Multiboot information as a list of tags, and what the two scans of \<^verbatim>\<open>kernel/main.c\<close> make of it.
\<close>

section \<open>Tags in memory\<close>

type_synonym region = "u64 \<times> u64 \<times> u32"

datatype boot_tag = Mmap "region list" | Module u64 u64 | Other_tag

fun regions_at :: "memory \<Rightarrow> u64 \<Rightarrow> u64 \<Rightarrow> u64 \<Rightarrow> region list \<Rightarrow> bool" where
  "regions_at m step e ee [] \<longleftrightarrow> \<not> e < ee"
| "regions_at m step e ee ((b, l, t) # rs) \<longleftrightarrow> e < ee \<and> entry_base_addr m e = b \<and> entry_length m e = l \<and>
     entry_type m e = t \<and> regions_at m step (e + step) ee rs"

fun tag_at :: "memory \<Rightarrow> u64 \<Rightarrow> boot_tag \<Rightarrow> bool" where
  "tag_at m p (Mmap rs) \<longleftrightarrow> tag_type m p = 6 \<and>
     regions_at m (ucast (mmap_entry_size m p)) (p + 16) (p + ucast (tag_size m p)) rs"
| "tag_at m p (Module a b) \<longleftrightarrow> tag_type m p = 3 \<and> ucast (load32 m (p + 8)) = a \<and> ucast (load32 m (p + 12)) = b"
| "tag_at m p Other_tag \<longleftrightarrow> tag_type m p \<notin> {0, 3, 6}"

text \<open>The tags from \<open>p\<close> up to the end tag, all before \<open>stop\<close>.\<close>

fun tags_at :: "memory \<Rightarrow> u64 \<Rightarrow> u64 \<Rightarrow> boot_tag list \<Rightarrow> bool" where
  "tags_at m p stop [] \<longleftrightarrow> tag_type m p = 0"
| "tags_at m p stop (t # ts) \<longleftrightarrow> p < stop \<and> tag_at m p t \<and>
     tags_at m (p + ucast (align8 (tag_size m p))) stop ts"

definition boot_info :: "memory \<Rightarrow> u64 \<Rightarrow> boot_tag list \<Rightarrow> bool" where
  "boot_info m info ts \<longleftrightarrow>
     (if info = 0 \<or> load32 m info < 8 then ts = [] \<and> tag_type m (info + 8) = 0
      else tags_at m (info + 8) (info + ucast (load32 m info)) ts)"

section \<open>The memory map\<close>

primrec tag_regions :: "boot_tag \<Rightarrow> region list" where
  "tag_regions (Mmap rs) = rs"
| "tag_regions (Module a b) = []"
| "tag_regions Other_tag = []"

definition largest :: "region list \<Rightarrow> u64 \<times> u64 \<Rightarrow> u64 \<times> u64" where
  "largest rs best = fold (\<lambda>(b, l, t). better b l t) rs best"

lemma mmap_entries_spec:
  assumes "regions_at (mem s) (ucast (mmap_entry_size (mem s) mm)) e ee rs"
  shows "\<exists>d. mmap_entries mm e ee best s = Some (largest rs best, s\<lparr>con := d\<rparr>)"
  using assms
proof (induction rs arbitrary: e best s)
  case Nil
  then show ?case by (subst mmap_entries.simps) (simp add: largest_def exI [of _ "con s"])
next
  case (Cons x rs)
  obtain b l t where x: "x = (b, l, t)" by (cases x)
  define s1 where "s1 = kprintf ''[MMAP] base=%p len=%luMB type=%d
'' [Num b, Num (l div (1024 * 1024)), Num (ucast t)] s"
  have s1: "mem s1 = mem s" "\<exists>d. s1 = s\<lparr>con := d\<rparr>" by (auto simp: s1_def kprintf_def)
  let ?step = "ucast (mmap_entry_size (mem s) mm) :: u64"
  have "\<exists>d. mmap_entries mm (e + ?step) ee (better b l t best) s1 = Some (largest rs (better b l t best), s1\<lparr>con := d\<rparr>)"
    using Cons.prems x by (intro Cons.IH) (simp add: s1)
  then obtain d where "mmap_entries mm (e + ?step) ee (better b l t best) s1 = Some (largest rs (better b l t best), s1\<lparr>con := d\<rparr>)" ..
  moreover have "mmap_entries mm e ee best s = mmap_entries mm (e + ?step) ee (better b l t best) s1"
    using Cons.prems x s1(1) by (subst mmap_entries.simps) (simp add: s1_def Let_def)
  ultimately show ?case using s1(2) x by (auto simp: largest_def)
qed

lemma mmap_tags_spec:
  assumes "tags_at (mem s) p stop ts"
  shows "\<exists>d. mmap_tags p stop best s = Some (largest (concat (map tag_regions ts)) best, s\<lparr>con := d\<rparr>)"
  using assms
proof (induction ts arbitrary: p best s)
  case Nil
  then show ?case by (subst mmap_tags.simps) (simp add: largest_def exI [of _ "con s"])
next
  case (Cons t ts)
  let ?q = "p + ucast (align8 (tag_size (mem s) p))"
  let ?best = "largest (tag_regions t) best"
  have nz: "tag_type (mem s) p \<noteq> 0" using Cons.prems by (cases t) auto
  have "\<exists>d. (if tag_type (mem s) p = 6 then mmap_entries p (p + 16) (p + ucast (tag_size (mem s) p)) best s
      else Some (best, s)) = Some (?best, s\<lparr>con := d\<rparr>)"
  proof (cases t)
    case (Mmap rs)
    then show ?thesis using Cons.prems mmap_entries_spec [of s p] by simp
  qed (use Cons.prems in \<open>auto simp: largest_def intro: exI [of _ "con s"]\<close>)
  then obtain d where d: "(if tag_type (mem s) p = 6 then mmap_entries p (p + 16) (p + ucast (tag_size (mem s) p)) best s
      else Some (best, s)) = Some (?best, s\<lparr>con := d\<rparr>)" ..
  have "\<exists>d'. mmap_tags ?q stop ?best (s\<lparr>con := d\<rparr>) =
      Some (largest (concat (map tag_regions ts)) ?best, s\<lparr>con := d\<rparr>\<lparr>con := d'\<rparr>)"
    using Cons.prems by (intro Cons.IH) simp
  moreover have "mmap_tags p stop best s = mmap_tags ?q stop ?best (s\<lparr>con := d\<rparr>)"
    using Cons.prems nz by (subst mmap_tags.simps) (simp add: d)
  ultimately show ?case by (auto simp: largest_def)
qed

lemma parse_mmap_spec:
  assumes "boot_info (mem s) info ts"
  shows "\<exists>d. parse_mmap info s = Some (largest (concat (map tag_regions ts)) (0x100000, 0x2000000), s\<lparr>con := d\<rparr>)"
proof (cases "info = 0 \<or> load32 (mem s) info < 8")
  case True
  then show ?thesis using assms by (auto simp: parse_mmap_def boot_info_def largest_def intro: exI [of _ "con s"])
next
  case False
  then show ?thesis using assms mmap_tags_spec by (simp add: parse_mmap_def boot_info_def)
qed

lemma better_le: "snd best \<le> snd (better b l t best)"
  by (auto simp: better_def)

lemma largest_spec:
  "snd best \<le> snd (largest rs best) \<and> (\<forall>(b, l, t)\<in>set rs. t = 1 \<longrightarrow> l \<le> snd (largest rs best)) \<and>
    (largest rs best = best \<or> (fst (largest rs best), snd (largest rs best), 1) \<in> set rs)"
proof (induction rs arbitrary: best)
  case Nil
  then show ?case by (simp add: largest_def)
next
  case (Cons x rs)
  obtain b l t where x: "x = (b, l, t)" by (cases x)
  have eq: "largest ((b, l, t) # rs) best = largest rs (better b l t best)" by (simp add: largest_def)
  note ih = Cons.IH [of "better b l t best"]
  have le: "snd best \<le> snd (largest rs (better b l t best))" using ih better_le order_trans by blast
  have new: "t = 1 \<longrightarrow> l \<le> snd (largest rs (better b l t best))"
    using conjunct1 [OF ih] by (cases "l > snd best") (auto simp: better_def)
  have "better b l t best = best \<or> better b l t best = (b, l) \<and> t = 1" by (auto simp: better_def)
  then have "largest rs (better b l t best) = best \<or>
      (fst (largest rs (better b l t best)), snd (largest rs (better b l t best)), 1) \<in> set ((b, l, t) # rs)"
    using conjunct2 [OF conjunct2 [OF ih]] by (metis fst_conv snd_conv list.set_intros)
  with le new show ?case unfolding x eq using ih by simp
qed

section \<open>The module\<close>

fun first_module :: "boot_tag list \<Rightarrow> u64 \<times> u64" where
  "first_module [] = (0, 0)"
| "first_module (Module a b # ts) = (a, b)"
| "first_module (_ # ts) = first_module ts"

lemma module_search_spec:
  assumes "tags_at (mem s) p stop ts"
  shows "\<exists>d. module_search p s = Some (first_module ts, s\<lparr>con := d\<rparr>)"
  using assms
proof (induction ts arbitrary: p)
  case Nil
  then show ?case by (subst module_search.simps) (simp add: exI [of _ "con s"])
next
  case (Cons t ts)
  have ih: "\<exists>d. module_search (p + ucast (align8 (tag_size (mem s) p))) s = Some (first_module ts, s\<lparr>con := d\<rparr>)"
    using Cons.prems by (intro Cons.IH) simp
  show ?case
  proof (cases t)
    case (Module a b)
    then show ?thesis using Cons.prems by (subst module_search.simps) (auto simp: kprintf_def Let_def)
  qed (use Cons.prems ih in \<open>subst module_search.simps; simp\<close>)+
qed

lemma module_search_info:
  assumes "boot_info (mem s) info ts"
  shows "\<exists>d. module_search (info + 8) s = Some (first_module ts, s\<lparr>con := d\<rparr>)"
proof -
  have "\<exists>stop. tags_at (mem s) (info + 8) stop ts"
    using assms by (auto simp: boot_info_def split: if_splits)
  then show ?thesis using module_search_spec by blast
qed

text \<open>A tag of size zero that is not the end tag stops both scans from ever ending.\<close>

lemma mmap_tags_stuck:
  assumes "mmap_tags p stop best s = Some r"
  shows "tag_size (mem s) p = 0 \<longrightarrow> tag_type (mem s) p \<notin> {0, 6} \<longrightarrow> \<not> p < stop"
  using assms
proof (rule mmap_tags.raw_induct [where P = "\<lambda>p stop best s r.
    tag_size (mem s) p = 0 \<longrightarrow> tag_type (mem s) p \<notin> {0, 6} \<longrightarrow> \<not> p < stop", rotated])
  fix f :: "u64 \<Rightarrow> u64 \<Rightarrow> u64 \<times> u64 \<Rightarrow> 'a vmm_state_scheme \<Rightarrow> ((u64 \<times> u64) \<times> 'a vmm_state_scheme) option"
    and p stop best s r
  assume IH: "\<And>p stop best s r. f p stop best s = Some r \<Longrightarrow>
      tag_size (mem s) p = 0 \<longrightarrow> tag_type (mem s) p \<notin> {0, 6} \<longrightarrow> \<not> p < stop"
    and eq: "(if p < stop then if tag_type (mem s) p = 0 then Some (best, s)
        else Option.bind (if tag_type (mem s) p = 6
             then mmap_entries p (p + 16) (p + ucast (tag_size (mem s) p)) best s else Some (best, s))
            (\<lambda>(best1, s1). f (p + ucast (align8 (tag_size (mem s1) p))) stop best1 s1)
      else Some (best, s)) = Some r"
  show "tag_size (mem s) p = 0 \<longrightarrow> tag_type (mem s) p \<notin> {0, 6} \<longrightarrow> \<not> p < stop"
  proof (intro impI notI)
    assume a: "tag_size (mem s) p = 0" "tag_type (mem s) p \<notin> {0, 6}" "p < stop"
    then have "f p stop best s = Some r" using eq by (simp add: align8_def)
    from IH [OF this] a show False by blast
  qed
qed

end
