(* ===== verification/Boot_Flow.thy ===== *)
theory Boot_Flow
  imports Boot_Spec Cpio Memory_Props
begin

text \<open>
  What the stages of \<^verbatim>\<open>kernel_main\<close> leave for the next one: the tables of the processes and of the
  heap are still empty after the memory managers are up, and memory outside the pages these may
  write is as the boot loader left it.
\<close>

section \<open>Early initialization\<close>

lemma boot_banner_con: "\<exists>d. boot_banner magic s = s\<lparr>con := d\<rparr>"
  by (auto simp: boot_banner_def Let_def kprintf_def)

lemma arch_init_frame [simp]:
  "bitmap (arch_init s) = bitmap s" "mem (arch_init s) = mem s" "pt_pool (arch_init s) = pt_pool s"
  "pt_pool_used (arch_init s) = pt_pool_used s" "cr3 (arch_init s) = cr3 s"
  "heap_ptr (arch_init s) = heap_ptr s" "heap_head (arch_init s) = heap_head s" "blocks (arch_init s) = blocks s"
  "arch_state.more (arch_init s) = arch_state.more s"
  by (simp_all add: arch_init_def gdt_init_def idt_init_def pic_init_def pit_init_def port_out_def io_wait_def
      Let_def kprintf_def)

lemma more_kern:
  fixes s t :: "'a kern_state_scheme"
  assumes "arch_state.more s = arch_state.more t"
  shows "proc_table s = proc_table t" "current_proc s = current_proc t" "next_pid s = next_pid t"
    "msg_pool s = msg_pool t" "msg_used s = msg_used t" "initrd_files s = initrd_files t"
    "initrd_file_count s = initrd_file_count t"
  using assms by (cases s; cases t; simp)+

lemma vmm_more_arch:
  assumes "vmm_state.more s = vmm_state.more t"
  shows "arch_state.more s = arch_state.more t"
  using assms by (cases s; cases t) simp

lemma fresh_cong:
  fixes s t :: "'a kern_state_scheme"
  assumes "arch_state.more t = arch_state.more s" "heap_ptr t = heap_ptr s" "heap_head t = heap_head s"
    "blocks t = blocks s" "fresh s"
  shows "fresh t"
  using assms(2-) more_kern [OF assms(1)] by (simp add: fresh_def)

section \<open>Memory managers\<close>

lemma PAGE_ALIGN_region:
  assumes "unat b + unat z + 4096 \<le> 2 ^ 30"
  shows "unat (PAGE_ALIGN b) + min (unat z div 4096) 131072 * 4096 \<le> 2 ^ 30"
proof -
  have "unat (PAGE_ALIGN b) = (unat b + 4095) div 4096 * 4096"
    using unat_ALIGN_UP [of 4096 12 b] assms by (simp add: PAGE_ALIGN_def)
  moreover have "min (unat z div 4096) 131072 * 4096 \<le> unat z div 4096 * 4096" by (rule mult_right_mono) simp_all
  moreover have "unat z div 4096 * 4096 \<le> unat z" "(unat b + 4095) div 4096 * 4096 \<le> unat b + 4095"
    by (rule div_times_less_eq_dividend)+
  ultimately show ?thesis using assms by linarith
qed

text \<open>What \<^verbatim>\<open>pmm_init\<close> makes spare rests on the table pool only, and the invariant of virtual memory on
  memory as well.\<close>

lemma pmm_init_spare_cong:
  fixes s t :: "'a vmm_state_scheme"
  assumes "length (bitmap s) = BITMAP_SIZE" "length (bitmap t) = BITMAP_SIZE" "pt_pool s = pt_pool t" "pt_pool_used s = pt_pool_used t"
  shows "pmm_avail (pmm_init b z s) = pmm_avail (pmm_init b z t)" "spare (pmm_init b z s) = spare (pmm_init b z t)"
    "pool_ok (pmm_init b z s) = pool_ok (pmm_init b z t)"
proof -
  note fs = pmm_init_fields [OF assms(1), of b z] and ft = pmm_init_fields [OF assms(2), of b z]
  note ms = vmm_more_fields [OF pmm_init_more [of b z s]] and mt = vmm_more_fields [OF pmm_init_more [of b z t]]
  have tot: "pmm_total_pages (pmm_init b z s) = pmm_total_pages (pmm_init b z t)"
    using fs(3) ft(3) by (metis word_unat_eq_iff)
  show av: "pmm_avail (pmm_init b z s) = pmm_avail (pmm_init b z t)"
    unfolding pmm_avail_def fs(6) ft(6) tot page_addr_def fs(2) ft(2) ..
  show "spare (pmm_init b z s) = spare (pmm_init b z t)"
    unfolding spare_def spare_pool_def av ms mt assms(3,4) ..
  show "pool_ok (pmm_init b z s) = pool_ok (pmm_init b z t)"
    unfolding pool_ok_def ms mt fs(2) ft(2) tot assms(3,4) ..
qed

lemma pmm_init_vm_cong:
  fixes s t :: "'a vmm_state_scheme"
  assumes "length (bitmap s) = BITMAP_SIZE" "length (bitmap t) = BITMAP_SIZE" "b \<noteq> 0"
    "unat b + 4096 + unat z \<le> 2 ^ 64" "mem s = mem t" "pt_pool s = pt_pool t" "pt_pool_used s = pt_pool_used t"
  shows "spare (pmm_init b z s) = spare (pmm_init b z t)"
    "vm_inv (pmm_init b z s) r = vm_inv (pmm_init b z t) r"
proof -
  note c = pmm_init_spare_cong [OF assms(1,2,6,7), of b z]
  note ms = vmm_more_fields [OF pmm_init_more [of b z s]] and mt = vmm_more_fields [OF pmm_init_more [of b z t]]
  show "spare (pmm_init b z s) = spare (pmm_init b z t)" by (rule c)
  have "pmm_inv (pmm_init b z s)" "pmm_inv (pmm_init b z t)"
    using pmm_init_inv [OF assms(1,3,4)] pmm_init_inv [OF assms(2,3,4)] .
  then show "vm_inv (pmm_init b z s) r = vm_inv (pmm_init b z t) r"
    unfolding vm_inv_def c ms(1) mt(1) assms(5) by simp
qed

lemma memory_init_ready:
  fixes s :: "'a kern_state_scheme"
  assumes fr: "fresh s" and bi: "boot_info (mem s) info ts"
    and reg: "skip_kernel (largest (concat (map tag_regions ts)) (0x100000, 0x2000000)) = (b, z)"
    and bm: "length (bitmap s) = BITMAP_SIZE" and b0: "b \<noteq> 0"
    and top: "unat b + unat z + 4096 \<le> 2 ^ 30" and pages: "1538 * 4096 \<le> unat z"
    and vm: "vm_inv (pmm_init b z s) (cr3 s)"
  shows "\<exists>s'. memory_init info s = Some (Inr s') \<and> fresh s' \<and> initrd_files s' = initrd_files s \<and>
    (\<forall>x. x AND NOT (mask 12) \<notin> spare (pmm_init b z s) \<union> tables (mem s) (cr3 s) \<longrightarrow> mem s' x = mem s x)"
proof -
  obtain d where pm: "parse_mmap info s = Some (largest (concat (map tag_regions ts)) (0x100000, 0x2000000), s\<lparr>con := d\<rparr>)"
    using parse_mmap_spec [OF bi] by blast
  define s1 where "s1 = pmm_init b z (s\<lparr>con := d\<rparr>)"
  note m1 = vmm_more_fields [OF pmm_init_more [of b z "s\<lparr>con := d\<rparr>"], folded s1_def]
  have bm': "length (bitmap (s\<lparr>con := d\<rparr>)) = BITMAP_SIZE" using bm by simp
  have b64: "unat b + 4096 + unat z \<le> 2 ^ 64" using top by simp
  note f1 = pmm_init_fields [OF bm', of b z, folded s1_def]
  have sp: "spare s1 = spare (pmm_init b z s)" and v1: "vm_inv s1 (cr3 s1)"
    using pmm_init_vm_cong [OF bm' bm b0 b64] vm m1 by (simp_all add: s1_def)
  have n: "unat (pmm_total_pages s1) = min (unat z div 4096) 131072" by (rule f1(3))
  have "unat (pmm_base s1) + unat (pmm_total_pages s1) * 4096 \<le> 2 ^ 30"
    unfolding f1(2) n using PAGE_ALIGN_region [OF top] .
  moreover have "1538 \<le> card (pmm_avail s1)"
  proof -
    have "pmm_inv s1" using v1 by (simp add: vm_inv_def)
    from card_machine_avail [OF this f1(6) refl] n pages show ?thesis by (simp add: min_def) linarith
  qed
  ultimately obtain s2 where v: "vmm_init s1 = Some (Inr s2)" "same_config (s1\<lparr>kernel_pml4 := cr3 s1\<rparr>) s2"
    "grows (cr3 s1) s1 s2" using vmm_init_total [OF v1] by blast
  have "vmm_state.more s2 = vmm_state.more s1" using v(2) by (simp add: same_config_def)
  moreover have "vmm_state.more s1 = vmm_state.more s"
    using vmm_more_more [OF pmm_init_more [of b z "s\<lparr>con := d\<rparr>"]] by (simp add: s1_def)
  ultimately have mo: "arch_state.more s2 = arch_state.more s" using vmm_more_arch by metis
  have fr2: "fresh s2" by (rule fresh_cong [OF mo _ _ _ fr]) (use v(2) m1 in \<open>simp_all add: same_config_def\<close>)
  let ?s' = "proc_init (syscall_init s2)"
  have sy: "\<exists>e. syscall_init s2 = s2\<lparr>con := e\<rparr>" by (auto simp: syscall_init_def kprintf_def)
  then have fr3: "fresh (syscall_init s2)" using fr2 by auto
  obtain e where e: "?s' = (syscall_init s2)\<lparr>con := e\<rparr>" using proc_init_fresh [OF fr3] by blast
  have "memory_init info s = Some (Inr ?s')"
    unfolding memory_init_def pm by (simp add: run_then_def returns_def reg v(1) flip: s1_def)
  moreover have "initrd_files ?s' = initrd_files s" using e more_kern(6) [OF mo] sy by auto
  moreover have "mem ?s' x = mem s x" if "x AND NOT (mask 12) \<notin> spare (pmm_init b z s) \<union> tables (mem s) (cr3 s)" for x
    using grows_byte [OF v(3), of x] that e sy m1 sp by auto
  moreover have "fresh ?s'" using fr3 e by simp
  ultimately show ?thesis by blast
qed

section \<open>Ramdisk\<close>

text \<open>The module is absent, or an archive of at most 128 files at a four-byte boundary.\<close>

definition ramdisk :: "memory \<Rightarrow> u64 \<times> u64 \<Rightarrow> entry list \<Rightarrow> bool" where
  "ramdisk m md es \<longleftrightarrow> (case md of (a, b) \<Rightarrow>
     if a = 0 then b = 0 \<and> es = []
     else 4 dvd unat a \<and> unat a + length (cpio_archive es) \<le> 2 ^ 63 \<and> b = a + of_nat (length (cpio_archive es)) \<and>
       (\<forall>e\<in>set es. valid_entry e) \<and> length es \<le> 128 \<and>
       read_bytes m a (length (cpio_archive es)) = cpio_archive es)"

lemma ramdisk_valid:
  assumes "ramdisk m md es"
  shows "\<forall>e\<in>set es. valid_entry e" "length es \<le> 128"
  using assms by (auto simp: ramdisk_def split: prod.splits if_splits)

lemma ramdisk_holds:
  assumes "ramdisk m md es" "i < length es"
  shows "file_is m (placed (fst md) es ! i) (es ! i)"
proof -
  obtain a b where md: "md = (a, b)" by (cases md)
  with assms have "a \<noteq> 0" by (auto simp: ramdisk_def split: if_splits)
  with assms md show ?thesis by (auto simp: ramdisk_def intro: placed_holds)
qed

lemma initrd_init_ramdisk:
  assumes "ramdisk (mem s) (a, b) es" "length (initrd_files s) = 128"
  shows "\<exists>d fs n. initrd_init a b s = Some (s\<lparr>initrd_files := fs, initrd_file_count := n, con := d\<rparr>) \<and>
    unat n = length es \<and> length fs = 128 \<and> (\<forall>i<length es. fs ! i = placed a es ! i)"
proof (cases "a = 0")
  case True
  then have ab: "a = 0" "b = 0" "es = []" using assms(1) by (auto simp: ramdisk_def split: if_splits)
  obtain d where d: "initrd_dump 0 (s\<lparr>initrd_file_count := 0\<rparr>) = s\<lparr>initrd_file_count := 0\<rparr>\<lparr>con := d\<rparr>"
    using initrd_dump_con by blast
  have sc: "initrd_scan 0 0 t = Some t" for t :: "'a kern_state_scheme" by (subst initrd_scan.simps) simp
  obtain d' where "initrd_init a b s = Some (s\<lparr>initrd_files := initrd_files s, initrd_file_count := 0, con := d'\<rparr>)"
    unfolding initrd_init_def ab d sc by (auto simp: kprintf_def)
  then show ?thesis using assms(2) ab by fastforce
next
  case False
  then show ?thesis using assms initrd_init_placed [of a es s] by (simp add: ramdisk_def)
qed

lemma ramdisk_init_ready:
  assumes bi: "boot_info (mem s) info ts" and rd: "ramdisk (mem s) (first_module ts) es"
    and len: "length (initrd_files s) = 128"
  shows "\<exists>d fs n. ramdisk_init env info s = Some (Inr (s\<lparr>initrd_files := fs, initrd_file_count := n, con := d\<rparr>)) \<and>
    unat n = length es \<and> (\<forall>i<length es. fs ! i = placed (fst (first_module ts)) es ! i)"
proof -
  obtain a b where ab: "first_module ts = (a, b)" by (cases "first_module ts")
  obtain d0 where d0: "kprintf ''[INITRD] start=%p end=%p size=%u
'' [Num (b_initrd_start env), Num (b_initrd_end env),
         Num (ucast (ucast (b_initrd_end env - b_initrd_start env) :: u32))] s = s\<lparr>con := d0\<rparr>"
    using kprintf_con by blast
  obtain d1 where d1: "module_search (info + 8) (s\<lparr>con := d0\<rparr>) = Some ((a, b), s\<lparr>con := d1\<rparr>)"
    using module_search_info [of "s\<lparr>con := d0\<rparr>" info ts] bi ab by auto
  obtain d2 where d2: "(if a = 0 then kprintf ''[INITRD] no module found
'' [] (s\<lparr>con := d1\<rparr>) else s\<lparr>con := d1\<rparr>) = s\<lparr>con := d2\<rparr>"
    by (cases "a = 0") (auto simp: kprintf_def)
  obtain d3 fs n where d3: "initrd_init a b (s\<lparr>con := d2\<rparr>) = Some (s\<lparr>con := d2\<rparr>\<lparr>initrd_files := fs, initrd_file_count := n, con := d3\<rparr>)"
    and n: "unat n = length es" "length fs = 128" "\<forall>i<length es. fs ! i = placed a es ! i"
    using initrd_init_ramdisk [of "s\<lparr>con := d2\<rparr>" a b es] rd len ab by auto
  let ?t = "s\<lparr>con := d2\<rparr>\<lparr>initrd_files := fs, initrd_file_count := n, con := d3\<rparr>"
  have "file_is (mem ?t) (initrd_files ?t ! i) (es ! i)" if "i < length es" for i
    using ramdisk_holds [OF rd that] n(3) that ab by simp
  then obtain d4 where d4: "initrd_list ?t = Some (?t\<lparr>con := d4\<rparr>)"
    using initrd_list_returns [of ?t es] n ramdisk_valid [OF rd] by auto
  have "?t\<lparr>con := d4\<rparr> = s\<lparr>initrd_files := fs, initrd_file_count := n, con := d4\<rparr>" by (cases s) simp
  then show ?thesis
    unfolding ramdisk_init_def d0 using d1 d2 d3 d4 n ab by (auto simp: run_then_def returns_def Let_def)
qed

end
