(* ===== verification/Boot_Props.thy ===== *)
theory Boot_Props
  imports Boot_Flow
begin

text \<open>
  The properties of the kernel's start (\<^verbatim>\<open>kernel/main.c\<close>), each with a concrete instance.
\<close>

section \<open>First process\<close>

lemma proc_create_fresh:
  fixes s :: "'a kern_state_scheme"
  assumes "fresh s"
  shows "\<exists>s'. proc_create nm entry s = Some (Some 0, s') \<and> kernel_inv s' \<and> current_proc s' = None \<and>
    state (proc_at 0 s') = PROC_READY \<and> pid (proc_at 0 s') = 1 \<and> (\<forall>i. 0 < i \<longrightarrow> i < 64 \<longrightarrow> proc_at i s' = zero_process) \<and>
    mem s' = store64 (mem s) 0x404010 entry \<and> initrd_files s' = initrd_files s \<and> initrd_file_count s' = initrd_file_count s"
proof -
  have len: "length (proc_table s) = 64" using assms by (simp add: fresh_def)
  have al: "alloc_proc s = Some 0" unfolding alloc_proc_def find_Some_iff
    by (rule exI [of _ 0]) (simp add: fresh_proc [OF assms])
  have f0: "kmalloc_find Map.empty z 0 = Some 0" for z by (subst kmalloc_find.simps) simp
  have km: "kmalloc KSTACK_SIZE s = Some (0x400018, s\<lparr>heap_ptr := 0x404018,
      blocks := [KHEAP_START \<mapsto> \<lparr>hb_size = 0x4000, hb_free = False, hb_next = 0\<rparr>], heap_head := KHEAP_START\<rparr>)"
    using assms by (simp add: kmalloc_def fresh_def f0 ALIGN_UP_def Let_def)
  define s' where "s' = snd (the (proc_create nm entry s))"
  have c: "proc_create nm entry s = Some (Some 0, s')" by (simp add: s'_def proc_create_def al km Let_def)
  have k: "kernel_inv s'" using ipc_inv_create [OF fresh_kernel_inv [OF assms] c] by blast
  have "current_proc s' = None \<and> state (proc_at 0 s') = PROC_READY \<and> pid (proc_at 0 s') = 1 \<and>
     (\<forall>i. 0 < i \<longrightarrow> i < 64 \<longrightarrow> proc_at i s' = zero_process) \<and> mem s' = store64 (mem s) 0x404010 entry \<and>
     initrd_files s' = initrd_files s \<and> initrd_file_count s' = initrd_file_count s"
    using assms fresh_proc [OF assms] len
    by (simp add: s'_def proc_create_def al km Let_def kprintf_def set_proc_def proc_at_def init_process_def fresh_def)
  with c k show ?thesis by blast
qed

lemma kernel_inv_cong:
  fixes s t :: "'a ipc_state_scheme"
  assumes "proc_table t = proc_table s" "current_proc t = current_proc s" "next_pid t = next_pid s"
    "msg_pool t = msg_pool s" "msg_used t = msg_used s" "heap_ptr t = heap_ptr s" "heap_head t = heap_head s"
    "blocks t = blocks s" "kernel_inv s"
  shows "kernel_inv t"
proof -
  have "ipc_inv t" using assms by (intro ipc_inv_cong [of t s]) (simp_all add: proc_at_def used_def kernel_inv_def)
  then show ?thesis using assms proc_inv_cong [OF assms(1-3)] by (simp add: kernel_inv_def heap_with_def heap_list_def)
qed

lemma start_scheduler_inv:
  fixes s :: "'a kern_state_scheme"
  assumes k: "kernel_inv s" and c: "current_proc s = None" and r: "state (proc_at i s) = PROC_READY" and i: "i < 64"
  shows "kernel_inv (start_scheduler i s) \<and> current_proc (start_scheduler i s) = Some i \<and>
    state (proc_at i (start_scheduler i s)) = PROC_RUNNING \<and> iflag (start_scheduler i s) \<and>
    pid (proc_at i (start_scheduler i s)) = pid (proc_at i s) \<and> mem (start_scheduler i s) = mem s \<and>
    initrd_files (start_scheduler i s) = initrd_files s \<and> initrd_file_count (start_scheduler i s) = initrd_file_count s"
proof -
  have ri: "run_inv s" using k by (simp add: kernel_inv_def)
  then have len: "length (proc_table s) = 64" by (rule run_inv_length)
  define t where "t = set_proc i (\<lambda>p. p\<lparr>state := PROC_RUNNING\<rparr>) (s\<lparr>current_proc := Some i\<rparr>)"
  have at: "proc_at j t = (if j = i then (proc_at i s)\<lparr>state := PROC_RUNNING\<rparr> else proc_at j s)" for j
    using i len by (simp add: t_def set_proc_def proc_at_def)
  have ui: "used i s" "used i t" using r at by (simp_all add: used_def)
  have us: "used j t = used j s" for j using ui at by (cases "j = i") (simp_all add: used_def)
  have "run_inv t"
  proof (rule run_invI)
    show "length (proc_table t) = 64" using len by (simp add: t_def)
    fix j :: nat assume j: "j < 64"
    show "current_proc t = Some j" if "state (proc_at j t) = PROC_RUNNING"
    proof (cases "j = i")
      case False
      then show ?thesis using that at [of j] run_invD(2) [OF ri j] c by simp
    qed (simp add: t_def)
    show "sleep_ticks (proc_at j t) \<noteq> 0" if "state (proc_at j t) = PROC_SLEEPING"
      using that at [of j] run_invD(3) [OF ri j] by (cases "j = i") simp_all
  qed (use ui i in \<open>auto simp: t_def\<close>)
  moreover have "next_pid t = next_pid s" by (simp add: t_def set_proc_def)
  then have "same_ids s t" by (simp add: same_ids_def us at)
  then have "pid_inv t" using pid_inv_cong k by (auto simp: kernel_inv_def)
  moreover have "ipc_inv t"
    by (rule ipc_inv_cong [of t s]) (use k in \<open>simp_all add: at us kernel_inv_def, simp_all add: t_def\<close>)
  moreover have "heap_inv t" using k by (simp add: t_def kernel_inv_def)
  ultimately have kt: "kernel_inv t" by (simp add: kernel_inv_def)
  obtain d where d: "start_scheduler i s = t\<lparr>iflag := True\<rparr>\<lparr>con := d\<rparr>"
    by (auto simp: start_scheduler_def t_def Let_def kprintf_def sti_def set_proc_def)
  note k1 = kernel_inv_cong [of "t\<lparr>iflag := True\<rparr>\<lparr>con := d\<rparr>" t, OF _ _ _ _ _ _ _ _ kt]
  have "mem t = mem s" "initrd_files t = initrd_files s" "initrd_file_count t = initrd_file_count s" "current_proc t = Some i"
    by (simp_all add: t_def set_proc_def)
  with k1 at [of i] show ?thesis unfolding d by (simp add: proc_at_def)
qed

lemma initial_kernel_fresh: "fresh (initial_kernel L m)"
  by (simp add: fresh_def initial_kernel_def initial_state_def ipc_state.defs kern_state.defs)

lemma initial_kernel_static:
  "bitmap (initial_kernel L m) = replicate BITMAP_SIZE 0" "cr3 (initial_kernel L m) = l_pml4 L"
  "pt_pool (initial_kernel L m) = l_pt_pool L" "pt_pool_used (initial_kernel L m) = 0"
  by (simp_all add: initial_kernel_def initial_state_def ipc_state.defs kern_state.defs)

section \<open>The memory map\<close>

text \<open>C29. \<^verbatim>\<open>parse_mmap\<close> on well-formed multiboot information returns, and chooses the largest available region:
  one of the listed regions of type 1 that is at least as long as every other one, or the default
  of 32 MB from 1 MB on when none is longer than that.\<close>

theorem parse_mmap_largest:
  assumes "boot_info (mem s) info ts"
  shows "\<exists>b l d. parse_mmap info s = Some ((b, l), s\<lparr>con := d\<rparr>) \<and>
    ((b, l) = (0x100000, 0x2000000) \<or> (b, l, 1) \<in> set (concat (map tag_regions ts))) \<and>
    0x2000000 \<le> l \<and> (\<forall>b' l'. (b', l', 1) \<in> set (concat (map tag_regions ts)) \<longrightarrow> l' \<le> l)"
proof -
  let ?rs = "concat (map tag_regions ts)"
  obtain b l where bl: "largest ?rs (0x100000, 0x2000000) = (b, l)" by fastforce
  obtain d where "parse_mmap info s = Some ((b, l), s\<lparr>con := d\<rparr>)"
    using parse_mmap_spec [OF assms] bl by auto
  then show ?thesis using largest_spec [of "(0x100000, 0x2000000)" ?rs] unfolding bl by fastforce
qed

text \<open>A memory map with one tag of two regions: one megabyte at 0 and 64 megabytes from 1 MB on.\<close>

definition sample_map :: "u8 list" where
  "sample_map = le_bytes 4 (80 :: u32) @ le_bytes 4 (0 :: u32) @
     le_bytes 4 (6 :: u32) @ le_bytes 4 (64 :: u32) @ le_bytes 4 (24 :: u32) @ le_bytes 4 (0 :: u32) @
     le_bytes 8 (0 :: u64) @ le_bytes 8 (0x100000 :: u64) @ le_bytes 4 (1 :: u32) @ le_bytes 4 (0 :: u32) @
     le_bytes 8 (0x100000 :: u64) @ le_bytes 8 (0x4000000 :: u64) @ le_bytes 4 (1 :: u32) @ le_bytes 4 (0 :: u32)"

definition sample_info :: memory where
  "sample_info = write_bytes (\<lambda>_. 0) 0x9000 sample_map"

lemma sample_boot_info: "boot_info sample_info 0x9000 [Mmap [(0, 0x100000, 1), (0x100000, 0x4000000, 1)]]"
  by code_simp

theorem parse_mmap_largest_witness:
  "\<exists>b l d. parse_mmap 0x9000 (initial_kernel small_layout sample_info)
      = Some ((b, l), (initial_kernel small_layout sample_info)\<lparr>con := d\<rparr>) \<and> 0x4000000 \<le> l"
proof -
  let ?s = "initial_kernel small_layout sample_info"
  obtain b l d where "parse_mmap 0x9000 ?s = Some ((b, l), ?s\<lparr>con := d\<rparr>)"
    "\<forall>b' l'. (b', l', 1) \<in> set (concat (map tag_regions [Mmap [(0, 0x100000, 1), (0x100000, 0x4000000, 1)]])) \<longrightarrow> l' \<le> l"
    using parse_mmap_largest [of ?s "0x9000", unfolded initial_kernel_fields, OF sample_boot_info] by blast
  then show ?thesis by auto
qed

text \<open>A tag of size 0 that is neither the end tag nor the memory map makes \<^verbatim>\<open>parse_mmap\<close> loop for ever.\<close>

lemma parse_mmap_zero_tag:
  assumes "info \<noteq> 0" "8 \<le> load32 (mem s) info" "info + 8 < info + ucast (load32 (mem s) info)"
    "tag_type (mem s) (info + 8) \<notin> {0, 6}" "tag_size (mem s) (info + 8) = 0"
  shows "parse_mmap info s = None"
proof (cases "parse_mmap info s")
  case (Some r)
  then have "mmap_tags (info + 8) (info + ucast (load32 (mem s) info)) (0x100000, 32 * 1024 * 1024) s = Some r"
    using assms(1) leD [OF assms(2)] by (simp add: parse_mmap_def Let_def)
  from mmap_tags_stuck [OF this] assms(3-5) show ?thesis by simp
qed

lemma parse_mmap_zero_tag_witness:
  "parse_mmap 0x9000 (initial_kernel small_layout (write_bytes (\<lambda>_. 0) 0x9000 [32, 0, 0, 0, 0, 0, 0, 0, 1])) = None"
proof -
  let ?m = "write_bytes (\<lambda>_. 0) 0x9000 [32, 0, 0, 0, 0, 0, 0, 0, 1]"
  have "load32 ?m 0x9000 = 32" "tag_type ?m (0x9000 + 8) = 1" "tag_size ?m (0x9000 + 8) = 0" by code_simp+
  then show ?thesis using parse_mmap_zero_tag [of "0x9000" "initial_kernel small_layout ?m"] by simp
qed

section \<open>Booting\<close>

text \<open>The memory that may change between two readings of it, by the pages that may be written.\<close>

definition same_outside :: "u64 set \<Rightarrow> memory \<Rightarrow> memory \<Rightarrow> bool" where
  "same_outside P m m' \<longleftrightarrow> (\<forall>x. x AND NOT (mask 12) \<notin> P \<longrightarrow> m' x = m x)"

definition heap_pages :: "u64 set" where
  "heap_pages = {x. 0x400000 \<le> unat x \<and> unat x < 0x800000}"

text \<open>A few bytes from an address on, within one page.\<close>

lemma near_page:
  fixes x a p :: u64
  assumes "4096 dvd unat p" "unat p \<le> unat a" "unat a + n \<le> unat p + 4096" "unat p + 4096 \<le> 2 ^ 64" "unat (x - a) < n"
  shows "x AND NOT (mask 12) = p"
proof -
  have "unat (a + (x - a)) = unat a + unat (x - a)" using assms(3-5) by (intro unat_add_u64) linarith
  then have x: "unat x = unat a + unat (x - a)" by simp
  obtain q where q: "unat p = 4096 * q" using assms(1) by (rule dvdE)
  then have "unat x div 4096 = q" using x assms(2,3,5) by (intro div_nat_eqI) simp_all
  then have "unat (x AND NOT (mask 12)) = unat p" using q by (simp add: unat_and_not_mask)
  then show ?thesis by (simp add: word_unat_eq_iff)
qed

lemma write_bytes_page:
  assumes "length bs \<le> 2 ^ 63" "4096 dvd unat p" "unat p \<le> unat a" "unat a + length bs \<le> unat p + 4096" "unat p + 4096 \<le> 2 ^ 64"
    and "x AND NOT (mask 12) \<noteq> p"
  shows "write_bytes m a bs x = m x"
  using near_page [OF assms(2-5)] assms(1,6) by (auto simp: write_bytes_apply split: if_splits)

lemma store64_heap:
  assumes "x AND NOT (mask 12) \<notin> heap_pages"
  shows "store64 m 0x404010 v x = m x"
proof (rule store64_apply_other, rule ccontr)
  assume "\<not> 8 \<le> unat (x - 0x404010)"
  then have "unat (x - 0x404010) < 8" by simp
  then have "unat x < 0x404018 \<and> 0x404010 \<le> unat x"
    by (simp add: unat_sub_if' split: if_splits)
  then have "unat x div 4096 = 1028" by (intro div_nat_eqI) simp_all
  then have "unat (x AND NOT (mask 12)) = 0x404000" by (simp add: unat_and_not_mask)
  then show False using assms by (simp add: heap_pages_def)
qed

text \<open>The loader finds no program in the ramdisk: no file \<^verbatim>\<open>bin/sh\<close>, or the first one is not an x86-64 ELF file.\<close>

definition no_program :: "entry list \<Rightarrow> bool" where
  "no_program es \<longleftrightarrow>
     (case find (\<lambda>e. entry_name e = bytes_of ''bin/sh'') es of None \<Rightarrow> True | Some e \<Rightarrow> \<not> elf_file (entry_data e))"

lemma start_shell_refused:
  assumes "\<not> elf_accepted (bytes_of ''bin/sh'') s"
  shows "\<exists>d. start_shell ptable rcx s = Inr (s\<lparr>con := d\<rparr>)"
proof -
  obtain d where "elf_load_from_initrd rcx (bytes_of ''bin/sh'') s = Inr (None, s\<lparr>con := d\<rparr>)" using elf_load_refused [OF assms] by blast
  then show ?thesis by (auto simp: start_shell_def kprintf_def)
qed

lemma find_nth: "find P es = map_option ((!) es) (find (\<lambda>i. P (es ! i)) [0..<length es])"
proof -
  have "find P (map f xs) = map_option f (find (\<lambda>i. P (f i)) xs)" for f :: "nat \<Rightarrow> 'a" and xs by (induction xs) simp_all
  from this [of "(!) es" "[0..<length es]"] show ?thesis by (simp only: map_nth)
qed

lemma shell_refused:
  assumes "no_program es" "unat (initrd_file_count s) = length es" "\<forall>e\<in>set es. valid_entry e"
    and "\<And>i. i < length es \<Longrightarrow> file_is (mem s) (initrd_files s ! i) (es ! i)"
  shows "\<not> elf_accepted (bytes_of ''bin/sh'') s"
proof
  assume a: "elf_accepted (bytes_of ''bin/sh'') s"
  then obtain i where i: "initrd_find (bytes_of ''bin/sh'') s = Some i" by (auto simp: elf_accepted_def split: option.splits)
  have f: "find (\<lambda>i. entry_name (es ! i) = bytes_of ''bin/sh'') [0..<length es] = Some i"
    using find_file [OF assms(2) _ assms(3,4)] i by (simp add: bytes_of_def)
  then have "i < length es" by (auto simp: find_Some_iff)
  then have "elf_file (entry_data (es ! i))" using elf_accepted_file [OF a i] assms(4) by (simp add: file_is_def)
  then show False using assms(1) f by (simp add: no_program_def find_nth [of _ es])
qed

lemma kernel_main_stages:
  assumes "memory_init info (arch_init (boot_banner magic s)) = Some (Inr s1)" "ramdisk_init env info s1 = Some (Inr s2)"
    "proc_create (bytes_of ''idle'') (b_proc_idle env) s2 = Some (Some i, s3)"
    "start_shell (b_proc_table env) (b_rcx env) s3 = Inr s4"
  shows "kernel_main env magic info s = Some (Inr (start_scheduler i s4))"
  using assms by (simp add: kernel_main_def run_then_def returns_def)

text \<open>The kernel boots.  Suppose the multiboot information and the ramdisk lie outside the pages the
  memory managers may write, the chosen region lies below 1 GB and has 1538 pages, and the ramdisk
  has no \<^verbatim>\<open>bin/sh\<close> that is a program: then \<^verbatim>\<open>kernel_main\<close> reaches its idle loop with interrupts on, the kernel's
  invariant holds, process 1 is the running one, and the file table lists the archive's files.\<close>

lemma kernel_main_ready:
  assumes "\<forall>m'. same_outside (spare (pmm_init b z (initial_kernel L m)) \<union> tables m (l_pml4 L) \<union> heap_pages) m m' \<longrightarrow>
      boot_info m' info ts \<and> ramdisk m' (first_module ts) es"
    and "skip_kernel (largest (concat (map tag_regions ts)) (0x100000, 0x2000000)) = (b, z)"
    and "b \<noteq> 0" "unat b + unat z + 4096 \<le> 2 ^ 30" "1538 * 4096 \<le> unat z"
    and "vm_inv (pmm_init b z (initial_kernel L m)) (l_pml4 L)" and "no_program es"
  shows "\<exists>s'. kernel_main env magic info (initial_kernel L m) = Some (Inr s') \<and> kernel_inv s' \<and> iflag s' \<and>
    current_proc s' = Some 0 \<and> state (proc_at 0 s') = PROC_RUNNING \<and> pid (proc_at 0 s') = 1 \<and>
    unat (initrd_file_count s') = length es \<and> (\<forall>i<length es. file_is (mem s') (initrd_files s' ! i) (es ! i))"
proof -
  let ?s = "initial_kernel L m"
  let ?P = "spare (pmm_init b z ?s) \<union> tables m (l_pml4 L) \<union> heap_pages"
  obtain d where d: "boot_banner magic ?s = ?s\<lparr>con := d\<rparr>" using boot_banner_con by blast
  define s0 where "s0 = arch_init (?s\<lparr>con := d\<rparr>)"
  have fr0: "fresh s0" unfolding s0_def by (rule fresh_cong [of _ ?s]) (simp_all add: initial_kernel_fresh)
  have s0: "mem s0 = m" "cr3 s0 = l_pml4 L" "length (bitmap s0) = BITMAP_SIZE" "pt_pool s0 = pt_pool ?s"
    "pt_pool_used s0 = pt_pool_used ?s" "length (initrd_files s0) = 128"
    using more_kern(6) [of s0 "?s\<lparr>con := d\<rparr>"] by (simp_all add: s0_def initial_kernel_static)
  have b64: "unat b + 4096 + unat z \<le> 2 ^ 64" using assms(4) by simp
  have "length (bitmap ?s) = BITMAP_SIZE" "mem s0 = mem ?s" using s0(1) by (simp_all add: initial_kernel_static)
  note cong = pmm_init_vm_cong [OF s0(3) this(1) assms(3) b64 this(2) s0(4,5)]
  have vm0: "vm_inv (pmm_init b z s0) (cr3 s0)" using cong(2) s0(2) assms(6) by simp
  have "same_outside ?P m m" by (simp add: same_outside_def)
  then have bi0: "boot_info (mem s0) info ts" using assms(1) s0(1) by blast
  obtain s1 where s1: "memory_init info s0 = Some (Inr s1)" "fresh s1" "initrd_files s1 = initrd_files s0"
    "\<forall>x. x AND NOT (mask 12) \<notin> spare (pmm_init b z s0) \<union> tables (mem s0) (cr3 s0) \<longrightarrow> mem s1 x = mem s0 x"
    using memory_init_ready [OF fr0 bi0 assms(2) s0(3) assms(3-5) vm0] by blast
  have so1: "same_outside ?P m (mem s1)" using s1(4) s0(1,2) cong(1) by (simp add: same_outside_def)
  then obtain dr fs n where r: "ramdisk_init env info s1 = Some (Inr (s1\<lparr>initrd_files := fs, initrd_file_count := n, con := dr\<rparr>))"
    "unat n = length es" "\<forall>i<length es. fs ! i = placed (fst (first_module ts)) es ! i"
    using ramdisk_init_ready [of s1 info ts es] assms(1) s1(3) s0(6) by metis
  define s2 where "s2 = s1\<lparr>initrd_files := fs, initrd_file_count := n, con := dr\<rparr>"
  have "fresh s2" using s1(2) by (simp add: fresh_def s2_def)
  from proc_create_fresh [OF this, of "bytes_of ''idle''" "b_proc_idle env"] obtain s3 where
    s3: "proc_create (bytes_of ''idle'') (b_proc_idle env) s2 = Some (Some 0, s3)" "kernel_inv s3" "current_proc s3 = None"
    "state (proc_at 0 s3) = PROC_READY" "pid (proc_at 0 s3) = 1" "mem s3 = store64 (mem s2) 0x404010 (b_proc_idle env)"
    "initrd_files s3 = fs" "initrd_file_count s3 = n" by (auto simp: s2_def)
  have "same_outside ?P m (mem s3)" using so1 store64_heap by (simp add: same_outside_def s3(6) s2_def)
  then have rd3: "ramdisk (mem s3) (first_module ts) es" using assms(1) by blast
  have fi: "file_is (mem s3) (initrd_files s3 ! i) (es ! i)" if "i < length es" for i
    using ramdisk_holds [OF rd3 that] r(3) that s3(7) by simp
  have "\<not> elf_accepted (bytes_of ''bin/sh'') s3"
    using r(2) s3(8) ramdisk_valid(1) [OF rd3] by (intro shell_refused [OF assms(7) _ _ fi]) simp_all
  then obtain ds where s4: "start_shell (b_proc_table env) (b_rcx env) s3 = Inr (s3\<lparr>con := ds\<rparr>)"
    using start_shell_refused by blast
  have k4: "kernel_inv (s3\<lparr>con := ds\<rparr>)" by (rule kernel_inv_cong [OF _ _ _ _ _ _ _ _ s3(2)]) simp_all
  have "kernel_main env magic info ?s = Some (Inr (start_scheduler 0 (s3\<lparr>con := ds\<rparr>)))"
    using s1(1) r(1) s3(1) s4 by (intro kernel_main_stages [of info magic ?s s1 env s2]) (simp_all add: d s0_def s2_def)
  then show ?thesis
    using start_scheduler_inv [OF k4, of 0] s3(3-5,8) r(2) fi by (auto simp: proc_at_def)
qed

text \<open>The region the kernel keeps for itself: what \<^verbatim>\<open>kernel_main\<close> hands to \<^verbatim>\<open>pmm_init\<close> starts at 2 MB or above,
  and lies inside the chosen region whenever that reaches above 2 MB.\<close>

lemma skip_kernel_correct:
  assumes "unat base + unat len < 2 ^ 64" "skip_kernel (base, len) = (b, z)"
  shows "0x200000 \<le> unat b \<and>
    (if 0x200000 < unat base + unat len
     then unat base \<le> unat b \<and> unat b + unat z = unat base + unat len
     else base < 0x200000 \<longrightarrow> (b, z) = (0x200000, 0x1000000))"
proof (cases "base < 0x200000")
  case False
  then show ?thesis using assms(2) by (auto simp: skip_kernel_def word_less_nat_alt)
next
  case True
  then have u: "unat (0x200000 - base) = 0x200000 - unat base" by (simp add: unat_sub word_less_nat_alt word_le_nat_alt)
  show ?thesis
  proof (cases "0x200000 - base < len")
    case True
    then have "unat (len - (0x200000 - base)) = unat len - (0x200000 - unat base)"
      using u by (subst unat_sub) (simp_all add: word_less_nat_alt word_le_nat_alt)
    then show ?thesis using assms True \<open>base < 0x200000\<close> u
      by (auto simp: skip_kernel_def Let_def word_less_nat_alt)
  next
    case False
    then show ?thesis using assms \<open>base < 0x200000\<close> u
      by (auto simp: skip_kernel_def Let_def word_less_nat_alt)
  qed
qed

end
