(* ===== verification/Elf_Props.thy ===== *)
theory Elf_Props
  imports Boot_Props
begin

text \<open>
  The properties of the ELF loader (\<^verbatim>\<open>kernel/elf_loader.c\<close>), each with a concrete instance.
\<close>

section \<open>Checks and results\<close>

text \<open>C35. The loader refuses, changing nothing but the console, a path that is not in the ramdisk, a file
  shorter than a header, a wrong magic number and a machine other than x86-64; whenever it reports
  success the file has passed all these checks and the result is the entry field of its header.\<close>

theorem elf_load_checked:
  "(\<not> elf_accepted path s \<longrightarrow> (\<exists>d. elf_load_from_initrd rcx path s = Inr (None, s\<lparr>con := d\<rparr>))) \<and>
   (\<forall>entry s'. elf_load_from_initrd rcx path s = Inr (Some entry, s') \<longrightarrow>
      elf_accepted path s \<and>
      (\<exists>i. initrd_find path s = Some i \<and> entry = e_entry (ehdr_at (mem s') (f_data (initrd_files s ! i)))))"
proof (intro conjI allI impI)
  fix entry s'
  assume r: "elf_load_from_initrd rcx path s = Inr (Some entry, s')"
  then show a: "elf_accepted path s" using elf_load_refused [of path s rcx] by fastforce
  obtain i d where "initrd_find path s = Some i" and e: "elf_load_from_initrd rcx path s =
       (let base = f_data (initrd_files s ! i) in
        try_then (elf_segments rcx base (base + e_phoff (ehdr_at (mem s) base)) 0 (s\<lparr>con := d\<rparr>)) (\<lambda>(ok, s2).
          if \<not> ok then Inr (None, s2)
          else let entry = e_entry (ehdr_at (mem s2) base)
               in Inr (Some entry, kprintf ''[ELF] loaded %s entry=%p
'' [Str (Some path), Num entry] s2)))" by (rule elf_load_accepted [OF a])
  moreover from r e have "entry = e_entry (ehdr_at (mem s') (f_data (initrd_files s ! i)))"
    by (cases "elf_segments rcx (f_data (initrd_files s ! i))
          (f_data (initrd_files s ! i) + e_phoff (ehdr_at (mem s) (f_data (initrd_files s ! i)))) 0 (s\<lparr>con := d\<rparr>)")
      (auto simp: Let_def kprintf_def split: if_splits)
  ultimately show "\<exists>i. initrd_find path s = Some i \<and> entry = e_entry (ehdr_at (mem s') (f_data (initrd_files s ! i)))"
    by blast
qed (rule elf_load_refused)

theorem elf_load_checked_witness:
  "\<exists>d. elf_load_from_initrd 0 (bytes_of ''bin/sh'') (initial_kernel small_layout (\<lambda>_. 0))
    = Inr (None, (initial_kernel small_layout (\<lambda>_. 0))\<lparr>con := d\<rparr>)"
proof -
  have "\<not> elf_accepted (bytes_of ''bin/sh'') (initial_kernel small_layout (\<lambda>_. 0))"
    by (simp add: elf_accepted_def initrd_find_def)
  with elf_load_checked [of "bytes_of ''bin/sh''" "initial_kernel small_layout (\<lambda>_. 0)" 0] show ?thesis by blast
qed

section \<open>Segments at unmapped addresses\<close>

lemma segment_pages:
  fixes v sz :: u64
  assumes "0 < sz" "unat v + unat sz + 4095 < 2 ^ 64"
  shows "0 < unat (drop_bit 12 (((v + sz + 0xFFF) AND NOT 0xFFF) - (v AND NOT 0xFFF)))"
proof -
  have m: "(0xFFF :: u64) = mask 12" by (simp add: mask_eq_exp_minus_1)
  have "unat (v + sz + 0xFFF) = unat v + unat sz + 4095"
    using assms(2) by (simp add: unat_word_ariths)
  then have e: "unat ((v + sz + 0xFFF) AND NOT (mask 12)) = (unat v + unat sz + 4095) div 4096 * 4096"
    by (simp add: unat_and_not_mask)
  have st: "unat (v AND NOT (mask 12)) = unat v div 4096 * 4096" by (simp add: unat_and_not_mask)
  have "1 \<le> unat sz" using assms(1) by (simp add: word_less_nat_alt)
  then have "unat v div 4096 + 1 \<le> (unat v + unat sz + 4095) div 4096"
    using div_le_mono [of "unat v + 4096" "unat v + unat sz + 4095" 4096] by simp
  then have le: "unat v div 4096 * 4096 + 4096 \<le> (unat v + unat sz + 4095) div 4096 * 4096"
    using mult_le_mono1 [of "unat v div 4096 + 1" _ 4096] by simp
  then have "unat (((v + sz + 0xFFF) AND NOT (mask 12)) - (v AND NOT (mask 12)))
      = (unat v + unat sz + 4095) div 4096 * 4096 - unat v div 4096 * 4096"
    using e st by (subst unat_sub) (simp_all add: word_le_nat_alt)
  then show ?thesis unfolding m unat_drop_bit_eq using le by (simp add: drop_bit_eq_div div_greater_zero_iff)
qed


text \<open>A ramdisk with a program whose one segment is to lie at 4 MB, on the small machine.\<close>

definition sample_elf :: "u8 list" where
  "sample_elf = [0x7F, 69, 76, 70, 2, 1, 1, 0] @ replicate 8 0 @ le_bytes 2 (2 :: u16) @ le_bytes 2 (62 :: u16) @
     le_bytes 4 (1 :: u32) @ le_bytes 8 (0x400000 :: u64) @ le_bytes 8 (64 :: u64) @ le_bytes 8 (0 :: u64) @
     le_bytes 4 (0 :: u32) @ le_bytes 2 (64 :: u16) @ le_bytes 2 (56 :: u16) @ le_bytes 2 (1 :: u16) @ replicate 6 0 @
     le_bytes 4 (1 :: u32) @ le_bytes 4 (5 :: u32) @ le_bytes 8 (0 :: u64) @ le_bytes 8 (0x400000 :: u64) @
     le_bytes 8 (0x400000 :: u64) @ le_bytes 8 (120 :: u64) @ le_bytes 8 (200 :: u64) @ le_bytes 8 (0x1000 :: u64)"

definition sample_disk :: memory where
  "sample_disk = write_bytes (write_bytes (\<lambda>_. 0) 0x50000 (bytes_of ''bin/sh'')) 0x50010 sample_elf"

definition shell_kernel :: kern_state where
  "shell_kernel = (pmm_init 0x200000 0x10000 (initial_kernel small_layout sample_disk))\<lparr>
     initrd_files := [\<lparr>f_name = 0x50000, f_size = 120, f_data = 0x50010\<rparr>], initrd_file_count := 1\<rparr>"

lemma sample_disk_magic: "load32 sample_disk 0x50010 = ELF_MAGIC"
  by code_simp

lemma sample_disk_name: "strcmp_simple sample_disk 0x50000 (bytes_of ''bin/sh'') = 0"
  by code_simp

lemma sample_disk_machine: "load16 sample_disk (0x50010 + 18) = EM_X86_64"
  by code_simp

lemma sample_disk_phnum: "load16 sample_disk (0x50010 + 56) = 1"
  by code_simp

lemma sample_disk_phoff: "load64 sample_disk (0x50010 + 32) = 64"
  by code_simp

lemma sample_disk_phdr:
  "phdr_at sample_disk 0x50050 = \<lparr>p_type = 1, p_flags = 5, p_offset = 0, p_vaddr = 0x400000, p_paddr = 0x400000,
     p_filesz = 120, p_memsz = 200, p_align = 0x1000\<rparr>"
  by code_simp

lemma sample_disk_root: "load64 sample_disk 0x10000 = 0"
  by code_simp

lemma sample_disk_pte: "\<not> present (pte sample_disk 0x10000 0x400000)"
proof -
  have "ix 0 0x400000 = 0" by (simp add: ix_def PML4_IDX_def)
  then have "tbl sample_disk 0x10000 (Suc 0) 0x400000 = None" by (simp add: cell_def sample_disk_root present_def)
  then show ?thesis by (simp add: pte_def numeral_3_eq_3 present_def del: One_nat_def)
qed


end
