(* ===== verification/User_Process.thy ===== *)
theory User_Process
  imports Boot_Props
begin

text \<open>
  The properties of the creation of user processes (\<^verbatim>\<open>proc_create_elf\<close> in \<^verbatim>\<open>kernel/proc/proc.c\<close>), each
  with a concrete instance.
\<close>

section \<open>User processes\<close>

lemma kernel_base_index:
  fixes a :: u64
  assumes "unat a < 2 ^ 31"
  shows "ix 0 (a + KERNEL_BASE) = 511"
proof -
  have "unat (a + KERNEL_BASE) = unat a + 0xFFFFFFFF80000000" using assms by (simp add: unat_word_ariths)
  then have "unat (drop_bit 39 (a + KERNEL_BASE)) = 2 ^ 25 - 1"
    using assms unfolding unat_drop_bit_eq by (simp add: drop_bit_eq_div div_nat_eqI)
  then have "drop_bit 39 (a + KERNEL_BASE) = 2 ^ 25 - 1" by (simp add: word_unat_eq_iff)
  then show ?thesis by (simp add: ix_def)
qed

lemma high_unmapped:
  assumes "unat a < 2 ^ 31" "\<not> present (load64 m (cell r 511))"
  shows "pte m r (a + KERNEL_BASE) = 0"
proof -
  have "tbl m r (Suc 0) (a + KERNEL_BASE) = None" using kernel_base_index [OF assms(1)] assms(2) by simp
  then show ?thesis by (simp add: pte_def numeral_3_eq_3 del: One_nat_def)
qed

lemma pmm_set_proc [simp]:
  "pmm_inv (set_proc i f s) = pmm_inv s" "pmm_avail (set_proc i f s) = pmm_avail s"
  "pmm_inv (s\<lparr>next_pid := n\<rparr>) = pmm_inv s" "pmm_avail (s\<lparr>next_pid := n\<rparr>) = pmm_avail s"
  by (simp_all add: set_proc_def pmm_inv_def pmm_avail_def free_pages_def page_addr_def)

text \<open>\<^verbatim>\<open>proc_create_elf\<close> clears the page directory of the new process through the address \<^verbatim>\<open>pa + KERNEL_BASE\<close>.
  While the top entry of the active page table is not present, as in the table the kernel starts with,
  that access is a page fault: creating a user process stops the kernel.\<close>

lemma proc_create_elf_faults:
  assumes "alloc_proc s \<noteq> None" "pmm_inv s" "pmm_avail s \<noteq> {}"
    and "unat (pmm_base s) + unat (pmm_total_pages s) * 4096 \<le> 2 ^ 31"
    and "\<not> present (load64 (mem s) (cell (cr3 s) 511))"
  shows "proc_create_elf elf s = Inl (Panic ''unhandled exception'')"
proof -
  obtain i where i: "find (\<lambda>i. state (proc_at i s) = PROC_UNUSED) [0..<PROC_MAX] = Some i"
    using assms(1) by (auto simp: alloc_proc_def)
  define s3 where "s3 = set_proc i (\<lambda>p. p\<lparr>pid := next_pid s, state := PROC_READY, is_user := True, started := False\<rparr>)
    ((set_proc i (\<lambda>_. zero_process\<lparr>state := PROC_READY\<rparr>) s)\<lparr>next_pid := next_pid s + 1\<rparr>)"
  obtain pa s4 where a: "pmm_alloc s3 = (pa, s4)" by fastforce
  have p3: "pmm_inv s3" "pmm_avail s3 = pmm_avail s" using assms(2) by (simp_all add: s3_def)
  have pa: "pa \<noteq> 0" "pa \<in> pmm_avail s"
    using pmm.alloc_null_iff [OF p3(1)] pmm.alloc_fresh [OF p3(1)] assms(3) p3(2) a by auto
  have "unat pa < 2 ^ 31"
  proof -
    obtain k where k: "k < unat (pmm_total_pages s)" "pa = page_addr s k"
      using pa(2) by (auto simp: pmm_avail_def free_pages_def)
    then have "unat pa = unat (pmm_base s) + k * 4096" using page_addr_unat [OF assms(2)] by simp
    then show ?thesis using k(1) assms(4) by simp
  qed
  moreover have "mem s4 = mem s" "cr3 s4 = cr3 s"
    using pmm_alloc_vmm_frame(1,5) [of s3] unfolding a by (simp_all add: s3_def set_proc_def)
  ultimately have "kernel_addr (pa + KERNEL_BASE) s4 = Inl (Panic ''unhandled exception'')"
    using high_unmapped [of pa "mem s" "cr3 s"] assms(5) by (simp add: kernel_addr_def present_def Let_def)
  moreover have "pmm_alloc_page s3 = (pa, s4)" using a by (simp add: pmm_alloc_page_def)
  ultimately show ?thesis
    using pa(1) by (simp add: proc_create_elf_def alloc_proc_slot_def i alloc_pid_def Let_def set_proc_def s3_def)
qed

lemma proc_create_elf_faults_witness: "proc_create_elf 0x1000 small_memory = Inl (Panic ''unhandled exception'')"
proof -
  have "vmm_state.more small_memory = vmm_state.more small_machine"
    by (simp add: small_memory_def vmm_more_more [OF pmm_init_more])
  then have "proc_table small_memory = proc_table small_machine" by (rule vmm_more_sched)
  then have "state (proc_at 0 small_memory) = PROC_UNUSED"
    by (simp add: proc_at_def small_machine_def initial_state_def)
  then have "alloc_proc small_memory \<noteq> None" by (auto simp: alloc_proc_def find_None_iff intro: exI [of _ 0])
  moreover have "pmm_avail small_memory \<noteq> {}" using card_small_avail by auto
  ultimately show ?thesis
    by (rule proc_create_elf_faults [OF _ small_memory_fields(11)]) (simp_all add: small_memory_fields load64_zero present_def)
qed

section \<open>Creation\<close>

text \<open>With three pages left in its static pool, the table allocator does not touch the page allocator.\<close>

lemma vmm_descend_pool:
  assumes "unat (pt_pool_used s) + 4096 \<le> 262144"
  shows "\<exists>n s'. vmm_descend t i flags s = Inr (n, s') \<and> unat (pt_pool_used s') \<le> unat (pt_pool_used s) + 4096 \<and>
    pmm_avail s' = pmm_avail s \<and> pmm_inv s' = pmm_inv s"
proof -
  have u: "unat (pt_pool_used s + PAGE_SIZE) = unat (pt_pool_used s) + 4096" using assms by (subst unat_add_u64) simp_all
  then have "pt_pool_used s + PAGE_SIZE \<le> PT_POOL_SIZE" using assms by (simp add: word_le_nat_alt)
  then show ?thesis using u by (simp add: vmm_descend_def alloc_table_def Let_def)
qed

lemma vmm_map_pool:
  assumes "unat (pt_pool_used s) + 3 * 4096 \<le> 262144"
  shows "\<exists>s'. vmm_map r va pa flags s = Inr (0, s') \<and> pmm_avail s' = pmm_avail s \<and> pmm_inv s' = pmm_inv s"
proof -
  obtain n1 s1 where 1: "vmm_descend r (PML4_IDX va) flags s = Inr (n1, s1)" "unat (pt_pool_used s1) \<le> unat (pt_pool_used s) + 4096"
    "pmm_avail s1 = pmm_avail s" "pmm_inv s1 = pmm_inv s" using vmm_descend_pool [of s] assms by force
  obtain n2 s2 where 2: "vmm_descend n1 (PDP_IDX va) flags s1 = Inr (n2, s2)" "unat (pt_pool_used s2) \<le> unat (pt_pool_used s1) + 4096"
    "pmm_avail s2 = pmm_avail s1" "pmm_inv s2 = pmm_inv s1" using vmm_descend_pool [of s1] assms 1(2) by force
  obtain n3 s3 where 3: "vmm_descend n2 (PD_IDX va) flags s2 = Inr (n3, s3)"
    "pmm_avail s3 = pmm_avail s2" "pmm_inv s3 = pmm_inv s2" using vmm_descend_pool [of s2] assms 1(2) 2(2) by force
  show ?thesis using 1 2 3 by (simp add: vmm_map_def Let_def tlb_flush_def)
qed

lemma alloc_some:
  fixes s :: "'a sched_state_scheme"
  assumes "pmm_inv s" "Suc n \<le> card (pmm_avail s)"
  obtains a s' where "pmm_alloc_page s = (a, s')" "a \<noteq> 0" "a \<in> pmm_avail s" "pmm_inv s'" "n \<le> card (pmm_avail s')"
    "pmm_state.more s' = pmm_state.more s"
proof -
  obtain a s' where a: "pmm_alloc s = (a, s')" by fastforce
  have ne: "pmm_avail s \<noteq> {}" using assms(2) by auto
  then have "a \<noteq> 0" "a \<in> pmm_avail s" "pmm_avail s' = pmm_avail s - {a}" "pmm_inv s'"
    using pmm.alloc_null_iff [OF assms(1)] pmm.alloc_fresh [OF assms(1)] pmm.alloc_inv [OF assms(1)] a by auto
  moreover have "n \<le> card (pmm_avail s - {a})"
    using card_Suc_Diff1 [OF pmm.avail_finite [OF assms(1)] \<open>a \<in> pmm_avail s\<close>] assms(2) by linarith
  moreover have "pmm_state.more s' = pmm_state.more s" using pmm_alloc_frame(3) [of s] a by simp
  ultimately show ?thesis using that a unfolding pmm_alloc_page_def by metis
qed

lemma proc_create_elf_success:
  assumes len: "length (proc_table s) = PROC_MAX" and slot: "alloc_proc s = Some i" and pages: "pmm_inv s" "3 \<le> card (pmm_avail s)"
    and pool: "unat (pt_pool_used s) + 3 * 4096 \<le> 262144"
    and high: "\<forall>a\<in>pmm_avail s. present (pte (mem s) (cr3 s) (a + KERNEL_BASE))"
  shows "\<exists>s' pa entry stack. proc_create_elf elf s = Inr (Some i, s') \<and> pa \<in> pmm_avail s \<and>
    same_tables (set_proc i (\<lambda>_. elf_process (next_pid s) pa entry stack (proc_entry_user s)) (s\<lparr>next_pid := next_pid s + 1\<rparr>)) s'"
proof -
  have i: "i < 64" "find (\<lambda>i. state (proc_at i s) = PROC_UNUSED) [0..<PROC_MAX] = Some i"
    using alloc_proc_Some [OF slot] slot by (simp_all add: alloc_proc_def)
  define s3 where "s3 = set_proc i (\<lambda>p. p\<lparr>pid := next_pid s, state := PROC_READY, is_user := True, started := False\<rparr>)
    ((set_proc i (\<lambda>_. zero_process\<lparr>state := PROC_READY\<rparr>) s)\<lparr>next_pid := next_pid s + 1\<rparr>)"
  have av3: "pmm_avail s3 = pmm_avail s" by (simp add: s3_def)
  have m3: "mem s3 = mem s" "cr3 s3 = cr3 s" "pt_pool_used s3 = pt_pool_used s" by (simp_all add: s3_def set_proc_def)
  have "pmm_inv s3" "Suc 2 \<le> card (pmm_avail s3)" using pages by (simp_all add: s3_def)
  then obtain pa s4 where 4: "pmm_alloc_page s3 = (pa, s4)" "pa \<noteq> 0" "pa \<in> pmm_avail s3" "pmm_inv s4"
    "2 \<le> card (pmm_avail s4)" "pmm_state.more s4 = pmm_state.more s3" by (rule alloc_some)
  note m4 = vmm_more_fields [OF 4(6)]
  obtain v where v: "kernel_addr (pa + KERNEL_BASE) s4 = Inr v"
    using high 4(3) by (simp add: kernel_addr_def Let_def m4 m3 av3)
  define s6 where "s6 = set_proc i (\<lambda>p. p\<lparr>p_cr3 := pa, pml4 := pa + KERNEL_BASE\<rparr>)
    (s4\<lparr>mem := memcpy_mem v (kernel_pml4 s4) 4096 (memset_mem v 0 4096 (mem s4))\<rparr>)"
  have "pmm_inv s6" "Suc 1 \<le> card (pmm_avail s6)" using 4(4,5) by (simp_all add: s6_def)
  then obtain pb s7 where 7: "pmm_alloc_page s6 = (pb, s7)" "pmm_inv s7" "1 \<le> card (pmm_avail s7)"
    "pmm_state.more s7 = pmm_state.more s6" by (rule alloc_some)
  have "unat (pt_pool_used s7) + 3 * 4096 \<le> 262144"
    using pool vmm_more_fields(3) [OF 7(4)] m4(3) m3(3) by (simp add: s6_def set_proc_def)
  then obtain s8 where 8: "vmm_map v (0x7fffffffe000 - 0x1000) pb 0x7 s7 = Inr (0, s8)" "pmm_avail s8 = pmm_avail s7"
    "pmm_inv s8" using vmm_map_pool [of s7] 7(2) by blast
  let ?entry = "load64 (mem s8) elf"
  define s10 where "s10 = kprintf ''user_rsp = %p
'' [Num 0x7fffffffe000] (kprintf ''user_rip = %p
'' [Num ?entry] (kprintf ''elf_entry = %p
'' [Num ?entry] (set_proc i (\<lambda>p. p\<lparr>user_rip := ?entry, user_rsp := 0x7fffffffe000\<rparr>) s8)))"
  have a10: "pmm_inv s10 = pmm_inv s8" "pmm_avail s10 = pmm_avail s8"
    by (simp_all add: s10_def kprintf_def set_proc_def pmm_inv_def pmm_avail_def free_pages_def page_addr_def)
  then have "pmm_inv s10" "Suc 0 \<le> card (pmm_avail s10)" using 7(3) 8(2,3) by simp_all
  then obtain pc s11 where 11: "pmm_alloc_page s10 = (pc, s11)" "pc \<noteq> 0" by (rule alloc_some)
  then have "\<exists>s'. proc_create_elf elf s = Inr (Some i, s')"
    using i(2) 4(1,2) v 7(1) 8(1) 11(1,2)
    by (simp add: proc_create_elf_def alloc_proc_slot_def alloc_pid_def alloc_kernel_stack_for_proc_def
        Let_def flip: s3_def s6_def s10_def)
  then show ?thesis using proc_create_elf_shape [OF len] 4(1,3) av3 unfolding s3_def by fastforce
qed


text \<open>The small machine with three pages that are also mapped above \<^verbatim>\<open>KERNEL_BASE\<close>.\<close>

definition high_map :: memory where
  "high_map = fold (\<lambda>(t, i, e) m. store64 m (cell t i) e)
     [(0x10000, 511, 0x11003), (0x11000, 510, 0x12003), (0x12000, 1, 0x13003),
      (0x13000, 0, 0x200003), (0x13000, 1, 0x201003), (0x13000, 2, 0x202003)] (\<lambda>_. 0)"

definition high_machine :: ipc_state where
  "high_machine = pmm_init 0x200000 0x3000 (initial_state small_layout high_map)"

lemma high_map_load:
  assumes "aligned8 x"
  shows "load64 high_map x = (if x = 0x13010 then 0x202003 else if x = 0x13008 then 0x201003 else if x = 0x13000 then 0x200003
    else if x = 0x12008 then 0x13003 else if x = 0x11FF0 then 0x12003 else if x = 0x10FF8 then 0x11003 else 0)"
  using assms by (simp add: high_map_def cell_def load64_store64 load64_zero aligned8_def)

lemma high_map_present:
  "present (pte high_map 0x10000 (0x200000 + KERNEL_BASE))" "present (pte high_map 0x10000 (0x201000 + KERNEL_BASE))"
  "present (pte high_map 0x10000 (0x202000 + KERNEL_BASE))"
  by (simp_all add: pte_def numeral_3_eq_3 ix_def cell_def high_map_load aligned8_def PTE_PHYS_def present_def)


end
