(* ===== verification/Device_Props.thy ===== *)
theory Device_Props
  imports Initial
begin

text \<open>
  The properties of the console devices (\<^verbatim>\<open>kernel/lib/serial.c\<close>, \<^verbatim>\<open>kernel/arch/x86_64/vga.c\<close>) and of the
  descriptor tables (\<^verbatim>\<open>kernel/arch/x86_64/gdt.c\<close>, \<^verbatim>\<open>idt.c\<close>), each with a concrete instance.
\<close>

section \<open>Numbers\<close>

lemma length_digits_u64: "2 \<le> b \<Longrightarrow> length (digits_loop b (unat (n :: u64))) \<le> 64"
proof (rule length_digits_loop)
  assume "2 \<le> b"
  then have "(2 :: nat) ^ 64 \<le> b ^ 64" by (rule power_mono) simp
  then show "unat n < b ^ 64" using unat_less_u64 [of n] by linarith
qed

text \<open>C34. \<^verbatim>\<open>print_uint\<close> prints the number: the digits after the padding denote \<open>n\<close> in the base, they are at
  most 64, the size of its buffer, and the output is as wide as asked for.\<close>

theorem print_uint_correct:
  assumes "2 \<le> base" "base \<le> 16"
  shows "\<exists>ds. print_uint n base width pad = replicate (width - length ds) pad @ ds \<and>
    digits_val base (rev ds) = unat n \<and> 0 < length ds \<and> length ds \<le> 64 \<and>
    length (print_uint n base width pad) = max width (length ds)"
proof -
  define ds where "ds = rev (if n = 0 then [digit_char 0] else digits_loop base (unat n))"
  have "print_uint n base width pad = replicate (width - length ds) pad @ ds"
    by (simp add: print_uint_def ds_def Let_def)
  moreover have "digits_val base (rev ds) = unat n"
    using digits_val_loop [OF assms, of "unat n"] by (simp add: ds_def digit_val_char)
  moreover have "length ds \<le> 64" using length_digits_u64 [OF assms(1), of n] by (simp add: ds_def)
  moreover have "0 < length ds"
    using assms(1) by (auto simp: ds_def digits_loop.simps [of base "unat n"] unat_eq_0)
  ultimately show ?thesis by auto
qed

theorem print_uint_correct_witness:
  "\<exists>ds. print_uint 0x2A 16 8 48 = replicate (8 - length ds) 48 @ ds \<and> digits_val 16 (rev ds) = 42"
  using print_uint_correct [of 16 "0x2A" 8 48] by auto

section \<open>Screen\<close>

lemma vga_putc_cells:
  assumes "vga_tight c" "i < 0 \<or> 2000 \<le> i"
  shows "vmem (vga_putc ch c) i = vmem c i"
proof -
  have "vmem (vga_put ch c) i = vmem c i"
    using assms by (auto simp: vga_put_def vga_tight_def vga_ok_def Let_def)
  then show ?thesis using assms(2) by (auto simp: vga_putc_def Let_def vmem_vga_scroll)
qed

text \<open>C33. Text without tabs stays on the screen: with the cursor on the screen \<^verbatim>\<open>vga_puts\<close> writes no cell outside
  the 80 x 25 cells of the video memory, and leaves the cursor on the screen.\<close>

theorem vga_puts_bounds:
  assumes "vga_tight c" "9 \<notin> set s"
  shows "vga_tight (vga_puts s c) \<and> (\<forall>i. i < 0 \<or> 2000 \<le> i \<longrightarrow> vmem (vga_puts s c) i = vmem c i)"
  using assms
proof (induction s arbitrary: c)
  case (Cons ch s)
  have t: "vga_tight (vga_putc ch c)" using Cons.prems by (intro vga_putc_tight) auto
  from Cons.IH [OF t] Cons.prems vga_putc_cells [OF Cons.prems(1)] show ?case
    by (auto simp: vga_puts_def)
qed (simp add: vga_puts_def)

theorem vga_puts_bounds_witness: "vga_tight (vga_puts (bytes_of ''hello'') zero_console)"
  using vga_puts_bounds [of zero_console "bytes_of ''hello''"]
  by (simp add: zero_console_def vga_tight_def vga_ok_def bytes_of_def)

text \<open>With tabs it does not: on the last line ten of them take the cursor behind the last cell.\<close>

lemma vga_tab_overflow:
  assumes "vga_ok c" "vga_row c = 24" "vga_col c = 0" "printable ch"
  shows "vmem (vga_putc ch (fold vga_putc (replicate 10 9) c)) 2000 = VGA_ENTRY ch (vga_attr c)"
proof -
  define c' where "c' = fold vga_putc (replicate (Suc 9) 9) c"
  have "vga_row c' = 24" "vga_col c' = 80" "vga_attr c' = vga_attr c"
    using vga_tabs [OF assms(1), of 9] assms(2,3) by (simp_all add: c'_def Let_def del: replicate_Suc)
  then have "vmem (vga_putc ch c') 2000 = VGA_ENTRY ch (vga_attr c)"
    using assms(4) by (simp add: vga_putc_def vga_put_def printable_def Let_def vmem_vga_scroll)
  then show ?thesis by (simp add: c'_def numeral_eq_Suc)
qed

section \<open>Descriptor tables\<close>

lemma gdt_init_entries:
  assumes "length (gdt s) = GDT_NORMAL_ENTRIES"
  shows "gdt (gdt_init s) = [\<lparr>limit_low = 0, base_low = 0, base_mid = 0, access = 0, granularity = 0, base_high = 0\<rparr>,
      \<lparr>limit_low = 0xFFFF, base_low = 0, base_mid = 0, access = 0x9A, granularity = 0xAF, base_high = 0\<rparr>,
      \<lparr>limit_low = 0xFFFF, base_low = 0, base_mid = 0, access = 0x92, granularity = 0xCF, base_high = 0\<rparr>,
      \<lparr>limit_low = 0xFFFF, base_low = 0, base_mid = 0, access = 0xFA, granularity = 0xCF, base_high = 0\<rparr>,
      \<lparr>limit_low = 0xFFFF, base_low = 0, base_mid = 0, access = 0xF2, granularity = 0xCF, base_high = 0\<rparr>,
      \<lparr>limit_low = 0xFFFF, base_low = 0, base_mid = 0, access = 0xFA, granularity = 0xAF, base_high = 0\<rparr>]"
proof -
  have "length (gdt s) = Suc (Suc (Suc (Suc (Suc (Suc 0)))))" using assms by simp
  then obtain a0 a1 a2 a3 a4 a5 where "gdt s = [a0, a1, a2, a3, a4, a5]" unfolding length_Suc_conv by auto
  then show ?thesis by (simp add: gdt_init_def Let_def kprintf_def set_entry_def)
qed

lemmas segment_simps = selected_def entry_base_def entry_limit_def entry_dpl_def entry_long_def



definition gate_is :: "u64 \<Rightarrow> u8 \<Rightarrow> idt_entry \<Rightarrow> bool" where
  "gate_is handler attr e \<longleftrightarrow> gate_offset e = handler \<and> selector e = GDT_KERNEL_CODE \<and> type_attr e = attr"

lemma length_set_gate [simp]: "length (set_gate num h ist dpl t) = length t"
  by (simp add: set_gate_def)

lemma set_gate_nth:
  assumes "i < length t" "unat num < length t"
  shows "if i = unat num then gate_is h (0x8E OR push_bit 5 (dpl AND 3)) (set_gate num h ist dpl t ! i)
    else set_gate num h ist dpl t ! i = t ! i"
  using assms gate_decode [OF assms(2), of h ist dpl] by (simp add: gate_is_def) (simp add: set_gate_def)

lemma idt_loop:
  fixes st :: "u64 list"
  assumes "length t = 256" "n \<le> 48" "i < 256"
  defines "f \<equiv> \<lambda>i t. if st ! i \<noteq> 0 then set_gate (of_nat i) (st ! i) 0 0 t else t"
  shows "length (for_upto n f t) = 256 \<and>
    (if i < n \<and> st ! i \<noteq> 0 then gate_is (st ! i) 0x8E (for_upto n f t ! i) else for_upto n f t ! i = t ! i)"
  using assms(2)
proof (induction n)
  case 0
  then show ?case using assms(1) by simp
next
  case (Suc n)
  let ?t = "for_upto n f t"
  have n: "unat (of_nat n :: u8) = n" using Suc.prems by (simp add: unat_of_nat)
  have len: "length ?t = 256" using Suc by simp
  have "if i = n then gate_is (st ! n) 0x8E (set_gate (of_nat n) (st ! n) 0 0 ?t ! i)
      else set_gate (of_nat n) (st ! n) 0 0 ?t ! i = ?t ! i"
    using set_gate_nth [of i ?t "of_nat n" "st ! n" 0 0] len n assms(3) Suc.prems by (simp split: if_splits)
  moreover have "for_upto (Suc n) f t = (if st ! n \<noteq> 0 then set_gate (of_nat n) (st ! n) 0 0 ?t else ?t)" by (simp add: f_def)
  moreover have "if i < n \<and> st ! i \<noteq> 0 then gate_is (st ! i) 0x8E (?t ! i) else ?t ! i = t ! i" using Suc by simp
  ultimately show ?case using len by (cases "i = n") (auto simp: less_Suc_eq split: if_splits)
qed

text \<open>C31. After \<^verbatim>\<open>idt_init\<close> every one of the 48 vectors and the system-call vector that has a stub leads to it, through
  an interrupt gate in the kernel's code segment; only the system-call gate is open to user mode, and
  the other vectors are as before.\<close>

theorem idt_init_correct:
  assumes "length (idt s) = IDT_SIZE" "i < IDT_SIZE"
  shows "let st = isr_stub_table s; e = idt (idt_init s) ! i in
    if (i < 48 \<or> i = 128) \<and> st ! i \<noteq> 0 then gate_is (st ! i) (if i = 128 then 0xEE else 0x8E) e
    else e = idt s ! i"
proof -
  let ?st = "isr_stub_table s"
  define f where "f = (\<lambda>i t. if ?st ! i \<noteq> 0 then set_gate (of_nat i) (?st ! i) 0 0 t else t)"
  define t where "t = for_upto 48 f (idt s)"
  have t: "length t = 256"
    "if i < 48 \<and> ?st ! i \<noteq> 0 then gate_is (?st ! i) 0x8E (t ! i) else t ! i = idt s ! i"
    using idt_loop [OF assms(1) order_refl assms(2), of ?st] by (simp_all add: t_def f_def)
  have e: "idt (idt_init s) = (if ?st ! 128 \<noteq> 0 then set_gate 0x80 (?st ! 128) 0 3 t else t)"
    by (simp add: idt_init_def Let_def kprintf_def t_def f_def)
  have "if i = 128 then gate_is (?st ! 128) 0xEE (set_gate 0x80 (?st ! 128) 0 3 t ! i)
      else set_gate 0x80 (?st ! 128) 0 3 t ! i = t ! i"
    using set_gate_nth [of i t "0x80" "?st ! 128" 3 0] t(1) assms(2) by (simp split: if_splits)
  then show ?thesis unfolding Let_def e using t(2) by (cases "i = 128") auto
qed

theorem idt_init_correct_witness: "gate_is 0x31000 0xEE (idt (idt_init small_machine) ! 128)"
proof -
  have "length (idt small_machine) = IDT_SIZE" "isr_stub_table small_machine ! 128 = 0x31000"
    by (simp_all add: small_machine_def initial_state_def small_layout_def nth_append)
  with idt_init_correct [of small_machine 128] show ?thesis by (simp add: Let_def)
qed

end
