(* ===== verification/User.thy ===== *)
theory User
  imports Message_Props
begin

text \<open>
  The user programs: the system-call wrappers of \<^verbatim>\<open>unix_gokan.h\<close>, which enter the kernel through
  \<^verbatim>\<open>int 0x80\<close>, and the shell \<^verbatim>\<open>sh.c\<close>, which uses the \<^verbatim>\<open>syscall\<close> instruction.
\<close>

section \<open>Wrappers\<close>

text \<open>
  \<open>fr\<close> holds the registers of the program at the instruction; the inline assembly sets those it
  names.  \<open>None\<close>: control does not come back.
\<close>

definition int80 :: "'a ipc_state_scheme resume \<Rightarrow> interrupt_frame \<Rightarrow> 'a ipc_state_scheme \<Rightarrow> (u64 \<times> 'a ipc_state_scheme) option" where
  "int80 resume fr s =
     (case interrupt_dispatch resume (fr\<lparr>int_no := 0x80, err_code := 0\<rparr>) s of
        Some (Inr (fr', s')) \<Rightarrow> Some (f_rax fr', s')
      | _ \<Rightarrow> None)"

definition user_write ::
  "'a ipc_state_scheme resume \<Rightarrow> interrupt_frame \<Rightarrow> u32 \<Rightarrow> u64 \<Rightarrow> u64 \<Rightarrow> 'a ipc_state_scheme \<Rightarrow> (u64 \<times> 'a ipc_state_scheme) option" where
  "user_write resume fr fd buf len s =
     int80 resume (fr\<lparr>f_rax := SYS_WRITE, f_rdi := scast fd, f_rsi := buf, f_rdx := len\<rparr>) s"

definition user_exit ::
  "'a ipc_state_scheme resume \<Rightarrow> interrupt_frame \<Rightarrow> u32 \<Rightarrow> 'a ipc_state_scheme \<Rightarrow> 'a ipc_state_scheme option" where
  "user_exit resume fr code s =
     map_option snd (int80 resume (fr\<lparr>f_rax := SYS_EXIT, f_rdi := scast code\<rparr>) s)"

section \<open>The shell\<close>

text \<open>
  \<open>insn num a1 a2 a3\<close> is what the \<^verbatim>\<open>syscall\<close> instruction does with these registers, and the value of
  \<^verbatim>\<open>rax\<close> after it; the kernel never sets the instruction up.
\<close>

type_synonym 's syscall_insn = "u64 \<Rightarrow> u64 \<Rightarrow> u64 \<Rightarrow> u64 \<Rightarrow> 's \<Rightarrow> (u64 \<times> 's) option"

abbreviation SYS_write_linux :: u64 where "SYS_write_linux \<equiv> 1"
abbreviation SYS_exit_linux :: u64 where "SYS_exit_linux \<equiv> 60"

definition syscall3 :: "'s syscall_insn \<Rightarrow> u64 \<Rightarrow> u64 \<Rightarrow> u64 \<Rightarrow> u64 \<Rightarrow> 's \<Rightarrow> (u64 \<times> 's) option" where
  "syscall3 insn num arg1 arg2 arg3 s = insn num arg1 arg2 arg3 s"

definition sh_write :: "'s syscall_insn \<Rightarrow> u32 \<Rightarrow> u64 \<Rightarrow> u64 \<Rightarrow> 's \<Rightarrow> 's option" where
  "sh_write insn fd buf count s = map_option snd (syscall3 insn SYS_write_linux (scast fd) buf count s)"

definition sh_exit :: "'s syscall_insn \<Rightarrow> u32 \<Rightarrow> 's \<Rightarrow> 's option" where
  "sh_exit insn status s = map_option snd (syscall3 insn SYS_exit_linux (scast status) 0 0 s)"

text \<open>\<^verbatim>\<open>_start\<close>: the greeting at \<open>hello\<close>, then \<open>n\<close> rounds of its endless loop, each a dot and a busy wait.\<close>

primrec sh_rounds :: "'s syscall_insn \<Rightarrow> u64 \<Rightarrow> nat \<Rightarrow> 's \<Rightarrow> 's option" where
  "sh_rounds insn dot 0 s = Some s"
| "sh_rounds insn dot (Suc n) s =
     (case sh_write insn 1 dot 1 s of None \<Rightarrow> None | Some s1 \<Rightarrow> sh_rounds insn dot n s1)"

definition sh_start :: "'s syscall_insn \<Rightarrow> u64 \<Rightarrow> u64 \<Rightarrow> nat \<Rightarrow> 's \<Rightarrow> 's option" where
  "sh_start insn hello dot n s =
     (case sh_write insn 1 hello 25 s of None \<Rightarrow> None | Some s1 \<Rightarrow> sh_rounds insn dot n s1)"

section \<open>Properties\<close>

lemma ucast_scast_u32: "ucast (scast (x :: u32) :: u64) = x"
  by (rule bit_word_eqI) (simp add: bit_simps)


text \<open>\<^verbatim>\<open>exit\<close> ends the process: the call returns only if the dead process is resumed.\<close>

lemma user_exit_eq: "user_exit resume fr code s = came_back resume s (proc_exit code s)"
  by (simp add: user_exit_def int80_def interrupt_dispatch_def syscall_handler_def ucast_scast_u32 option.map_comp comp_def
      split: option.split)

text \<open>
  The shell's numbers are those of Linux.  If the \<^verbatim>\<open>syscall\<close> instruction led to the kernel's table,
  its first \<^verbatim>\<open>write\<close> would end the process with code 1, and \<^verbatim>\<open>exit\<close> would be unknown.
\<close>

lemma sh_write_exits:
  "sh_write (\<lambda>num a1 a2 a3. syscall_handler resume num a1 a2 a3 0) 1 buf count s = came_back resume s (proc_exit 1 s)"
  by (simp add: sh_write_def syscall3_def syscall_handler_def option.map_comp comp_def option.map_ident)

lemma sh_exit_unknown:
  "\<exists>d. sh_exit (\<lambda>num a1 a2 a3. syscall_handler resume num a1 a2 a3 0) status s = Some (s\<lparr>con := d\<rparr>)"
  by (auto simp: sh_exit_def syscall3_def syscall_handler_def kprintf_def)

end
