(* ===== verification/C_Layout.thy ===== *)
theory C_Layout
  imports Boot
begin

text \<open>
  How the compiler lays out the C structures that assembly code, the processor or a file format read:
  the rules of the x86-64 calling convention (a member is aligned to its type's alignment, the size
  is a multiple of the largest one, a packed structure has no gaps), the structures as the headers
  declare them, and what the rules give for each of them.
\<close>

section \<open>Layout rules\<close>

datatype ctype = Scalar nat | Array ctype nat | Struct bool "(string \<times> ctype) list"

definition round_up :: "nat \<Rightarrow> nat \<Rightarrow> nat" where
  "round_up n a = (n + a - 1) div a * a"

fun align_of :: "ctype \<Rightarrow> nat" and align_fields :: "(string \<times> ctype) list \<Rightarrow> nat" where
  "align_of (Scalar n) = n"
| "align_of (Array t n) = align_of t"
| "align_of (Struct p fs) = (if p then 1 else align_fields fs)"
| "align_fields [] = 1"
| "align_fields ((x, t) # fs) = max (align_of t) (align_fields fs)"

fun size_of :: "ctype \<Rightarrow> nat" and end_of :: "bool \<Rightarrow> nat \<Rightarrow> (string \<times> ctype) list \<Rightarrow> nat" where
  "size_of (Scalar n) = n"
| "size_of (Array t n) = n * size_of t"
| "size_of (Struct p fs) = round_up (end_of p 0 fs) (align_of (Struct p fs))"
| "end_of p off [] = off"
| "end_of p off ((x, t) # fs) = end_of p (round_up off (if p then 1 else align_of t) + size_of t) fs"

fun place :: "bool \<Rightarrow> nat \<Rightarrow> (string \<times> ctype) list \<Rightarrow> (string \<times> nat \<times> nat) list" where
  "place p off [] = []"
| "place p off ((x, t) # fs) =
     (let o' = round_up off (if p then 1 else align_of t) in (x, o', size_of t) # place p (o' + size_of t) fs)"

text \<open>The members of a structure with their offsets and sizes, and \<^verbatim>\<open>offsetof\<close>.\<close>

fun members :: "ctype \<Rightarrow> (string \<times> nat \<times> nat) list" where
  "members (Struct p fs) = place p 0 fs"
| "members _ = []"

definition offsetof :: "ctype \<Rightarrow> string \<Rightarrow> nat" where
  "offsetof t x = (case map_of (members t) x of Some (off, sz) \<Rightarrow> off | None \<Rightarrow> 0)"

abbreviation C8 :: ctype where "C8 \<equiv> Scalar 1"
abbreviation C16 :: ctype where "C16 \<equiv> Scalar 2"
abbreviation C32 :: ctype where "C32 \<equiv> Scalar 4"
abbreviation C64 :: ctype where "C64 \<equiv> Scalar 8"

text \<open>\<^verbatim>\<open>bool\<close> is \<^verbatim>\<open>int\<close> here, an enumeration has the size of \<^verbatim>\<open>int\<close>, and a pointer has eight bytes.\<close>

abbreviation Bool :: ctype where "Bool \<equiv> Scalar 4"
abbreviation Enum :: ctype where "Enum \<equiv> Scalar 4"
abbreviation Ptr :: ctype where "Ptr \<equiv> Scalar 8"

section \<open>The structures\<close>

definition lay_gdt_entry :: ctype where
  "lay_gdt_entry = Struct True [(''limit_low'', C16), (''base_low'', C16), (''base_mid'', C8), (''access'', C8),
     (''granularity'', C8), (''base_high'', C8)]"

definition lay_tss :: ctype where
  "lay_tss = Struct True [(''reserved0'', C32), (''rsp'', Array C64 3), (''reserved1'', C64), (''ist'', Array C64 7),
     (''reserved2'', C64), (''reserved3'', C16), (''iomap_base'', C16)]"

definition lay_gdt_tss_entry :: ctype where
  "lay_gdt_tss_entry = Struct True [(''limit_low'', C16), (''base_low'', C16), (''base_mid1'', C8), (''access'', C8),
     (''flags'', C8), (''base_mid2'', C8), (''base_high'', C32), (''reserved'', C32)]"

definition lay_idt_entry :: ctype where
  "lay_idt_entry = Struct True [(''offset_low'', C16), (''selector'', C16), (''ist'', C8), (''type_attr'', C8),
     (''offset_mid'', C16), (''offset_high'', C32), (''reserved'', C32)]"

definition lay_table_reg :: ctype where
  "lay_table_reg = Struct True [(''limit'', C16), (''base'', C64)]"

definition lay_interrupt_frame :: ctype where
  "lay_interrupt_frame = Struct True [(''r15'', C64), (''r14'', C64), (''r13'', C64), (''r12'', C64), (''r11'', C64),
     (''r10'', C64), (''r9'', C64), (''r8'', C64), (''rbp'', C64), (''rdi'', C64), (''rsi'', C64), (''rdx'', C64),
     (''rcx'', C64), (''rbx'', C64), (''rax'', C64), (''int_no'', C64), (''err_code'', C64), (''rip'', C64),
     (''cs'', C64), (''rflags'', C64), (''rsp'', C64), (''ss'', C64)]"

definition lay_cpu_context :: ctype where
  "lay_cpu_context = Struct False [(''r15'', C64), (''r14'', C64), (''r13'', C64), (''r12'', C64), (''rbx'', C64),
     (''rbp'', C64), (''rip'', C64), (''rsp'', C64)]"

definition lay_fd_entry :: ctype where
  "lay_fd_entry = Struct False [(''open'', Bool), (''offset'', C32), (''file'', Ptr)]"

definition lay_process :: ctype where
  "lay_process = Struct False [(''pid'', C32), (''ppid'', C32), (''state'', Enum), (''exit_code'', C32), (''user_mode'', Bool),
     (''pml4'', Ptr), (''context'', lay_cpu_context), (''kernel_rsp'', C64), (''sleep_ticks'', C64), (''wait_pid'', C32),
     (''msg_queue'', Ptr), (''msg_tail'', Ptr), (''msg_count'', C32), (''fds'', Array lay_fd_entry 16), (''kstack'', Ptr),
     (''brk'', C64), (''tf'', Ptr), (''name'', Array C8 16), (''cr3'', C64), (''is_user'', Bool), (''started'', Bool),
     (''user_rip'', C64), (''user_rsp'', C64), (''user_sp'', C64)]"

definition lay_ipc_message :: ctype where
  "lay_ipc_message = Struct False [(''from'', C32), (''type'', C32), (''len'', C32), (''data'', Array C8 256), (''next'', Ptr)]"

definition lay_initrd_file :: ctype where
  "lay_initrd_file = Struct False [(''name'', Ptr), (''size'', C32), (''data'', Ptr)]"

definition lay_cpio_header :: ctype where
  "lay_cpio_header = Struct False [(''c_magic'', Array C8 6), (''c_ino'', Array C8 8), (''c_mode'', Array C8 8),
     (''c_uid'', Array C8 8), (''c_gid'', Array C8 8), (''c_nlink'', Array C8 8), (''c_mtime'', Array C8 8),
     (''c_filesize'', Array C8 8), (''c_devmajor'', Array C8 8), (''c_devminor'', Array C8 8), (''c_rdevmajor'', Array C8 8),
     (''c_rdevminor'', Array C8 8), (''c_namesize'', Array C8 8), (''c_check'', Array C8 8)]"

text \<open>The ELF headers are declared twice, in \<^verbatim>\<open>elf.h\<close> for the loader and packed in \<^verbatim>\<open>elf64.h\<close>.\<close>

definition lay_ehdr :: ctype where
  "lay_ehdr = Struct False [(''e_ident'', Array C8 16), (''e_type'', C16), (''e_machine'', C16), (''e_version'', C32),
     (''e_entry'', C64), (''e_phoff'', C64), (''e_shoff'', C64), (''e_flags'', C32), (''e_ehsize'', C16), (''e_phentsize'', C16),
     (''e_phnum'', C16), (''e_shentsize'', C16), (''e_shnum'', C16), (''e_shstrndx'', C16)]"

definition lay_phdr :: ctype where
  "lay_phdr = Struct False [(''p_type'', C32), (''p_flags'', C32), (''p_offset'', C64), (''p_vaddr'', C64), (''p_paddr'', C64),
     (''p_filesz'', C64), (''p_memsz'', C64), (''p_align'', C64)]"

definition lay_Elf64_Ehdr :: ctype where
  "lay_Elf64_Ehdr = Struct True [(''e_ident'', Array C8 16), (''e_type'', C16), (''e_machine'', C16), (''e_version'', C32),
     (''e_entry'', C64), (''e_phoff'', C64), (''e_shoff'', C64), (''e_flags'', C32), (''e_ehsize'', C16), (''e_phentsize'', C16),
     (''e_phnum'', C16), (''e_shentsize'', C16), (''e_shnum'', C16), (''e_shstrndx'', C16)]"

definition lay_Elf64_Phdr :: ctype where
  "lay_Elf64_Phdr = Struct True [(''p_type'', C32), (''p_flags'', C32), (''p_offset'', C64), (''p_vaddr'', C64),
     (''p_paddr'', C64), (''p_filesz'', C64), (''p_memsz'', C64), (''p_align'', C64)]"

definition lay_mmap_entry :: ctype where
  "lay_mmap_entry = Struct True [(''base_addr'', C64), (''length'', C64), (''type'', C32), (''reserved'', C32)]"

definition lay_tag_mmap :: ctype where
  "lay_tag_mmap = Struct True [(''type'', C32), (''size'', C32), (''entry_size'', C32), (''entry_version'', C32)]"

definition lay_tag_module :: ctype where
  "lay_tag_module = Struct False [(''type'', C32), (''size'', C32), (''mod_start'', C32), (''mod_end'', C32), (''cmdline'', Array C8 0)]"

definition lay_tag :: ctype where
  "lay_tag = Struct False [(''type'', C32), (''size'', C32)]"

definition lay_mb2_info :: ctype where
  "lay_mb2_info = Struct True [(''total_size'', C32), (''reserved'', C32)]"

definition lay_load_result :: ctype where
  "lay_load_result = Struct False [(''entry'', C64)]"

text \<open>Declared and never used: an own boot structure, a second trap frame, data of a processor and directory entries.\<close>

definition lay_cpu_local :: ctype where
  "lay_cpu_local = Struct False [(''kernel_rsp'', C64), (''user_rsp_save'', C64)]"

definition lay_trapframe64 :: ctype where
  "lay_trapframe64 = Struct False [(''r15'', C64), (''r14'', C64), (''r13'', C64), (''r12'', C64), (''r11'', C64), (''r10'', C64),
     (''r9'', C64), (''r8'', C64), (''rsi'', C64), (''rdi'', C64), (''rbp'', C64), (''rdx'', C64), (''rcx'', C64), (''rbx'', C64),
     (''rax'', C64), (''rip'', C64), (''cs'', C64), (''rflags'', C64), (''rsp'', C64), (''ss'', C64)]"

definition lay_boot_info :: ctype where
  "lay_boot_info = Struct False [(''magic'', C32), (''mmap'', Ptr), (''mmap_count'', C32), (''_pad0'', C32), (''fb_addr'', C64),
     (''fb_width'', C32), (''fb_height'', C32), (''fb_pitch'', C32), (''fb_bpp'', C32), (''fb_format'', Enum), (''_pad1'', C32),
     (''initrd_start'', C64), (''initrd_size'', C64), (''cmdline'', Array C8 256), (''rsdp_addr'', C64)]"

definition lay_dirent :: ctype where
  "lay_dirent = Struct False [(''name'', Array C8 64), (''size'', C32), (''type'', C32)]"

section \<open>Constants of the assembly code\<close>

definition USER_RIP_OFFSET :: nat where "USER_RIP_OFFSET = 0x1c8"
definition USER_SP_OFFSET :: nat where "USER_SP_OFFSET = 0x1d8"
definition CR3_OFFSET :: nat where "CR3_OFFSET = 0x1b8"
definition ASM_PROC_USER_SP_OFFSET :: nat where "ASM_PROC_USER_SP_OFFSET = 0x48"


text \<open>A member of a structure in memory.\<close>

definition field :: "memory \<Rightarrow> u64 \<Rightarrow> ctype \<Rightarrow> string \<Rightarrow> u64" where
  "field m a t x = (case map_of (members t) x of Some (off, sz) \<Rightarrow> load_le sz m (a + of_nat off) | None \<Rightarrow> 0)"

lemma header_members:
  "members lay_ehdr = [(''e_ident'', 0, 16), (''e_type'', 16, 2), (''e_machine'', 18, 2), (''e_version'', 20, 4),
     (''e_entry'', 24, 8), (''e_phoff'', 32, 8), (''e_shoff'', 40, 8), (''e_flags'', 48, 4), (''e_ehsize'', 52, 2),
     (''e_phentsize'', 54, 2), (''e_phnum'', 56, 2), (''e_shentsize'', 58, 2), (''e_shnum'', 60, 2), (''e_shstrndx'', 62, 2)]"
  "members lay_Elf64_Ehdr = members lay_ehdr" "size_of lay_ehdr = 64" "size_of lay_Elf64_Ehdr = 64"
  "members lay_phdr = [(''p_type'', 0, 4), (''p_flags'', 4, 4), (''p_offset'', 8, 8), (''p_vaddr'', 16, 8), (''p_paddr'', 24, 8),
     (''p_filesz'', 32, 8), (''p_memsz'', 40, 8), (''p_align'', 48, 8)]"
  "members lay_Elf64_Phdr = members lay_phdr" "size_of lay_phdr = 56" "size_of lay_Elf64_Phdr = 56"
  by code_simp+

lemma cpio_members:
  "size_of lay_cpio_header = 110" "offsetof lay_cpio_header ''c_namesize'' = 94" "offsetof lay_cpio_header ''c_filesize'' = 54"
  by code_simp+

lemma boot_members:
  "members lay_mmap_entry = [(''base_addr'', 0, 8), (''length'', 8, 8), (''type'', 16, 4), (''reserved'', 20, 4)]"
  "members lay_tag_mmap = [(''type'', 0, 4), (''size'', 4, 4), (''entry_size'', 8, 4), (''entry_version'', 12, 4)]"
  "members lay_tag_module = [(''type'', 0, 4), (''size'', 4, 4), (''mod_start'', 8, 4), (''mod_end'', 12, 4), (''cmdline'', 16, 0)]"
  by code_simp+

text \<open>The first tag follows the information's head, every tag starts with its type and its size, and the offsets
  of \<^verbatim>\<open>cpu_local_t\<close> are those its comments give.\<close>

lemma head_members:
  "size_of lay_mb2_info = 8" "members lay_tag = take 2 (members lay_tag_module)" "members lay_tag = take 2 (members lay_tag_mmap)"
  "size_of lay_load_result = 8" "members lay_cpu_local = [(''kernel_rsp'', 0, 8), (''user_rsp_save'', 8, 8)]"
  by code_simp+


end
