(* ===== verification/Isr.thy ===== *)
theory Isr
  imports C_Layout Message_Props
begin

text \<open>
  The interrupt stubs, \<^verbatim>\<open>kernel/arch/x86_64/isr_stub.asm\<close>, as the instruction list of the source over the
  registers and a stack in memory: what the processor and the stub push is the frame the C dispatcher
  receives, and what the dispatcher leaves in the frame is what the interrupted code goes on with.
\<close>

section \<open>The machine\<close>

datatype reg = RAX | RBX | RCX | RDX | RSI | RDI | RBP | RSP | R8 | R9 | R10 | R11 | R12 | R13 | R14 | R15

record isr_machine =
  rg :: "reg \<Rightarrow> u64"
  ram :: memory
  m_rip :: u64
  m_cs :: u64
  m_rflags :: u64
  m_ss :: u64
  m_ds :: u16
  m_es :: u16

datatype instr = Push reg | Push_imm u64 | Pop reg | Mov_ax u16 | Mov_ds_ax | Mov_es_ax | Mov reg reg
  | Call_dispatch | Add_rsp u64 | Iretq

definition push64 :: "u64 \<Rightarrow> isr_machine \<Rightarrow> isr_machine" where
  "push64 v M = (let sp = rg M RSP - 8 in M\<lparr>rg := (rg M)(RSP := sp), ram := store64 (ram M) sp v\<rparr>)"

text \<open>
  The dispatcher is compiled C: given the pointer in \<^verbatim>\<open>rdi\<close> it turns the memory into \<open>h\<close> of it, and returns
  with the stack pointer it was called with; \<open>scratch\<close> is what it leaves in the other registers.
\<close>

fun exec :: "(u64 \<Rightarrow> memory \<Rightarrow> memory) \<Rightarrow> (reg \<Rightarrow> u64) \<Rightarrow> instr \<Rightarrow> isr_machine \<Rightarrow> isr_machine" where
  "exec h scratch (Push r) M = push64 (rg M r) M"
| "exec h scratch (Push_imm v) M = push64 v M"
| "exec h scratch (Pop r) M = M\<lparr>rg := (rg M)(RSP := rg M RSP + 8, r := load64 (ram M) (rg M RSP))\<rparr>"
| "exec h scratch (Mov_ax v) M = M\<lparr>rg := (rg M)(RAX := (rg M RAX AND NOT 0xFFFF) OR ucast v)\<rparr>"
| "exec h scratch Mov_ds_ax M = M\<lparr>m_ds := ucast (rg M RAX)\<rparr>"
| "exec h scratch Mov_es_ax M = M\<lparr>m_es := ucast (rg M RAX)\<rparr>"
| "exec h scratch (Mov d r) M = M\<lparr>rg := (rg M)(d := rg M r)\<rparr>"
| "exec h scratch Call_dispatch M = M\<lparr>rg := scratch(RSP := rg M RSP), ram := h (rg M RDI) (ram M)\<rparr>"
| "exec h scratch (Add_rsp n) M = M\<lparr>rg := (rg M)(RSP := rg M RSP + n)\<rparr>"
| "exec h scratch Iretq M =
     (let sp = rg M RSP; m = ram M in
      M\<lparr>m_rip := load64 m sp, m_cs := load64 m (sp + 8), m_rflags := load64 m (sp + 16), m_ss := load64 m (sp + 32),
        rg := (rg M)(RSP := load64 m (sp + 24))\<rparr>)"

section \<open>The stubs\<close>

definition has_error_code :: "u64 \<Rightarrow> bool" where
  "has_error_code n \<longleftrightarrow> n \<in> {8, 10, 11, 12, 13, 14, 17}"

definition isr_save :: "instr list" where
  "isr_save = [Push RAX, Push RBX, Push RCX, Push RDX, Push RSI, Push RDI, Push RBP, Push R8, Push R9, Push R10, Push R11,
     Push R12, Push R13, Push R14, Push R15, Mov_ax 0x10, Mov_ds_ax, Mov_es_ax, Mov RDI RSP]"

definition isr_restore :: "instr list" where
  "isr_restore = [Pop R15, Pop R14, Pop R13, Pop R12, Pop R11, Pop R10, Pop R9, Pop R8, Pop RBP, Pop RDI, Pop RSI, Pop RDX,
     Pop RCX, Pop RBX, Pop RAX, Add_rsp 16, Iretq]"

definition isr_stub :: "u64 \<Rightarrow> instr list" where
  "isr_stub n = (if has_error_code n then [Push_imm n] else [Push_imm 0, Push_imm n]) @ isr_save"

text \<open>
  The interrupt itself: the processor switches to the stack \<open>stk\<close> and pushes where it was, and for some
  exceptions an error code.
\<close>

definition take_interrupt :: "u64 \<Rightarrow> u64 option \<Rightarrow> isr_machine \<Rightarrow> isr_machine" where
  "take_interrupt stk err M =
     (let M1 = push64 (m_rip M) (push64 (m_cs M) (push64 (m_rflags M) (push64 (rg M RSP) (push64 (m_ss M)
                 (M\<lparr>rg := (rg M)(RSP := stk)\<rparr>)))))
      in (case err of None \<Rightarrow> M1 | Some e \<Rightarrow> push64 e M1))"

definition at_dispatch :: "u64 \<Rightarrow> u64 option \<Rightarrow> u64 \<Rightarrow> isr_machine \<Rightarrow> isr_machine" where
  "at_dispatch stk err n M = fold (exec (\<lambda>_ m. m) (\<lambda>_. 0)) (isr_stub n) (take_interrupt stk err M)"

definition isr_run :: "(u64 \<Rightarrow> memory \<Rightarrow> memory) \<Rightarrow> (reg \<Rightarrow> u64) \<Rightarrow> u64 \<Rightarrow> u64 option \<Rightarrow> u64 \<Rightarrow> isr_machine \<Rightarrow> isr_machine" where
  "isr_run h scratch stk err n M = fold (exec h scratch) (Call_dispatch # isr_restore) (at_dispatch stk err n M)"

text \<open>The frame as the C code reads it, by the layout of \<^verbatim>\<open>interrupt_frame_t\<close>, and the frame of a machine.\<close>

definition frame_at :: "memory \<Rightarrow> u64 \<Rightarrow> interrupt_frame" where
  "frame_at m a = (let g = field m a lay_interrupt_frame in
     \<lparr>f_r15 = g ''r15'', f_r14 = g ''r14'', f_r13 = g ''r13'', f_r12 = g ''r12'', f_r11 = g ''r11'', f_r10 = g ''r10'',
      f_r9 = g ''r9'', f_r8 = g ''r8'', f_rbp = g ''rbp'', f_rdi = g ''rdi'', f_rsi = g ''rsi'', f_rdx = g ''rdx'',
      f_rcx = g ''rcx'', f_rbx = g ''rbx'', f_rax = g ''rax'', int_no = g ''int_no'', err_code = g ''err_code'',
      f_rip = g ''rip'', f_cs = g ''cs'', f_rflags = g ''rflags'', f_rsp = g ''rsp'', f_ss = g ''ss''\<rparr>)"

definition frame_of :: "isr_machine \<Rightarrow> u64 \<Rightarrow> u64 option \<Rightarrow> interrupt_frame" where
  "frame_of M n err =
     \<lparr>f_r15 = rg M R15, f_r14 = rg M R14, f_r13 = rg M R13, f_r12 = rg M R12, f_r11 = rg M R11, f_r10 = rg M R10,
      f_r9 = rg M R9, f_r8 = rg M R8, f_rbp = rg M RBP, f_rdi = rg M RDI, f_rsi = rg M RSI, f_rdx = rg M RDX,
      f_rcx = rg M RCX, f_rbx = rg M RBX, f_rax = rg M RAX, int_no = n, err_code = (case err of None \<Rightarrow> 0 | Some e \<Rightarrow> e),
      f_rip = m_rip M, f_cs = m_cs M, f_rflags = m_rflags M, f_rsp = rg M RSP, f_ss = m_ss M\<rparr>"

text \<open>The machine that goes on with the registers of a frame.\<close>

definition resumes :: "isr_machine \<Rightarrow> interrupt_frame \<Rightarrow> bool" where
  "resumes M fr \<longleftrightarrow> frame_of M (int_no fr) (Some (err_code fr)) = fr"

section \<open>Pushing and reading back\<close>

definition pushes :: "u64 list \<Rightarrow> u64 \<Rightarrow> memory \<Rightarrow> memory" where
  "pushes vs stk m = fst (fold (\<lambda>v (m, sp). (store64 m (sp - 8) v, sp - 8)) vs (m, stk))"

lemma pushes_Nil [simp]: "pushes [] stk m = m"
  by (simp add: pushes_def)

lemma pushes_Cons [simp]: "pushes (v # vs) stk m = pushes vs (stk - 8) (store64 m (stk - 8) v)"
  by (simp add: pushes_def)

lemma aligned8_minus:
  assumes "aligned8 sp" "8 \<le> unat sp"
  shows "unat (sp - 8) = unat sp - 8" "aligned8 (sp - 8)"
proof -
  show "unat (sp - 8) = unat sp - 8" using assms(2) by (subst unat_sub) (simp_all add: word_le_nat_alt)
  then show "aligned8 (sp - 8)" using assms by (auto simp: aligned8_def intro: dvd_diff_nat)
qed

lemma load64_pushes_other:
  assumes "aligned8 stk" "8 * length vs \<le> unat stk" "aligned8 a" "unat stk \<le> unat a"
  shows "load64 (pushes vs stk m) a = load64 m a"
  using assms
proof (induction vs arbitrary: stk m)
  case (Cons v vs)
  note u = aligned8_minus [of stk]
  have "unat (stk - 8) < unat a" using u(1) Cons.prems(1,2,4) by simp
  then have "a \<noteq> stk - 8" by blast
  then show ?case using Cons u by (simp add: load64_store64_other)
qed simp

lemma load64_pushes:
  assumes "aligned8 stk" "8 * length vs \<le> unat stk" "i < length vs"
  shows "load64 (pushes vs stk m) (stk - 8 * of_nat (length vs) + 8 * of_nat i) = rev vs ! i"
  using assms
proof (induction vs arbitrary: stk m)
  case (Cons v vs)
  note u = aligned8_minus [of stk]
  have t: "stk - 8 * of_nat (length (v # vs)) = (stk - 8) - 8 * of_nat (length vs)" by (simp add: algebra_simps)
  show ?case
  proof (cases "i = length vs")
    case True
    then have "stk - 8 * of_nat (length (v # vs)) + 8 * of_nat i = stk - 8" by (simp add: algebra_simps)
    then show ?thesis using True Cons.prems u by (simp add: load64_pushes_other nth_append)
  next
    case False
    then show ?thesis unfolding t using Cons u by (simp add: nth_append)
  qed
qed simp

section \<open>Entry and return\<close>

lemma frame_members:
  "members lay_interrupt_frame = [(''r15'', 0, 8), (''r14'', 8, 8), (''r13'', 16, 8), (''r12'', 24, 8), (''r11'', 32, 8),
     (''r10'', 40, 8), (''r9'', 48, 8), (''r8'', 56, 8), (''rbp'', 64, 8), (''rdi'', 72, 8), (''rsi'', 80, 8), (''rdx'', 88, 8),
     (''rcx'', 96, 8), (''rbx'', 104, 8), (''rax'', 112, 8), (''int_no'', 120, 8), (''err_code'', 128, 8), (''rip'', 136, 8),
     (''cs'', 144, 8), (''rflags'', 152, 8), (''rsp'', 160, 8), (''ss'', 168, 8)]"
  by code_simp

lemma frame_at_words:
  "frame_at m a = \<lparr>f_r15 = load64 m a, f_r14 = load64 m (a + 8), f_r13 = load64 m (a + 16), f_r12 = load64 m (a + 24),
     f_r11 = load64 m (a + 32), f_r10 = load64 m (a + 40), f_r9 = load64 m (a + 48), f_r8 = load64 m (a + 56),
     f_rbp = load64 m (a + 64), f_rdi = load64 m (a + 72), f_rsi = load64 m (a + 80), f_rdx = load64 m (a + 88),
     f_rcx = load64 m (a + 96), f_rbx = load64 m (a + 104), f_rax = load64 m (a + 112), int_no = load64 m (a + 120),
     err_code = load64 m (a + 128), f_rip = load64 m (a + 136), f_cs = load64 m (a + 144), f_rflags = load64 m (a + 152),
     f_rsp = load64 m (a + 160), f_ss = load64 m (a + 168)\<rparr>"
  by (simp add: frame_at_def field_def frame_members Let_def load64_def)

text \<open>The 22 words on the stack, from the first pushed to the last.\<close>

definition frame_words :: "isr_machine \<Rightarrow> u64 \<Rightarrow> u64 option \<Rightarrow> u64 list" where
  "frame_words M n err =
     [m_ss M, rg M RSP, m_rflags M, m_cs M, m_rip M, (case err of None \<Rightarrow> 0 | Some e \<Rightarrow> e), n] @
     map (rg M) [RAX, RBX, RCX, RDX, RSI, RDI, RBP, R8, R9, R10, R11, R12, R13, R14, R15]"

abbreviation saved :: "reg list" where
  "saved \<equiv> [RAX, RBX, RCX, RDX, RSI, RDI, RBP, R8, R9, R10, R11, R12, R13, R14, R15]"

lemma pushes_append: "pushes (vs @ ws) sp m = pushes ws (sp - 8 * of_nat (length vs)) (pushes vs sp m)"
  by (induction vs arbitrary: sp m) (simp_all add: algebra_simps)

lemma push64_list:
  "fold push64 vs M = M\<lparr>rg := (rg M)(RSP := rg M RSP - 8 * of_nat (length vs)), ram := pushes vs (rg M RSP) (ram M)\<rparr>"
  by (induction vs arbitrary: M) (simp_all add: push64_def Let_def algebra_simps)

lemma exec_push_list:
  "RSP \<notin> set rs \<Longrightarrow> fold (exec h scratch) (map Push rs) M = fold push64 (map (rg M) rs) M"
proof (induction rs arbitrary: M)
  case (Cons r rs)
  then have e: "map (rg (push64 (rg M r) M)) rs = map (rg M) rs" by (auto simp: push64_def Let_def)
  have "fold (exec h scratch) (map Push rs) (push64 (rg M r) M) = fold push64 (map (rg (push64 (rg M r) M)) rs) (push64 (rg M r) M)"
    using Cons.prems by (intro Cons.IH) simp
  then show ?case unfolding e by simp
qed simp

lemma isr_save_eq: "isr_save = map Push saved @ [Mov_ax 0x10, Mov_ds_ax, Mov_es_ax, Mov RDI RSP]"
  by (simp add: isr_save_def)

text \<open>The stack pointer where the stub begins to save registers, and what is on the stack by then.\<close>

lemma before_save:
  assumes "(err \<noteq> None) = has_error_code n"
  shows "\<exists>imm. isr_stub n = imm @ isr_save \<and> fold (exec h scratch) imm (take_interrupt stk err M) =
    fold push64 [m_ss M, rg M RSP, m_rflags M, m_cs M, m_rip M, (case err of None \<Rightarrow> 0 | Some e \<Rightarrow> e), n] (M\<lparr>rg := (rg M)(RSP := stk)\<rparr>)"
  using assms by (cases err) (auto simp: isr_stub_def take_interrupt_def Let_def)

lemma low16: "ucast ((x AND - 65536) OR 16 :: u64) = (16 :: u16)"
proof -
  have z: "(18446744073709486080 :: u16) = 0" by simp
  have e: "ucast ((x AND - 65536) OR 16 :: u64) = (ucast x AND 18446744073709486080 OR 16 :: u16)"
    by (simp add: unsigned_or_eq unsigned_and_eq)
  show ?thesis unfolding e z by simp
qed

lemma at_dispatch_shape:
  assumes "(err \<noteq> None) = has_error_code n"
  shows "ram (at_dispatch stk err n M) = pushes (frame_words M n err) stk (ram M)"
    "rg (at_dispatch stk err n M) RDI = stk - 176" "rg (at_dispatch stk err n M) RSP = stk - 176"
    "m_ds (at_dispatch stk err n M) = 0x10" "m_es (at_dispatch stk err n M) = 0x10"
proof -
  let ?w = "[m_ss M, rg M RSP, m_rflags M, m_cs M, m_rip M, (case err of None \<Rightarrow> 0 | Some e \<Rightarrow> e), n]"
  let ?N = "fold push64 ?w (M\<lparr>rg := (rg M)(RSP := stk)\<rparr>)"
  have N: "map (rg ?N) saved = map (rg M) saved" "rg ?N RSP = stk - 56" "ram ?N = pushes ?w stk (ram M)"
    unfolding push64_list by simp_all
  let ?P = "fold push64 (map (rg M) saved) ?N"
  have P: "rg ?P RSP = stk - 176" "ram ?P = pushes (frame_words M n err) stk (ram M)"
    unfolding push64_list [of "map (rg M) saved"] frame_words_def pushes_append using N by simp_all
  let ?e = "exec (\<lambda>_ m. m) (\<lambda>_. 0)" and ?tail = "[Mov_ax 0x10, Mov_ds_ax, Mov_es_ax, Mov RDI RSP]"
  obtain imm where imm: "isr_stub n = imm @ isr_save" "fold ?e imm (take_interrupt stk err M) = ?N"
    using before_save [OF assms] by blast
  have "RSP \<notin> set saved" by simp
  then have "fold ?e (map Push saved) ?N = ?P" unfolding N(1) [symmetric] by (rule exec_push_list)
  then have at: "at_dispatch stk err n M = fold ?e ?tail ?P"
    unfolding at_dispatch_def imm(1) isr_save_eq by (simp only: fold_append o_apply imm(2))
  have tail: "fold ?e ?tail Q = Q\<lparr>rg := (rg Q)(RAX := (rg Q RAX AND NOT 0xFFFF) OR 0x10, RDI := rg Q RSP), m_ds := 0x10, m_es := 0x10\<rparr>" for Q
    by (simp add: low16)
  then show "ram (at_dispatch stk err n M) = pushes (frame_words M n err) stk (ram M)"
    "rg (at_dispatch stk err n M) RDI = stk - 176" "rg (at_dispatch stk err n M) RSP = stk - 176"
    "m_ds (at_dispatch stk err n M) = 0x10" "m_es (at_dispatch stk err n M) = 0x10"
    unfolding at tail using P by simp_all
qed

lemma frame_at_nth:
  assumes "\<And>i. i < 22 \<Longrightarrow> load64 m (a + 8 * of_nat i) = ws ! i"
  shows "frame_at m a = \<lparr>f_r15 = ws ! 0, f_r14 = ws ! 1, f_r13 = ws ! 2, f_r12 = ws ! 3, f_r11 = ws ! 4, f_r10 = ws ! 5,
     f_r9 = ws ! 6, f_r8 = ws ! 7, f_rbp = ws ! 8, f_rdi = ws ! 9, f_rsi = ws ! 10, f_rdx = ws ! 11, f_rcx = ws ! 12,
     f_rbx = ws ! 13, f_rax = ws ! 14, int_no = ws ! 15, err_code = ws ! 16, f_rip = ws ! 17, f_cs = ws ! 18,
     f_rflags = ws ! 19, f_rsp = ws ! 20, f_ss = ws ! 21\<rparr>"
  using assms [of 0] assms [of 1] assms [of 2] assms [of 3] assms [of 4] assms [of 5] assms [of 6] assms [of 7] assms [of 8]
    assms [of 9] assms [of 10] assms [of 11] assms [of 12] assms [of 13] assms [of 14] assms [of 15] assms [of 16] assms [of 17]
    assms [of 18] assms [of 19] assms [of 20] assms [of 21]
  by (simp add: frame_at_words)

lemma frame_on_stack:
  assumes "aligned8 stk" "176 \<le> unat stk"
  shows "frame_at (pushes (frame_words M n err) stk m) (stk - 176) = frame_of M n err"
proof -
  have "load64 (pushes (frame_words M n err) stk m) (stk - 176 + 8 * of_nat i) = rev (frame_words M n err) ! i" if "i < 22" for i
    using load64_pushes [OF assms(1), of "frame_words M n err" i m] assms(2) that by (simp add: frame_words_def)
  from frame_at_nth [OF this] show ?thesis by (simp add: frame_words_def frame_of_def)
qed

lemma exec_pop_list:
  assumes "distinct rs" "RSP \<notin> set rs"
  shows "ram (fold (exec h scratch) (map Pop rs) M) = ram M"
    "rg (fold (exec h scratch) (map Pop rs) M) RSP = rg M RSP + 8 * of_nat (length rs)"
    "\<And>i. i < length rs \<Longrightarrow> rg (fold (exec h scratch) (map Pop rs) M) (rs ! i) = load64 (ram M) (rg M RSP + 8 * of_nat i)"
    "\<And>r. r \<notin> set rs \<Longrightarrow> r \<noteq> RSP \<Longrightarrow> rg (fold (exec h scratch) (map Pop rs) M) r = rg M r"
    "m_ds (fold (exec h scratch) (map Pop rs) M) = m_ds M" "m_es (fold (exec h scratch) (map Pop rs) M) = m_es M"
  using assms
proof (induction rs arbitrary: M)
  case (Cons r rs)
  { case (1 N) then show ?case using Cons.IH(1) [where M = "exec h scratch (Pop r) N"] by simp }
  { case (2 N) then show ?case using Cons.IH(2) [where M = "exec h scratch (Pop r) N"] by (simp add: algebra_simps) }
  { case (3 i N) then show ?case using Cons.IH(3) [where M = "exec h scratch (Pop r) N" and i = "i - 1"] Cons.IH(4) [where M = "exec h scratch (Pop r) N" and r = r]
      by (cases i) (auto simp: algebra_simps) }
  { case (4 q N) then show ?case using Cons.IH(4) [where M = "exec h scratch (Pop r) N" and r = q] by simp }
  { case (5 N) then show ?case using Cons.IH(5) [where M = "exec h scratch (Pop r) N"] by simp }
  { case (6 N) then show ?case using Cons.IH(6) [where M = "exec h scratch (Pop r) N"] by simp }
qed simp_all

lemma isr_restore_eq: "isr_restore = map Pop (rev saved) @ [Add_rsp 16, Iretq]"
  by (simp add: isr_restore_def)

lemma isr_run_resumes:
  assumes "(err \<noteq> None) = has_error_code n" and m: "m = h (stk - 176) (ram (at_dispatch stk err n M))"
  shows "resumes (isr_run h scratch stk err n M) (frame_at m (stk - 176))"
    "m_ds (isr_run h scratch stk err n M) = 0x10" "m_es (isr_run h scratch stk err n M) = 0x10"
proof -
  let ?E = "at_dispatch stk err n M" and ?rs = "rev saved"
  let ?C = "?E\<lparr>rg := scratch(RSP := stk - 176), ram := m\<rparr>"
  let ?Q = "fold (exec h scratch) (map Pop ?rs) ?C"
  note at = at_dispatch_shape [OF assms(1), of stk M]
  have "isr_run h scratch stk err n M = fold (exec h scratch) (map Pop ?rs @ [Add_rsp 16, Iretq]) (exec h scratch Call_dispatch ?E)"
    unfolding isr_run_def isr_restore_eq by (simp only: fold_simps)
  also have "exec h scratch Call_dispatch ?E = ?C" using at(2,3) m by simp
  finally have run: "isr_run h scratch stk err n M = exec h scratch Iretq (exec h scratch (Add_rsp 16) ?Q)"
    unfolding fold_append o_apply by (simp only: fold_simps)
  have "distinct ?rs" "RSP \<notin> set ?rs" by simp_all
  note Q = exec_pop_list [OF this, where h = h and scratch = scratch and M = ?C]
  have sp: "rg ?Q RSP = stk - 56" "ram ?Q = m" unfolding Q by simp_all
  have reg: "rg ?Q (?rs ! i) = load64 m (stk - 176 + 8 * of_nat i)" if "i < 15" for i using Q(3) [of i] that by simp
  define q where "q = rg ?Q"
  have "\<forall>i<15. q (?rs ! i) = load64 m (stk - 176 + 8 * of_nat i)" using reg by (simp add: q_def)
  then have regs: "q R15 = load64 m (stk - 176)" "q R14 = load64 m (stk - 168)" "q R13 = load64 m (stk - 160)"
    "q R12 = load64 m (stk - 152)" "q R11 = load64 m (stk - 144)" "q R10 = load64 m (stk - 136)" "q R9 = load64 m (stk - 128)"
    "q R8 = load64 m (stk - 120)" "q RBP = load64 m (stk - 112)" "q RDI = load64 m (stk - 104)" "q RSI = load64 m (stk - 96)"
    "q RDX = load64 m (stk - 88)" "q RCX = load64 m (stk - 80)" "q RBX = load64 m (stk - 72)" "q RAX = load64 m (stk - 64)"
    by (simp_all add: eval_nat_numeral All_less_Suc)
  show "resumes (isr_run h scratch stk err n M) (frame_at m (stk - 176))"
    unfolding run resumes_def frame_at_words by (simp add: sp frame_of_def Let_def regs flip: q_def)
  show "m_ds (isr_run h scratch stk err n M) = 0x10" "m_es (isr_run h scratch stk err n M) = 0x10"
    unfolding run using Q(5,6) at(4,5) by (simp_all add: Let_def)
qed

lemma interrupt_dispatch_returns:
  "interrupt_dispatch resume fr s = Some (Inr (fr', s')) \<Longrightarrow> fr' = (if int_no fr = 0x80 then fr\<lparr>f_rax := f_rax fr'\<rparr> else fr)"
  by (auto simp: interrupt_dispatch_def Let_def split: if_splits option.splits)

lemma resumes_frame:
  assumes "resumes M' fr" "int_no fr = n" "err_code fr = err_code (frame_of M n err)"
  shows "frame_of M' n err = fr"
  using assms by (cases err) (auto simp: resumes_def frame_of_def)

text \<open>C16. Through the stub the interrupted code is resumed as it was: the dispatcher receives a pointer to a
  frame that holds all registers of the interrupted code, with the vector and the error code; and if it
  returns, having written its frame back, every register has its old value, except that \<^verbatim>\<open>rax\<close> holds the
  result of a system call.  The selectors \<^verbatim>\<open>ds\<close> and \<^verbatim>\<open>es\<close> are not restored: they are the kernel's.\<close>

theorem isr_roundtrip:
  assumes "(err \<noteq> None) = has_error_code n" "aligned8 stk" "176 \<le> unat stk"
  shows "frame_at (ram (at_dispatch stk err n M)) (rg (at_dispatch stk err n M) RDI) = frame_of M n err \<and>
    (\<forall>fr s'. interrupt_dispatch resume (frame_of M n err) s = Some (Inr (fr, s')) \<and>
       (\<forall>m. frame_at m (stk - 176) = frame_of M n err \<longrightarrow> frame_at (h (stk - 176) m) (stk - 176) = fr) \<longrightarrow>
       (let M' = isr_run h scratch stk err n M in
          (\<forall>r. rg M' r = (if n = 0x80 \<and> r = RAX then f_rax fr else rg M r)) \<and> m_rip M' = m_rip M \<and> m_cs M' = m_cs M \<and>
          m_rflags M' = m_rflags M \<and> m_ss M' = m_ss M \<and> m_ds M' = 0x10 \<and> m_es M' = 0x10))"
proof -
  let ?E = "at_dispatch stk err n M" and ?M' = "isr_run h scratch stk err n M"
  note at = at_dispatch_shape [OF assms(1), of stk M]
  have f: "frame_at (ram ?E) (stk - 176) = frame_of M n err" unfolding at(1) by (rule frame_on_stack [OF assms(2,3)])
  have "(\<forall>r. rg ?M' r = (if n = 0x80 \<and> r = RAX then f_rax fr else rg M r)) \<and> m_rip ?M' = m_rip M \<and> m_cs ?M' = m_cs M \<and>
      m_rflags ?M' = m_rflags M \<and> m_ss ?M' = m_ss M \<and> m_ds ?M' = 0x10 \<and> m_es ?M' = 0x10"
    if d: "interrupt_dispatch resume (frame_of M n err) s = Some (Inr (fr, s'))"
      and h: "\<forall>m. frame_at m (stk - 176) = frame_of M n err \<longrightarrow> frame_at (h (stk - 176) m) (stk - 176) = fr" for fr s'
  proof -
    note R = isr_run_resumes [OF assms(1) refl, of h scratch stk M]
    let ?F = "frame_of M n err"
    have r: "resumes ?M' fr" using R(1) h f by simp
    have e: "fr = ?F\<lparr>f_rax := (if n = 0x80 then f_rax fr else rg M RAX)\<rparr>"
      using interrupt_dispatch_returns [OF d] by (auto simp: frame_of_def split: if_splits)
    have "int_no fr = n" "err_code fr = err_code ?F"
      using arg_cong [OF e, of int_no] arg_cong [OF e, of err_code] by (simp_all add: frame_of_def)
    with r have "frame_of ?M' n err = fr" by (rule resumes_frame)
    with e have g: "frame_of ?M' n err = ?F\<lparr>f_rax := (if n = 0x80 then f_rax fr else rg M RAX)\<rparr>" by simp
    from g have "rg ?M' r = (if n = 0x80 \<and> r = RAX then f_rax fr else rg M r)" for r
      by (cases r) (simp_all add: frame_of_def)
    then show ?thesis using R(2,3) g by (simp add: frame_of_def)
  qed
  then show ?thesis using f at(2) by (simp add: Let_def)
qed

text \<open>A program of process 1 asks for its number: \<^verbatim>\<open>int 0x80\<close> with 20 in \<^verbatim>\<open>rax\<close>.\<close>

definition asking :: isr_machine where
  "asking = \<lparr>rg = (\<lambda>r. 0x7000)(RAX := 20, RBX := 5), ram = (\<lambda>_. 0), m_rip = 0x400002, m_cs = 0x2B, m_rflags = 0x202,
     m_ss = 0x23, m_ds = 0, m_es = 0\<rparr>"

theorem isr_roundtrip_witness:
  "let M' = isr_run (\<lambda>a m. store64 m (a + 112) 1) (\<lambda>_. 0) 0x9000 None 0x80 asking in
    rg M' RAX = 1 \<and> rg M' RBX = 5 \<and> m_rip M' = 0x400002 \<and> m_ds M' = 0x10"
proof -
  let ?f = "frame_of asking 0x80 None"
  have "interrupt_dispatch (\<lambda>_ _. None) ?f duo = Some (Inr (?f\<lparr>f_rax := 1\<rparr>, duo))"
    by (simp add: interrupt_dispatch_def frame_of_def asking_def syscall_handler_def duo_fields duo_proc)
  moreover have "frame_at (store64 m (0x8F50 + 112) 1) 0x8F50 = (frame_at m 0x8F50)\<lparr>f_rax := 1\<rparr>" for m
    by (simp add: frame_at_words load64_store64 aligned8_def)
  ultimately show ?thesis
    using isr_roundtrip [of None "0x80" "0x9000" asking "\<lambda>_ _. None" duo "\<lambda>a m. store64 m (a + 112) 1" "\<lambda>_. 0"]
    by (simp add: has_error_code_def aligned8_def Let_def frame_of_def asking_def)
qed

end
