(* ===== verification/Proc_Entry.thy ===== *)
theory Proc_Entry
  imports Process_Props
begin

text \<open>
  How a process starts and ends: \<^verbatim>\<open>kernel/proc/proc_entry.asm\<close>, the code that \<^verbatim>\<open>switch_context\<close> returns to when
  a process that \<^verbatim>\<open>proc_create\<close> made runs for the first time.
\<close>

text \<open>
  \<open>code a rdi\<close> is the compiled C function at the address \<open>a\<close>, \<open>None\<close> if it does not return.  The result is the
  state in which the \<^verbatim>\<open>hlt\<close> loop behind \<^verbatim>\<open>proc_exit\<close> would be reached, or another process runs.
\<close>

definition proc_entry :: "(u64 \<Rightarrow> u64 \<Rightarrow> 'a sched_state_scheme \<Rightarrow> 'a sched_state_scheme option) \<Rightarrow>
    'a sched_state_scheme \<Rightarrow> 'a sched_state_scheme option" where
  "proc_entry code s =
     (let entry = r12 (cpu s); rdi = entry; s1 = sti s
      in Option.bind (code entry rdi s1) (\<lambda>s2. Some (proc_exit 0 s2)))"

lemma heap_fields_frame [simp]:
  "heap_ptr (kprintf f xs s) = heap_ptr s" "blocks (kprintf f xs s) = blocks s"
  "heap_ptr (set_proc i g u) = heap_ptr u" "blocks (set_proc i g u) = blocks u"
  by (simp_all add: kprintf_def set_proc_def)

lemma first_dispatch:
  assumes "run_inv t" "current_proc t \<noteq> Some i" "current_proc (schedule t) = Some i"
  shows "cpu (schedule t) = (p_context (proc_at i t))\<lparr>rsp := rsp (p_context (proc_at i t)) + 8\<rparr>"
    "blocks (schedule t) = store_over_header (rsp (p_context (proc_at i t))) (rip (p_context (proc_at i t))) (blocks t)"
proof -
  obtain c where c: "current_proc t = Some c" using assms(2,3) by (cases "current_proc t") (auto simp: schedule_def)
  from assms(1) c have "cpu (schedule t) = (p_context (proc_at i t))\<lparr>rsp := rsp (p_context (proc_at i t)) + 8\<rparr> \<and>
    blocks (schedule t) = store_over_header (rsp (p_context (proc_at i t))) (rip (p_context (proc_at i t))) (blocks t)"
  proof (cases rule: schedule_cases)
    case idle
    then show ?thesis using assms(2,3) by simp
  next
    case (switch j)
    have len: "c < length (proc_table t)" "j < length (proc_table t)"
      using run_inv_current [OF assms(1) c] run_inv_length [OF assms(1)] switch(1) by simp_all
    have ji: "j = i" "i \<noteq> c" using assms(2,3) c switch(5) by simp_all
    let ?u = "preempt c t"
    define s2 where "s2 = set_proc i (\<lambda>p. p\<lparr>state := PROC_RUNNING\<rparr>) (?u\<lparr>current_proc := Some i\<rparr>)"
    define s3 where "s3 = gdt_set_tss_rsp0 (kernel_rsp (proc_at i s2)) s2"
    define s4 where "s4 = (if is_user (proc_at i s3) \<and> \<not> started (proc_at i s3)
                then set_proc i (\<lambda>p. p\<lparr>started := True\<rparr>) s3 else s3)"
    have d: "schedule t = switch_context c i s4"
      unfolding switch(5) ji(1) by (simp only: dispatch_def Let_def s2_def s3_def s4_def)
    have l: "length (proc_table s4) = length (proc_table t)" by (simp add: s4_def s3_def s2_def preempt_def)
    have x: "p_context (proc_at i s4) = p_context (proc_at i t)"
      using len ji by (simp add: s4_def s3_def s2_def proc_at_set_proc preempt_proc)
    have b: "blocks s4 = blocks t"
      by (simp add: s4_def s3_def s2_def preempt_def gdt_set_tss_rsp0_def)
    show ?thesis unfolding d using len ji x l b by (simp add: switch_context_def Let_def proc_at_set_proc)
  qed
  then show "cpu (schedule t) = (p_context (proc_at i t))\<lparr>rsp := rsp (p_context (proc_at i t)) + 8\<rparr>"
    "blocks (schedule t) = store_over_header (rsp (p_context (proc_at i t))) (rip (p_context (proc_at i t))) (blocks t)" by blast+
qed

lemma exit_current:
  assumes "run_inv s" "current_proc s = Some i"
  shows "state (proc_at i (proc_exit code s)) = PROC_ZOMBIE" "exit_code (proc_at i (proc_exit code s)) = code"
proof -
  let ?t = "set_proc i (\<lambda>p. p\<lparr>state := PROC_ZOMBIE, exit_code := code\<rparr>) s"
  have i: "i < length (proc_table s)" using run_inv_current [OF assms] by simp
  then have t: "proc_at i ?t = (proc_at i s)\<lparr>state := PROC_ZOMBIE, exit_code := code\<rparr>" by (simp add: proc_at_set_proc)
  have r: "run_inv (kprintf f xs ?t)" for f xs
    unfolding run_inv_kprintf by (rule run_inv_set_proc [OF assms(1)]) simp_all
  have cu: "current_proc (kprintf f xs ?t) = Some i" for f xs using assms(2) by simp
  have e: "proc_exit code s = schedule (kprintf ''[PROC] pid=%d exited code=%d
'' [Num (scast (pid (proc_at i ?t))), Num (scast code)] ?t)" using assms(2) by (simp only: proc_exit_def option.case Let_def)
  show "exit_code (proc_at i (proc_exit code s)) = code" unfolding e using r t by simp
  have "state (proc_at i (schedule (kprintf f xs ?t))) = PROC_ZOMBIE" for f xs
    using r [of f xs] cu [of f xs]
  proof (cases rule: schedule_cases)
    case idle
    then show ?thesis using t by simp
  next
    case (switch j)
    then show ?thesis using schedule_state [OF r cu switch(5,1), of i] t by auto
  qed
  then show "state (proc_at i (proc_exit code s)) = PROC_ZOMBIE" unfolding e .
qed

text \<open>C24. A process that \<^verbatim>\<open>proc_create\<close> made starts where it should: the first time the scheduler picks it, the
  processor goes to the entry stub on the process's stack; the stub calls the function the process was
  created for with interrupts enabled; and when that returns with the process still current, the process
  is a ZOMBIE with exit code 0.\<close>

theorem process_starts:
  assumes "kernel_inv s" "proc_create nm entry s = Some (Some i, s')"
    and "run_inv t" "proc_at i t = proc_at i s'" "current_proc t \<noteq> Some i" "current_proc (schedule t) = Some i"
  shows "rip (cpu (schedule t)) = proc_entrypoint s \<and> rsp (cpu (schedule t)) = kernel_rsp (proc_at i s') + 8 \<and>
    iflag (sti (schedule t)) \<and>
    (\<forall>code v. code entry entry (sti (schedule t)) = Some v \<and> run_inv v \<and> current_proc v = Some i \<longrightarrow>
       (\<exists>w. proc_entry code (schedule t) = Some w \<and> state (proc_at i w) = PROC_ZOMBIE \<and> exit_code (proc_at i w) = 0))"
proof -
  have i: "run_inv s" "pid_inv s" "heap_inv s" using assms(1) by (auto simp: kernel_inv_def)
  obtain stk where "proc_at i s' = init_process entry (proc_entrypoint s) (stk + KSTACK_SIZE) (next_pid s) (cur_pid s) nm (proc_at i s)"
    by (rule proc_create_spec [OF i, of nm entry]) (use assms(2) in auto)
  then have c: "rip (p_context (proc_at i t)) = proc_entrypoint s" "r12 (p_context (proc_at i t)) = entry"
    "rsp (p_context (proc_at i t)) = kernel_rsp (proc_at i s')"
    unfolding assms(4) by (simp_all add: init_process_def)
  note d = first_dispatch [OF assms(3,5,6)]
  have "r12 (cpu (sti (schedule t))) = entry" "iflag (sti (schedule t))" by (simp_all add: sti_def d c)
  then show ?thesis unfolding proc_entry_def Let_def using exit_current [of _ i 0] d c by auto
qed

section \<open>The first switch and the heap\<close>

text \<open>No block is ever free, so every stack comes fresh from the end of the heap.\<close>

lemma no_fit:
  assumes "heap_list held s bs"
  shows "first_fit s bs n = None"
proof -
  have "\<not> fits (blocks s) (ALIGN_UP n 16) a" if a: "a \<in> set bs" for a
  proof -
    obtain b k where "blocks s a = Some b" "held b k" by (rule heap_list_member [OF assms a])
    then show ?thesis by (simp add: fits_def held_def)
  qed
  then show ?thesis by (auto simp: first_fit_def find_None_iff)
qed

lemma proc_create_grows:
  assumes "kernel_inv s" "proc_create nm entry s = Some (Some i, s')"
  shows "rsp (p_context (proc_at i s')) = heap_ptr s'" "rip (p_context (proc_at i s')) = proc_entrypoint s"
    "kernel_rsp (proc_at i s') = heap_ptr s'"
    "\<exists>b. blocks s' (heap_ptr s) = Some b \<and> hb_size b = KSTACK_SIZE"
proof -
  have inv: "run_inv s" "heap_inv s" using assms(1) by (auto simp: kernel_inv_def)
  obtain bs where h: "heap_list held s bs" using inv(2) by (auto simp: heap_with_def)
  obtain stk s1 where k: "kmalloc KSTACK_SIZE s = Some (stk, s1)"
    using assms(2) by (auto simp: proc_create_def split: option.splits)
  have f: "alloc_proc s = Some i" "stk \<noteq> 0" "heap_ptr s' = heap_ptr s1" "blocks s' = blocks s1"
    using assms(2) k by (auto simp: proc_create_def Let_def split: option.splits if_splits)
  have len: "i < length (proc_table s1)"
    using alloc_proc_Some(1) [OF f(1)] run_inv_length [OF inv(1)] heap_more_sched(1) [OF kmalloc_more(1) [OF k]] by simp
  have fr: "proc_entrypoint s1 = proc_entrypoint s" using heap_more_sched [OF kmalloc_more(1) [OF k]] by simp
  have p: "rsp (p_context (proc_at i s')) = stk + KSTACK_SIZE" "rip (p_context (proc_at i s')) = proc_entrypoint s"
    "kernel_rsp (proc_at i s') = stk + KSTACK_SIZE"
    using assms(2) k f(1,2) len by (auto simp: proc_create_def Let_def proc_at_set_proc init_process_def)
  have al: "ALIGN_UP KSTACK_SIZE 16 = KSTACK_SIZE" by (simp add: ALIGN_UP_def)
  have "KSTACK_SIZE \<noteq> 0" "unat KSTACK_SIZE \<le> 2 ^ 63" by simp_all
  with h have "stk + KSTACK_SIZE = heap_ptr s1 \<and> (\<exists>b. blocks s1 (heap_ptr s) = Some b \<and> hb_size b = KSTACK_SIZE)"
  proof (cases rule: kmalloc_cases)
    case (reuse a)
    then show ?thesis using no_fit [OF h] by simp
  next
    case full
    then show ?thesis using k f by simp
  next
    case grow
    then show ?thesis using k al by (auto simp: algebra_simps)
  qed
  then show "rsp (p_context (proc_at i s')) = heap_ptr s'" "rip (p_context (proc_at i s')) = proc_entrypoint s"
    "kernel_rsp (proc_at i s') = heap_ptr s'" "\<exists>b. blocks s' (heap_ptr s) = Some b \<and> hb_size b = KSTACK_SIZE"
    using p f by simp_all
qed

lemma find_unique: "a \<in> set xs \<Longrightarrow> (\<And>c. c \<in> set xs \<Longrightarrow> P c \<longleftrightarrow> c = a) \<Longrightarrow> find P xs = Some a"
  by (induction xs) auto

text \<open>A block given back when all others are in use serves the next request its header has room for.\<close>

lemma only_free_block:
  assumes "heap_list held s bs" "blocks s a = Some b" "n \<noteq> 0" "ALIGN_UP n 16 \<le> hb_size b"
  shows "\<exists>s' s''. kfree (a + 24) s = Some s' \<and> kmalloc n s' = Some (a + 24, s'')"
proof -
  let ?s = "s\<lparr>blocks := set_block_free a True (blocks s)\<rparr>"
  have a: "a \<in> set bs" using assms(1,2) by (auto simp: heap_list_def dom_def)
  have "\<not> hb_free b" using heap_list_member [OF assms(1) a] assms(2) by (metis held_def option.inject)
  then have "a + 24 \<in> live s" using assms(2) by (simp add: live_def)
  note f = kfree_live [OF assms(1) this]
  have "heap_wf (\<lambda>_ _. True) (set_block_free a True (blocks s)) (unat (heap_ptr s)) (heap_head s) bs"
    by (rule heap_wf_change [of held "blocks s"]) (use assms(1) in \<open>auto simp: heap_list_def set_block_free_def\<close>)
  note w = kmalloc_find_eq [OF this, of "ALIGN_UP n 16"] heap_wf_nonzero [OF this a]
  have fit: "fits (set_block_free a True (blocks s)) (ALIGN_UP n 16) c \<longleftrightarrow> c = a" if c: "c \<in> set bs" for c
  proof -
    obtain d k where "blocks s c = Some d" "held d k" by (rule heap_list_member [OF assms(1) c])
    then show ?thesis using assms(2,4) by (auto simp: fits_def set_block_free_def held_def)
  qed
  have "find (fits (set_block_free a True (blocks s)) (ALIGN_UP n 16)) bs = Some a"
    using a fit by (rule find_unique)
  then show ?thesis using f w assms(3) by (simp add: kmalloc_def Let_def)
qed

text \<open>C25. The first switch to a process writes past its stack: when a second process has been created, the word
  that \<^verbatim>\<open>switch_context\<close> stores for its return lies where the header of the second one's stack begins, and
  the header's size becomes the address of the entry stub.  Were that stack given back, a request of that
  size, about a megabyte, would be served from its 16 KB.\<close>

theorem first_switch_hits_header:
  assumes "kernel_inv s" "proc_create nm entry s = Some (Some i, s1)" "proc_create nm' entry' s1 = Some (Some j, s2)"
    and "kernel_inv t" "proc_at i t = proc_at i s1" "blocks t = blocks s2"
    and "current_proc t \<noteq> Some i" "current_proc (schedule t) = Some i"
  shows "let a = kernel_rsp (proc_at i s1) in
    (\<exists>b. blocks t a = Some b \<and> hb_size b = KSTACK_SIZE \<and> blocks (schedule t) a = Some (b\<lparr>hb_size := proc_entrypoint s\<rparr>)) \<and>
    (\<forall>n. n \<noteq> 0 \<and> ALIGN_UP n 16 \<le> proc_entrypoint s \<longrightarrow>
       (\<exists>u u'. kfree (a + 24) (schedule t) = Some u \<and> kmalloc n u = Some (a + 24, u')))"
proof -
  note g = proc_create_grows [OF assms(1,2)]
  have "kernel_inv s1" using ipc_inv_create [OF assms(1,2)] by blast
  from proc_create_grows(4) [OF this assms(3)] obtain b where b: "blocks t (heap_ptr s1) = Some b" "hb_size b = KSTACK_SIZE"
    unfolding assms(6) by blast
  have inv: "run_inv t" "heap_inv t" using assms(4) by (auto simp: kernel_inv_def)
  have o: "blocks (schedule t) (heap_ptr s1) = Some (b\<lparr>hb_size := proc_entrypoint s\<rparr>)"
    unfolding first_dispatch(2) [OF inv(1) assms(7,8)] assms(5) g(1,2) using b by (simp add: store_over_header_def)
  obtain bs where "heap_list held (schedule t) bs" using inv(2) heap_inv_schedule [of t] unfolding heap_with_def by blast
  note f = only_free_block [OF this o]
  show ?thesis unfolding g(3) Let_def using b o f by simp
qed

section \<open>Two processes created\<close>

lemma create_succeeds:
  assumes "alloc_proc s = Some i" "kmalloc KSTACK_SIZE s = Some (stk, s1)" "stk \<noteq> 0"
  shows "\<exists>s'. proc_create nm entry s = Some (Some i, s') \<and> heap_ptr s' = heap_ptr s1 \<and> heap_head s' = heap_head s1 \<and> blocks s' = blocks s1"
proof -
  have "heap_head (kprintf f xs s) = heap_head s" "heap_head (set_proc j g s) = heap_head s"
    for f xs j g and s :: "'a sched_state_scheme" by (simp_all add: kprintf_def set_proc_def)
  then show ?thesis using assms by (simp add: proc_create_def Let_def)
qed

lemma alloc_duo: "alloc_proc duo = Some 2"
  by (simp add: alloc_proc_def upt_rec duo_proc duo_running_def duo_ready_def)

lemma first_created:
  obtains s1 where "proc_create [104] 0x1000 duo = Some (Some 2, s1)" "heap_ptr s1 = 0x404018" "heap_head s1 = 0x400000"
    "blocks s1 = [0x400000 \<mapsto> \<lparr>hb_size = 0x4000, hb_free = False, hb_next = 0\<rparr>]"
proof -
  have k: "\<exists>s1. kmalloc KSTACK_SIZE duo = Some (0x400018, s1) \<and> heap_ptr s1 = 0x404018 \<and> heap_head s1 = 0x400000 \<and>
      blocks s1 = [0x400000 \<mapsto> \<lparr>hb_size = 0x4000, hb_free = False, hb_next = 0\<rparr>]"
    by (simp add: kmalloc_def Let_def duo_def small_machine_def initial_state_def kmalloc_find.simps [of _ _ 0] ALIGN_UP_def)
  then show thesis using create_succeeds [OF alloc_duo, of "0x400018" _ "[104]" "0x1000"] that by fastforce
qed

lemma second_created:
  assumes "proc_create [104] 0x1000 duo = Some (Some 2, s1)" "heap_ptr s1 = 0x404018" "heap_head s1 = 0x400000"
    "blocks s1 = [0x400000 \<mapsto> \<lparr>hb_size = 0x4000, hb_free = False, hb_next = 0\<rparr>]"
  obtains s2 where "proc_create [105] 0x2000 s1 = Some (Some 3, s2)" "0x500000 \<notin> dom (blocks s2)"
    "\<forall>j. j \<noteq> 2 \<and> j \<noteq> 3 \<longrightarrow> proc_at j s2 = proc_at j duo" "proc_at 2 s2 = proc_at 2 s1" "state (proc_at 2 s2) = PROC_READY"
proof -
  note inv = duo_kernel_inv
  have i: "run_inv duo" "pid_inv duo" "heap_inv duo" using inv by (auto simp: kernel_inv_def)
  have o1: "\<forall>j. j \<noteq> 2 \<longrightarrow> proc_at j s1 = proc_at j duo" and r1: "state (proc_at 2 s1) = PROC_READY"
    by (rule proc_create_spec [OF i, of "[104]" "0x1000"], use assms(1) in \<open>auto simp: init_process_def\<close>)+
  have inv1: "kernel_inv s1" using ipc_inv_create [OF inv assms(1)] by blast
  have i1: "run_inv s1" "pid_inv s1" "heap_inv s1" using inv1 by (auto simp: kernel_inv_def)
  have al: "alloc_proc s1 = Some 3"
    using o1 r1 by (simp add: alloc_proc_def upt_rec duo_proc duo_running_def duo_ready_def eval_nat_numeral)
  have k: "\<exists>s2. kmalloc KSTACK_SIZE s1 = Some (0x404030, s2) \<and> 0x500000 \<notin> dom (blocks s2)"
    by (simp add: kmalloc_def Let_def assms kmalloc_find.simps [of _ _ "0x400000"] kmalloc_find.simps [of _ _ 0] ALIGN_UP_def)
  then obtain s2 where c: "proc_create [105] 0x2000 s1 = Some (Some 3, s2)" "0x500000 \<notin> dom (blocks s2)"
    using create_succeeds [OF al, of "0x404030" _ "[105]" "0x2000"] by fastforce
  have "\<forall>j. j \<noteq> 3 \<longrightarrow> proc_at j s2 = proc_at j s1"
    by (rule proc_create_spec [OF i1, of "[105]" "0x2000"], use c(1) in auto)
  then show thesis using that [OF c] o1 r1 by simp
qed

lemma two_switches:
  assumes "run_inv u" "current_proc u = Some 0" "state (proc_at 1 u) = PROC_READY" "state (proc_at 2 u) = PROC_READY"
  shows "run_inv (schedule u)" "proc_at 2 (schedule u) = proc_at 2 u" "current_proc (schedule u) = Some 1"
    "current_proc (schedule (schedule u)) = Some 2"
proof -
  have next': "current_proc (schedule t) = Some (Suc c) \<and>
      (\<forall>k. k \<noteq> c \<and> k \<noteq> Suc c \<longrightarrow> proc_at k (schedule t) = proc_at k t)"
    if "run_inv t" "current_proc t = Some c" "state (proc_at (Suc c) t) = PROC_READY" "Suc c < 64" for t :: "'a sched_state_scheme" and c
    using that(1,2)
  proof (cases rule: schedule_cases)
    case idle
    then show ?thesis using that by blast
  next
    case (switch i)
    have "dist c (Suc c) = 1" by (simp add: dist_def)
    then have "dist c i = dist c (Suc c)" using switch(1,4) that(3,4) dist_bounds [of c i] by fastforce
    then have "i = Suc c" using dist_inject [of c i "Suc c"] switch(1) that(4) by simp
    then show ?thesis using switch(5) run_inv_length [OF that(1)] that(4) by (simp add: dispatch_proc preempt_proc)
  qed
  show r: "run_inv (schedule u)" by (rule schedule_inv [OF assms(1)])
  note n = next' [OF assms(1,2)]
  show c: "proc_at 2 (schedule u) = proc_at 2 u" "current_proc (schedule u) = Some 1" using n assms by simp_all
  show "current_proc (schedule (schedule u)) = Some 2" using next' [OF r c(2)] c(1) assms(4) by (simp add: numeral_2_eq_2)
qed

text \<open>The second of the two processes of \<open>duo\<close> runs first, then the new one.\<close>

theorem process_starts_witness:
  "\<exists>s'. proc_create [104] 0x1000 duo = Some (Some 2, s') \<and> rip (cpu (schedule (schedule s'))) = proc_entrypoint duo"
proof -
  obtain s1 where s1: "proc_create [104] 0x1000 duo = Some (Some 2, s1)" by (rule first_created)
  have i: "run_inv duo" "pid_inv duo" "heap_inv duo" using duo_kernel_inv by (auto simp: kernel_inv_def)
  have u: "run_inv s1" "current_proc s1 = Some 0" "state (proc_at 1 s1) = PROC_READY" "state (proc_at 2 s1) = PROC_READY"
    by (rule proc_create_spec [OF i, of "[104]" "0x1000"], use s1 duo_proc in \<open>auto simp: init_process_def duo_ready_def\<close>)+
  note t = two_switches [OF u]
  show ?thesis using process_starts [OF duo_kernel_inv s1 t(1,2)] t(3,4) s1 by auto
qed

theorem first_switch_hits_header_witness:
  "\<exists>s1 s2. proc_create [104] 0x1000 duo = Some (Some 2, s1) \<and> proc_create [105] 0x2000 s1 = Some (Some 3, s2) \<and>
     map_option hb_size (blocks (schedule (schedule s2)) (kernel_rsp (proc_at 2 s1))) = Some (proc_entrypoint duo)"
proof -
  obtain s1 where s1: "proc_create [104] 0x1000 duo = Some (Some 2, s1)" "heap_ptr s1 = 0x404018" "heap_head s1 = 0x400000"
    "blocks s1 = [0x400000 \<mapsto> \<lparr>hb_size = 0x4000, hb_free = False, hb_next = 0\<rparr>]" by (rule first_created)
  obtain s2 where s2: "proc_create [105] 0x2000 s1 = Some (Some 3, s2)" "0x500000 \<notin> dom (blocks s2)"
    "\<forall>j. j \<noteq> 2 \<and> j \<noteq> 3 \<longrightarrow> proc_at j s2 = proc_at j duo" "proc_at 2 s2 = proc_at 2 s1" "state (proc_at 2 s2) = PROC_READY"
    by (rule second_created [OF s1])
  have k1: "kernel_inv s1" by (rule conjunct1 [OF ipc_inv_create [OF duo_kernel_inv s1(1)]])
  then have k2: "kernel_inv s2" using ipc_inv_create s2(1) by blast
  have i: "run_inv s1" "pid_inv s1" "heap_inv s1" "run_inv s2" using k1 k2 by (auto simp: kernel_inv_def)
  have d: "run_inv duo" "pid_inv duo" "heap_inv duo" using duo_kernel_inv by (auto simp: kernel_inv_def)
  have "current_proc s1 = current_proc duo" by (rule proc_create_spec [OF d, of "[104]" "0x1000"], use s1 in auto)
  then have c: "current_proc s2 = Some 0" by (rule_tac proc_create_spec [OF i(1-3), of "[105]" "0x2000"]) (use s2 in auto)
  have p: "proc_at 1 s2 = duo_ready" using s2(3) duo_proc by simp
  then have "state (proc_at 1 s2) = PROC_READY" by (simp add: duo_ready_def)
  note t = two_switches [OF i(4) c this s2(5)]
  have "kernel_inv (schedule s2)" using reaches_inv [OF r_into_rtranclp [of kstep] k2] k_yield [of s2]
    by (simp add: proc_yield_def)
  moreover have "blocks (schedule s2) = blocks s2"
    using first_dispatch(2) [OF i(4) _ t(3)] c s2(2) p by (auto simp: store_over_header_def duo_ready_def)
  moreover have "current_proc (schedule s2) \<noteq> Some 2" "proc_at 2 (schedule s2) = proc_at 2 s1" using t(2,3) s2(4) by simp_all
  ultimately show ?thesis
    using first_switch_hits_header [OF duo_kernel_inv s1(1) s2(1), of "schedule s2"] t(4) s1(1) s2(1) by (auto simp: Let_def)
qed

end
