(* ===== verification/Elf_Segment.thy ===== *)
theory Elf_Segment
  imports Elf_Props
begin

text \<open>
  What the ELF loader (\<^verbatim>\<open>kernel/elf_loader.c\<close>) leaves in memory when the pages of a segment happen to
  be mapped already: the page loop maps nothing there, and the copy loops store the file's bytes and
  the zeros through the active page table.
\<close>

section \<open>The pages of a segment\<close>

definition segment_addrs :: "elf64_phdr \<Rightarrow> u64 list" where
  "segment_addrs ph = map (\<lambda>p. (p_vaddr ph AND NOT 0xFFF) + of_nat p * 0x1000)
     [0..<unat (drop_bit 12 (((p_vaddr ph + p_memsz ph + 0xFFF) AND NOT 0xFFF) - (p_vaddr ph AND NOT 0xFFF)))]"

definition segment_frames :: "elf64_phdr \<Rightarrow> 'a vmm_state_scheme \<Rightarrow> u64 list" where
  "segment_frames ph s = map (\<lambda>va. vmm_resolve (cr3 s) va s) (segment_addrs ph)"

lemma mask12: "(0xFFF :: u64) = mask 12"
  by (simp add: mask_eq_exp_minus_1)

lemma page_of_PTE_PHYS: "(PTE_PHYS e OR (va AND 0xFFF)) AND NOT 0xFFF = PTE_PHYS e"
  by (simp add: PTE_PHYS_def bit.conj_disj_distrib2 and.assoc)

lemma offset_of_PTE_PHYS: "(PTE_PHYS e OR (va AND 0xFFF)) AND 0xFFF = va AND 0xFFF"
  by (simp add: PTE_PHYS_def bit.conj_disj_distrib2 and.assoc)

lemma word_page_eq:
  fixes x y :: u64
  assumes "x AND NOT 0xFFF = y AND NOT 0xFFF" "x AND 0xFFF = y AND 0xFFF"
  shows "x = y"
proof -
  have "z = (z AND NOT 0xFFF) OR (z AND 0xFFF)" for z :: u64
    by (simp flip: bit.conj_disj_distrib)
  with assms show ?thesis by metis
qed

lemma same_page_base: "same_page (va AND NOT 0xFFF) va"
  by (simp add: same_page_iff and.assoc)

lemma segment_page:
  fixes v sz :: u64
  assumes "unat v + unat sz + 4095 < 2 ^ 64" "j < unat sz"
  shows "\<exists>p < unat (drop_bit 12 (((v + sz + 0xFFF) AND NOT 0xFFF) - (v AND NOT 0xFFF))).
    (v + of_nat j) AND NOT 0xFFF = (v AND NOT 0xFFF) + of_nat p * 0x1000"
proof -
  let ?b = "unat v div 4096" and ?p = "(unat v + j) div 4096 - unat v div 4096"
  have le: "?b \<le> (unat v + j) div 4096" by (rule div_le_mono) simp
  have st: "unat (v AND NOT (mask 12)) = ?b * 4096" by (simp add: unat_and_not_mask)
  have j: "unat (v + of_nat j) = unat v + j" using assms by (simp add: unat_word_ariths unat_of_nat)
  then have a: "unat ((v + of_nat j) AND NOT (mask 12)) = (unat v + j) div 4096 * 4096" by (simp add: unat_and_not_mask)
  have "(unat v + j) div 4096 * 4096 = ?b * 4096 + ?p * 4096" using le by (simp add: algebra_simps)
  then have "unat ((v + of_nat j) AND NOT (mask 12)) = unat (v AND NOT (mask 12)) + ?p * 4096" using a st by linarith
  then have "(v + of_nat j) AND NOT (mask 12) = of_nat (unat (v AND NOT (mask 12)) + ?p * 4096)" by (rule word_eq_of_nat)
  then have e: "(v + of_nat j) AND NOT (mask 12) = (v AND NOT (mask 12)) + of_nat ?p * 0x1000" by simp
  have "unat (v + sz + 0xFFF) = unat v + unat sz + 4095" using assms(1) by (simp add: unat_word_ariths)
  then have en: "unat ((v + sz + 0xFFF) AND NOT (mask 12)) = (unat v + unat sz + 4095) div 4096 * 4096"
    by (simp add: unat_and_not_mask)
  have "(unat v + j) div 4096 + 1 \<le> (unat v + unat sz + 4095) div 4096"
    using div_le_mono [of "unat v + j + 4096" "unat v + unat sz + 4095" 4096] assms(2) by simp
  then have "?b + ?p + 1 \<le> (unat v + unat sz + 4095) div 4096" using le by linarith
  moreover from this have "unat (((v + sz + 0xFFF) AND NOT (mask 12)) - (v AND NOT (mask 12)))
      = (unat v + unat sz + 4095) div 4096 * 4096 - ?b * 4096"
    using en st by (subst unat_sub) (simp_all add: word_le_nat_alt)
  then have "unat (drop_bit 12 (((v + sz + 0xFFF) AND NOT (mask 12)) - (v AND NOT (mask 12))))
      = (unat v + unat sz + 4095) div 4096 - ?b"
    unfolding unat_drop_bit_eq by (simp add: drop_bit_eq_div flip: diff_mult_distrib)
  ultimately have "?p < unat (drop_bit 12 (((v + sz + 0xFFF) AND NOT (mask 12)) - (v AND NOT (mask 12))))" by linarith
  with e show ?thesis unfolding mask12 by blast
qed

lemma page_offset:
  fixes start :: u64
  assumes "start AND 0xFFF = 0"
  shows "(start + of_nat p * 0x1000) AND 0xFFF = 0"
proof -
  have "4096 dvd unat start" "4096 dvd unat (of_nat p * 0x1000 :: u64)"
    using assms unat_take_bit [of 12 start]
    by (simp_all add: mask12 unat_word_ariths dvd_mod dvd_eq_mod_eq_0 mod_mod_cancel flip: take_bit_eq_mask)
  then have "4096 dvd unat (start + of_nat p * 0x1000)"
    unfolding unat_word_ariths(1) by (intro dvd_mod dvd_add) simp_all
  then have "take_bit 12 (start + of_nat p * 0x1000) = 0" by (simp add: word_unat_eq_iff unat_take_bit dvd_eq_mod_eq_0)
  then show ?thesis by (simp add: mask12 flip: take_bit_eq_mask)
qed

lemma segment_frame:
  assumes "0 \<notin> set (segment_frames ph s)" "p < length (segment_frames ph s)"
  shows "present (pte (mem s) (cr3 s) ((p_vaddr ph AND NOT 0xFFF) + of_nat p * 0x1000))"
    "PTE_PHYS (pte (mem s) (cr3 s) ((p_vaddr ph AND NOT 0xFFF) + of_nat p * 0x1000)) = segment_frames ph s ! p"
proof -
  let ?e = "pte (mem s) (cr3 s) ((p_vaddr ph AND NOT 0xFFF) + of_nat p * 0x1000)"
  have "segment_frames ph s ! p = (if present ?e then PTE_PHYS ?e else 0)"
    using assms(2) page_offset [of "p_vaddr ph AND NOT 0xFFF" p]
    by (simp add: segment_frames_def segment_addrs_def vmm_resolve_eq and.assoc)
  moreover have "segment_frames ph s ! p \<noteq> 0" using assms nth_mem by metis
  ultimately show "present ?e" "PTE_PHYS ?e = segment_frames ph s ! p" by (auto split: if_splits)
qed

lemma segment_byte:
  assumes "0 \<notin> set (segment_frames ph s)" "unat (p_vaddr ph) + unat (p_memsz ph) + 4095 < 2 ^ 64" "j < unat (p_memsz ph)"
  obtains p where "p < length (segment_frames ph s)" "present (pte (mem s) (cr3 s) (p_vaddr ph + of_nat j))"
    "vmm_resolve (cr3 s) (p_vaddr ph + of_nat j) s = segment_frames ph s ! p OR ((p_vaddr ph + of_nat j) AND 0xFFF)"
    "(p_vaddr ph + of_nat j) AND NOT 0xFFF = (p_vaddr ph AND NOT 0xFFF) + of_nat p * 0x1000"
    "vmm_resolve (cr3 s) (p_vaddr ph + of_nat j) s AND NOT 0xFFF = segment_frames ph s ! p"
    "vmm_resolve (cr3 s) (p_vaddr ph + of_nat j) s AND 0xFFF = (p_vaddr ph + of_nat j) AND 0xFFF"
proof -
  let ?a = "p_vaddr ph + of_nat j"
  obtain p where p: "p < length (segment_frames ph s)" "?a AND NOT 0xFFF = (p_vaddr ph AND NOT 0xFFF) + of_nat p * 0x1000"
    using segment_page [OF assms(2,3)] by (auto simp: segment_frames_def segment_addrs_def)
  note fr = segment_frame [OF assms(1) p(1), folded p(2)]
  have e: "pte (mem s) (cr3 s) ?a = pte (mem s) (cr3 s) (?a AND NOT 0xFFF)" by (rule pte_same_page [OF same_page_base])
  then have "vmm_resolve (cr3 s) ?a s = segment_frames ph s ! p OR (?a AND 0xFFF)" using fr by (simp add: vmm_resolve_eq)
  moreover from this have "vmm_resolve (cr3 s) ?a s AND NOT 0xFFF = segment_frames ph s ! p"
    unfolding fr(2) [symmetric] by (simp only: page_of_PTE_PHYS)
  moreover have "(segment_frames ph s ! p OR (?a AND 0xFFF)) AND 0xFFF = ?a AND 0xFFF"
    unfolding fr(2) [symmetric] by (simp only: offset_of_PTE_PHYS)
  ultimately show ?thesis using that p fr e by simp
qed

lemma segment_resolve_inj:
  assumes "0 \<notin> set (segment_frames ph s)" "unat (p_vaddr ph) + unat (p_memsz ph) + 4095 < 2 ^ 64" "distinct (segment_frames ph s)"
  shows "inj_on (\<lambda>j. vmm_resolve (cr3 s) (p_vaddr ph + of_nat j) s) {..<unat (p_memsz ph)}"
proof (rule inj_onI)
  fix i j
  let ?v = "p_vaddr ph"
  assume ij: "i \<in> {..<unat (p_memsz ph)}" "j \<in> {..<unat (p_memsz ph)}"
    and eq: "vmm_resolve (cr3 s) (?v + of_nat i) s = vmm_resolve (cr3 s) (?v + of_nat j) s"
  have ij': "i < unat (p_memsz ph)" "j < unat (p_memsz ph)" using ij by simp_all
  obtain p where p: "p < length (segment_frames ph s)" "(?v + of_nat i) AND NOT 0xFFF = (?v AND NOT 0xFFF) + of_nat p * 0x1000"
    "vmm_resolve (cr3 s) (?v + of_nat i) s AND NOT 0xFFF = segment_frames ph s ! p"
    "vmm_resolve (cr3 s) (?v + of_nat i) s AND 0xFFF = (?v + of_nat i) AND 0xFFF" by (rule segment_byte [OF assms(1,2) ij'(1)])
  obtain q where q: "q < length (segment_frames ph s)" "(?v + of_nat j) AND NOT 0xFFF = (?v AND NOT 0xFFF) + of_nat q * 0x1000"
    "vmm_resolve (cr3 s) (?v + of_nat j) s AND NOT 0xFFF = segment_frames ph s ! q"
    "vmm_resolve (cr3 s) (?v + of_nat j) s AND 0xFFF = (?v + of_nat j) AND 0xFFF" by (rule segment_byte [OF assms(1,2) ij'(2)])
  have "segment_frames ph s ! p = segment_frames ph s ! q" using p(3) q(3) eq by simp
  then have "p = q" using nth_eq_iff_index_eq [OF assms(3) p(1) q(1)] by blast
  then have "(?v + of_nat i) AND NOT 0xFFF = (?v + of_nat j) AND NOT 0xFFF" using p(2) q(2) by simp
  moreover have "(?v + of_nat i) AND 0xFFF = (?v + of_nat j) AND 0xFFF" using p(4) q(4) eq by simp
  ultimately have "?v + of_nat i = ?v + of_nat j" by (rule word_page_eq)
  then have "unat (of_nat i :: u64) = unat (of_nat j :: u64)" by simp
  moreover have "i < 2 ^ 64" "j < 2 ^ 64" using ij' unat_less_u64 [of "p_memsz ph"] less_trans by blast+
  ultimately show "i = j" by (simp only: unat_of_nat_u64)
qed

section \<open>A zeroed page as a table\<close>

lemma zero_page_tree:
  assumes "zero_page m f" "4096 dvd unat f"
  shows "tables m f = {f}" "pt_inv m f"
proof -
  have t: "tbl m f k va = (if k = 0 then Some f else None)" for k va
    by (induction k) (use assms(1) ix_less in \<open>simp_all add: zero_page_def present_def\<close>)
  show "tables m f = {f}" by (auto simp: tables_def t split: if_splits)
  show "pt_inv m f" using assms(2) by (auto simp: pt_inv_def t same_path_def split: if_splits)
qed

lemma vmm_descend_avail:
  assumes "vm_inv s r" "vmm_descend t i flags s = Inr (u, s')"
  shows "card (pmm_avail s) \<le> Suc (card (pmm_avail s'))"
proof (cases "present (load64 (mem s) (cell t i))")
  case True
  then show ?thesis using assms(2) by (simp add: vmm_descend_def)
next
  case False
  then obtain n s1 where a: "alloc_table s = Inr (n, s1)" "pmm_avail s' = pmm_avail s1"
    using assms(2) by (auto simp: vmm_descend_def elim!: try_then_InrE)
  then show ?thesis using alloc_table_avail [OF assms(1) a(1)] by simp
qed

lemma vmm_map_avail:
  assumes inv: "vm_inv s r" and m: "vmm_map r va pa flags s = Inr (c, s')"
  shows "card (pmm_avail s) \<le> 3 + card (pmm_avail s')"
proof -
  from m obtain t1 s1 t2 s2 t3 s3 where
    d1: "vmm_descend r (ix 0 va) flags s = Inr (t1, s1)" and
    d2: "vmm_descend t1 (ix 1 va) flags s1 = Inr (t2, s2)" and
    d3: "vmm_descend t2 (ix 2 va) flags s2 = Inr (t3, s3)" and
    s': "pmm_avail s' = pmm_avail s3"
    by (auto simp: vmm_map_def ix_levels Let_def tlb_flush_def elim!: try_then_InrE)
  note p1 = vmm_descend_spec [OF inv _ _ d1, simplified]
  note i1 = grows_inv [OF p1(1)]
  have tb1: "tbl (mem s1) r 1 va = Some t1" using p1(2) by simp
  note i2 = grows_inv [OF vmm_descend_spec(1) [OF i1 tb1 _ d2]]
  show ?thesis
    using vmm_descend_avail [OF inv d1] vmm_descend_avail [OF i1 d2] vmm_descend_avail [OF i2 d3] s' by simp
qed

lemma grows_tables:
  assumes g: "grows r s s'" and dis: "tables (mem s) r \<inter> tables (mem s) q = {}" and inv: "vm_inv s q"
  shows "tables (mem s') q = tables (mem s) q"
proof (rule tables_cong_mem(1))
  fix t i :: u64
  assume t: "t \<in> tables (mem s) q" "unat i < 512"
  have "4096 dvd unat t" using t(1) inv tables_aligned by (auto simp: vm_inv_def pt_inv_def)
  moreover have "t \<notin> tables (mem s) r \<union> (spare s - spare s')" using t(1) dis inv by (auto simp: vm_inv_def)
  ultimately show "load64 (mem s') (cell t i) = load64 (mem s) (cell t i)" using g t(2) unfolding grows_def by blast
qed

section \<open>The page loop\<close>

lemma elf_map_pages_ready:
  fixes s :: "'a kern_state_scheme"
  assumes "vm_inv s (cr3 s)" "start AND 0xFFF = 0" "4 * n \<le> card (pmm_avail s)"
    and "\<forall>q\<in>{p..<p + n}. present (pte (mem s) (cr3 s) (start + of_nat q * 0x1000)) \<and>
      PTE_PHYS (pte (mem s) (cr3 s) (start + of_nat q * 0x1000)) = fr q \<and>
      fr q \<notin> spare s \<union> tables (mem s) (cr3 s) \<and> zero_page (mem s) (fr q)"
    and "inj_on fr {p..<p + n}"
  shows "\<exists>s'. elf_map_pages rcx start n (of_nat p) s = Inr (True, s') \<and> vm_inv s' (cr3 s) \<and> cr3 s' = cr3 s \<and>
    tables (mem s') (cr3 s) = tables (mem s) (cr3 s) \<and> (\<forall>va. pte (mem s') (cr3 s) va = pte (mem s) (cr3 s) va) \<and>
    (\<forall>x. x AND NOT (mask 12) \<notin> spare s \<union> fr ` {p..<p + n} \<longrightarrow> mem s' x = mem s x)"
  using assms
proof (induction n arbitrary: p s)
  case 0
  then show ?case by simp
next
  case (Suc n)
  let ?r = "cr3 s" and ?f = "fr p"
  have p: "p \<in> {p..<p + Suc n}" by simp
  note at = Suc.prems(4) [rule_format, OF p]
  have f4: "4096 dvd unat ?f" using at aligned_PTE_PHYS by metis
  have pi: "pmm_inv s" using Suc.prems(1) by (simp add: vm_inv_def)
  obtain pa s1 where a: "pmm_alloc s = (pa, s1)" by fastforce
  have "pmm_avail s \<noteq> {}" using Suc.prems(3) by auto
  then have pa: "pa \<noteq> 0" using pmm.alloc_null_iff [OF pi] a by simp
  note g1 = grows_pmm_alloc [OF Suc.prems(1) a pa]
  have c1: "cr3 s1 = ?r" using pmm_alloc_vmm_frame(5) [of s] a by simp
  have inv1: "vm_inv s1 ?r" by (rule grows_inv [OF g1(1)])
  have sp1: "spare s1 \<subseteq> spare s" using g1(1) by (simp add: grows_def)
  have av1: "4 * n + 3 \<le> card (pmm_avail s1)"
    using Suc.prems(3) g1(2,3) pmm.avail_finite [OF pi] by (simp add: card_Diff_singleton)
  have z1: "zero_page (mem s1) ?f" using at g1(4) by simp
  note zt = zero_page_tree [OF z1 f4]
  have inv1f: "vm_inv s1 ?f" using inv1 zt at sp1 by (auto simp: vm_inv_def)
  note off = page_offset [OF Suc.prems(2), of p]
  have k: "kernel_addr (start + of_nat p * 0x1000) s1 = Inr ?f"
    using at off by (simp add: kernel_addr_def c1 g1(4) Let_def)
  have "3 \<le> card (pmm_avail s1)" using av1 by simp
  also have "\<dots> \<le> card (spare s1)"
    using finite_spare inv1 by (intro card_mono) (auto simp: vm_inv_def spare_def)
  finally obtain s2 where m: "vmm_map ?f pa 0x3 rcx s1 = Inr (0, s2)"
    using vmm_map_total [OF inv1f] by blast
  have g2: "grows ?f s1 s2" by (rule vmm_map_spec(2) [OF inv1f m])
  have dis: "tables (mem s1) ?f \<inter> tables (mem s1) ?r = {}" using zt at g1(4) by simp
  note iso = grows_isolated [OF g2 dis inv1] grows_tables [OF g2 dis inv1]
  have c2: "cr3 s2 = ?r" using same_config_vmm_map [OF m] c1 by (simp add: same_config_def)
  have sp2: "spare s2 \<subseteq> spare s" using g2 sp1 by (auto simp: grows_def)
  have av2: "4 * n \<le> card (pmm_avail s2)" using vmm_map_avail [OF inv1f m] av1 by simp
  have rest: "\<forall>q\<in>{Suc p..<Suc p + n}. present (pte (mem s2) (cr3 s2) (start + of_nat q * 0x1000)) \<and>
      PTE_PHYS (pte (mem s2) (cr3 s2) (start + of_nat q * 0x1000)) = fr q \<and>
      fr q \<notin> spare s2 \<union> tables (mem s2) (cr3 s2) \<and> zero_page (mem s2) (fr q)"
  proof
    fix q assume q: "q \<in> {Suc p..<Suc p + n}"
    then have q': "q \<in> {p..<p + Suc n}" "q \<noteq> p" by auto
    note aq = Suc.prems(4) [rule_format, OF q'(1)]
    have "fr q \<noteq> ?f" using inj_onD [OF Suc.prems(5) _ q'(1) p] q'(2) by blast
    moreover have "4096 dvd unat (fr q)" using aq aligned_PTE_PHYS by metis
    ultimately have "load64 (mem s2) (cell (fr q) i) = load64 (mem s1) (cell (fr q) i)" if "unat i < 512" for i
      using g2 zt(1) aq sp1 that unfolding grows_def by blast
    then have "zero_page (mem s2) (fr q)" using aq g1(4) by (simp add: zero_page_def)
    then show "present (pte (mem s2) (cr3 s2) (start + of_nat q * 0x1000)) \<and>
      PTE_PHYS (pte (mem s2) (cr3 s2) (start + of_nat q * 0x1000)) = fr q \<and>
      fr q \<notin> spare s2 \<union> tables (mem s2) (cr3 s2) \<and> zero_page (mem s2) (fr q)"
      using aq iso sp2 g1(4) c2 by auto
  qed
  have "inj_on fr {Suc p..<Suc p + n}" using Suc.prems(5) by (rule inj_on_subset) auto
  with Suc.IH [of s2 "Suc p"] iso(1) c2 Suc.prems(2) av2 rest obtain s' where
    s': "elf_map_pages rcx start n (of_nat (Suc p)) s2 = Inr (True, s')" "vm_inv s' ?r" "cr3 s' = ?r"
      "tables (mem s') ?r = tables (mem s2) ?r" "\<forall>va. pte (mem s') ?r va = pte (mem s2) ?r va"
      "\<forall>x. x AND NOT (mask 12) \<notin> spare s2 \<union> fr ` {Suc p..<Suc p + n} \<longrightarrow> mem s' x = mem s2 x"
    by auto
  have "elf_map_pages rcx start (Suc n) (of_nat p) s = Inr (True, s')"
    using a pa k m s'(1) by (simp add: pmm_alloc_page_def add.commute)
  moreover have "mem s' x = mem s x" if "x AND NOT (mask 12) \<notin> spare s \<union> fr ` {p..<p + Suc n}" for x
  proof -
    have "x AND NOT (mask 12) \<notin> spare s2 \<union> fr ` {Suc p..<Suc p + n}" using that sp2 by auto
    then have "mem s' x = mem s2 x" using s'(6) by blast
    also have "\<dots> = mem s1 x" using that sp1 zt(1) by (intro grows_byte [OF g2]) auto
    finally show ?thesis using g1(4) by simp
  qed
  ultimately show ?case using s' iso g1(4) by auto
qed

lemma segment_pages_ready:
  fixes s :: "'a kern_state_scheme"
  assumes "vm_inv s (cr3 s)" "4 * length (segment_frames ph s) \<le> card (pmm_avail s)" "distinct (segment_frames ph s)"
    and "\<forall>f \<in> set (segment_frames ph s). f \<noteq> 0 \<and> f \<notin> spare s \<union> tables (mem s) (cr3 s) \<and> zero_page (mem s) f"
  shows "\<exists>s'. elf_map_pages rcx (p_vaddr ph AND NOT 0xFFF) (length (segment_addrs ph)) 0 s = Inr (True, s') \<and>
    vm_inv s' (cr3 s) \<and> cr3 s' = cr3 s \<and> tables (mem s') (cr3 s) = tables (mem s) (cr3 s) \<and>
    (\<forall>va. pte (mem s') (cr3 s) va = pte (mem s) (cr3 s) va) \<and>
    (\<forall>x. x AND NOT 0xFFF \<notin> spare s \<union> set (segment_frames ph s) \<longrightarrow> mem s' x = mem s x)"
proof -
  let ?fr = "\<lambda>q. segment_frames ph s ! q" and ?n = "length (segment_frames ph s)"
  have nz: "0 \<notin> set (segment_frames ph s)" using assms(4) by blast
  have len: "length (segment_addrs ph) = ?n" by (simp add: segment_frames_def)
  have inj: "inj_on ?fr {0..<0 + ?n}" using assms(3) by (simp add: inj_on_nth)
  have set: "?fr ` {0..<0 + ?n} = set (segment_frames ph s)" by (auto simp: set_conv_nth)
  have ready: "\<forall>q\<in>{0..<0 + ?n}. present (pte (mem s) (cr3 s) ((p_vaddr ph AND NOT 0xFFF) + of_nat q * 0x1000)) \<and>
      PTE_PHYS (pte (mem s) (cr3 s) ((p_vaddr ph AND NOT 0xFFF) + of_nat q * 0x1000)) = ?fr q \<and>
      ?fr q \<notin> spare s \<union> tables (mem s) (cr3 s) \<and> zero_page (mem s) (?fr q)"
    using segment_frame [OF nz] assms(4) nth_mem by simp
  have "(p_vaddr ph AND NOT 0xFFF) AND 0xFFF = 0" by (simp add: and.assoc)
  from elf_map_pages_ready [OF assms(1) this assms(2) ready inj, of rcx] show ?thesis
    unfolding len set mask12 by simp
qed

section \<open>The copy loops\<close>

text \<open>Stores through the page table into the pages \<open>F\<close>, which hold no table: the addresses are looked up as before.\<close>

lemma load64_same_outside:
  assumes "same_outside F m m'" "4096 dvd unat t" "t \<notin> F" "unat i < 512"
  shows "load64 m' (cell t i) = load64 m (cell t i)"
  unfolding load64_def
proof (rule load_le_cong)
  fix k :: nat
  assume k: "k < 8"
  obtain q where q: "unat t = 4096 * q" using assms(2) by (rule dvdE)
  note dvd8_add_small [OF aligned8_cell [OF assms(2,4), unfolded aligned8_def] k]
  then have u: "unat (cell t i + of_nat k) = 8 * unat i + k + q * 4096"
    unfolding unat_cell [OF assms(2,4)] q by (simp only: ac_simps)
  have "8 * unat i + k < 4096" using assms(4) k by simp
  then have "unat (cell t i + of_nat k) div 4096 = q" unfolding u by simp
  then have "unat ((cell t i + of_nat k) AND NOT (mask 12)) = unat t" using q by (simp add: unat_and_not_mask)
  then have "(cell t i + of_nat k) AND NOT (mask 12) = t" by (simp only: word_unat_eq_iff)
  then show "m' (cell t i + of_nat k) = m (cell t i + of_nat k)" using assms(1,3) by (simp add: same_outside_def)
qed

lemma tree_same_outside:
  assumes "pt_inv m r" "same_outside F m m'" "F \<inter> tables m r = {}"
  shows "pte m' r va = pte m r va" "tables m' r = tables m r" "pt_inv m' r"
proof -
  have ld: "load64 m' (cell t i) = load64 m (cell t i)" if "t \<in> tables m r" "unat i < 512" for t i
    using that assms tables_aligned by (intro load64_same_outside [OF assms(2)]) (auto simp: pt_inv_def)
  show "pte m' r va = pte m r va" by (rule pte_cong_mem [OF ld])
  show "tables m' r = tables m r" "pt_inv m' r" using tables_cong_mem [OF ld] assms(1) by simp_all
qed

lemmas pte_same_outside = tree_same_outside(1)

lemma vm_inv_same_outside:
  assumes "vm_inv s r" "same_outside F (mem s) m" "F \<inter> (tables (mem s) r \<union> spare s) = {}"
  shows "vm_inv (s\<lparr>mem := m\<rparr>) r"
proof -
  have pt: "pt_inv (mem s) r" using assms(1) by (simp add: vm_inv_def)
  have "zero_page m t" if "t \<in> pmm_avail s" for t
  proof -
    have "t \<in> spare s" using that by (simp add: spare_def)
    then have "4096 dvd unat t" "t \<notin> F" using spare_page(1) [of s t] assms(1,3) by (auto simp: vm_inv_def)
    then show ?thesis using load64_same_outside [OF assms(2)] that assms(1) by (simp add: zero_page_def vm_inv_def)
  qed
  then show ?thesis using tree_same_outside(2,3) [OF pt assms(2)] assms(1,3) by (auto simp: vm_inv_def)
qed

lemma copy_loop:
  fixes s :: "'a kern_state_scheme"
  assumes "\<And>i (t :: 'a kern_state_scheme). i < n \<Longrightarrow> cr3 t = cr3 s \<Longrightarrow> same_outside F m0 (mem t) \<Longrightarrow> kernel_addr (va i) t = Inr (R i)"
    and "\<And>i. i < n \<Longrightarrow> R i AND NOT (mask 12) \<in> F"
    and "\<And>i m. i < n \<Longrightarrow> same_outside F m0 m \<Longrightarrow> f i m = v i"
    and "same_outside F m0 (mem s)" "inj_on R {..<n}"
  shows "\<exists>m. try_upto n (\<lambda>j t. store8 (va j) (f j (mem t)) t) s = Inr (s\<lparr>mem := m\<rparr>) \<and> same_outside F m0 m \<and>
    (\<forall>i<n. m (R i) = v i) \<and> (\<forall>x. x \<notin> R ` {..<n} \<longrightarrow> m x = mem s x)"
  using assms
proof (induction n)
  case 0
  then show ?case by (intro exI [of _ "mem s"]) simp
next
  case (Suc n)
  have inj: "inj_on R {..<n}" by (rule inj_on_subset [OF Suc.prems(5)]) auto
  obtain m where m: "try_upto n (\<lambda>j t. store8 (va j) (f j (mem t)) t) s = Inr (s\<lparr>mem := m\<rparr>)" "same_outside F m0 m"
    "\<forall>i<n. m (R i) = v i" "\<forall>x. x \<notin> R ` {..<n} \<longrightarrow> m x = mem s x"
    using Suc.IH [OF Suc.prems(1) [OF less_SucI] Suc.prems(2) [OF less_SucI] Suc.prems(3) [OF less_SucI] Suc.prems(4) inj]
    by blast
  have "R i \<noteq> R n" if "i < n" for i using inj_onD [OF Suc.prems(5), of i n] that by auto
  then have "\<forall>i<Suc n. (m(R n := v n)) (R i) = v i" using m(3) by (simp add: less_Suc_eq)
  moreover have "try_upto (Suc n) (\<lambda>j t. store8 (va j) (f j (mem t)) t) s = Inr (s\<lparr>mem := m(R n := v n)\<rparr>)"
    using m(1,2) Suc.prems(1) [of n "s\<lparr>mem := m\<rparr>"] Suc.prems(3) [of n m] by (simp add: store8_def)
  moreover have "same_outside F m0 (m(R n := v n))" using m(2) Suc.prems(2) [of n] by (auto simp: same_outside_def)
  moreover have "\<forall>x. x \<notin> R ` {..<Suc n} \<longrightarrow> (m(R n := v n)) x = mem s x" using m(4) by (simp add: lessThan_Suc)
  ultimately show ?case by blast
qed

text \<open>The file's part and the zeros after it.\<close>

lemma copy_and_clear:
  fixes s :: "'a kern_state_scheme" and fz :: u64
  assumes "\<And>j (t :: 'a kern_state_scheme). j < M \<Longrightarrow> cr3 t = cr3 s \<Longrightarrow> same_outside F (mem s) (mem t) \<Longrightarrow>
      kernel_addr (a + of_nat j) t = Inr (R j)"
    and "\<And>j. j < M \<Longrightarrow> R j AND NOT (mask 12) \<in> F" and "inj_on R {..<M}" and "unat fz \<le> M"
    and "\<And>j m. j < unat fz \<Longrightarrow> same_outside F (mem s) m \<Longrightarrow> m (src + of_nat j) = v j"
  shows "\<exists>m. try_then (try_upto (unat fz) (\<lambda>j t. store8 (a + of_nat j) (mem t (src + of_nat j)) t) s)
      (try_upto (M - unat fz) (\<lambda>k t. store8 (a + (fz + of_nat k)) 0 t)) = Inr (s\<lparr>mem := m\<rparr>) \<and>
    same_outside F (mem s) m \<and> (\<forall>j<M. m (R j) = (if j < unat fz then v j else 0))"
proof -
  let ?k = "unat fz" and ?d = "M - unat fz"
  have "same_outside F (mem s) (mem s)" by (simp add: same_outside_def)
  moreover have "inj_on R {..<?k}" by (rule inj_on_subset [OF assms(3)]) (use assms(4) in auto)
  ultimately have "\<exists>m. try_upto ?k (\<lambda>j t. store8 (a + of_nat j) (mem t (src + of_nat j)) t) s = Inr (s\<lparr>mem := m\<rparr>) \<and>
      same_outside F (mem s) m \<and> (\<forall>i<?k. m (R i) = v i) \<and> (\<forall>x. x \<notin> R ` {..<?k} \<longrightarrow> m x = mem s x)"
    by (intro copy_loop [where f = "\<lambda>j m. m (src + of_nat j)" and v = v] assms(1,2,5)) (use assms(4) in auto)
  then obtain m where m: "try_upto ?k (\<lambda>j t. store8 (a + of_nat j) (mem t (src + of_nat j)) t) s = Inr (s\<lparr>mem := m\<rparr>)"
    "same_outside F (mem s) m" "\<forall>j<?k. m (R j) = v j" by blast
  have inj: "inj_on (\<lambda>j. R (?k + j)) {..<?d}"
  proof (rule inj_onI)
    fix i j assume ij: "i \<in> {..<?d}" "j \<in> {..<?d}" and e: "R (?k + i) = R (?k + j)"
    have "?k + i \<in> {..<M}" "?k + j \<in> {..<M}" using ij by auto
    with e have "?k + i = ?k + j" by (rule inj_onD [OF assms(3)])
    then show "i = j" by simp
  qed
  have va: "a + (fz + of_nat j) = a + of_nat (?k + j)" for j by simp
  have ka: "kernel_addr (a + of_nat (?k + i)) t = Inr (R (?k + i))" "R (?k + i) AND NOT (mask 12) \<in> F"
    if "i < ?d" "cr3 t = cr3 s" "same_outside F (mem s) (mem t)" for i and t :: "'a kern_state_scheme"
    using that assms(1) [of "?k + i" t] assms(2) [of "?k + i"] by simp_all
  have "\<exists>m'. try_upto ?d (\<lambda>j t. store8 (a + of_nat (?k + j)) 0 t) (s\<lparr>mem := m\<rparr>) = Inr ((s\<lparr>mem := m\<rparr>)\<lparr>mem := m'\<rparr>) \<and>
      same_outside F (mem s) m' \<and> (\<forall>i<?d. m' (R (?k + i)) = 0) \<and>
      (\<forall>x. x \<notin> (\<lambda>j. R (?k + j)) ` {..<?d} \<longrightarrow> m' x = mem (s\<lparr>mem := m\<rparr>) x)"
    using m(2) ka inj assms(2) by (intro copy_loop) (simp_all del: of_nat_add)
  then obtain m' where m': "try_upto ?d (\<lambda>j t. store8 (a + (fz + of_nat j)) 0 t) (s\<lparr>mem := m\<rparr>) = Inr (s\<lparr>mem := m'\<rparr>)"
    "same_outside F (mem s) m'" "\<forall>j<?d. m' (R (?k + j)) = 0" "\<forall>x. x \<notin> (\<lambda>j. R (?k + j)) ` {..<?d} \<longrightarrow> m' x = m x"
    unfolding va by auto
  have "m' (R j) = (if j < ?k then v j else 0)" if j: "j < M" for j
  proof (cases "j < ?k")
    case True
    then have "R j \<notin> (\<lambda>j. R (?k + j)) ` {..<?d}" using inj_onD [OF assms(3), of j] j by fastforce
    then show ?thesis using True m(3) m'(4) by simp
  next
    case False
    then show ?thesis using m'(3) [rule_format, of "j - ?k"] j by simp
  qed
  then show ?thesis using m(1) m'(1,2) by auto
qed

section \<open>Loading a segment\<close>

text \<open>C36. A segment is loaded where its pages are mapped already, to zeroed pages that hold no table and are
  not spare, with four free pages for each: then every byte of the segment in memory, as the active
  page table translates its address, is the byte of the file or zero past the file's part.  The
  translation of every address is what it was: the loader maps nothing.\<close>

theorem elf_segment_loaded:
  fixes s :: "'a kern_state_scheme"
  assumes "vm_inv s (cr3 s)" "p_type ph = PT_LOAD" "p_filesz ph \<le> p_memsz ph" "unat (p_vaddr ph) + unat (p_memsz ph) + 4095 < 2 ^ 64"
    and "4 * length (segment_frames ph s) \<le> card (pmm_avail s)" "distinct (segment_frames ph s)"
    and "\<forall>f \<in> set (segment_frames ph s). f \<noteq> 0 \<and> f \<notin> spare s \<union> tables (mem s) (cr3 s) \<and> zero_page (mem s) f"
    and "\<forall>j < unat (p_filesz ph). (base + p_offset ph + of_nat j) AND NOT 0xFFF \<notin> spare s \<union> set (segment_frames ph s)"
  shows "\<exists>s'. elf_load_segment rcx base ph s = Inr (True, s') \<and>
    (\<forall>j < unat (p_memsz ph). mem s' (vmm_resolve (cr3 s) (p_vaddr ph + of_nat j) s) =
       (if j < unat (p_filesz ph) then mem s (base + p_offset ph + of_nat j) else 0)) \<and>
    (\<forall>va. vmm_resolve (cr3 s') va s' = vmm_resolve (cr3 s) va s)"
proof -
  let ?r = "cr3 s" and ?v = "p_vaddr ph" and ?F = "set (segment_frames ph s)" and ?k = "unat (p_filesz ph)"
  let ?R = "\<lambda>j. vmm_resolve ?r (?v + of_nat j) s"
  have nz: "0 \<notin> ?F" using assms(7) by blast
  obtain s1 where s1: "elf_map_pages rcx (?v AND NOT 0xFFF) (length (segment_addrs ph)) 0 s = Inr (True, s1)"
    "vm_inv s1 ?r" "cr3 s1 = ?r" "tables (mem s1) ?r = tables (mem s) ?r" "\<And>va. pte (mem s1) ?r va = pte (mem s) ?r va"
    "\<And>x. x AND NOT 0xFFF \<notin> spare s \<union> ?F \<Longrightarrow> mem s1 x = mem s x"
    using segment_pages_ready [OF assms(1,5-7)] by metis
  have dis: "?F \<inter> tables (mem s1) ?r = {}" using assms(7) s1(4) by auto
  have ka: "kernel_addr (?v + of_nat j) t = Inr (?R j)"
    if "j < unat (p_memsz ph)" "cr3 t = ?r" "same_outside ?F (mem s1) (mem t)" for j and t :: "'a kern_state_scheme"
    using segment_byte [OF nz assms(4) that(1)] that(2) s1(2,5) pte_same_outside [OF _ that(3) dis]
    by (auto simp: kernel_addr_def vmm_resolve_eq vm_inv_def)
  have RF: "?R j AND NOT (mask 12) \<in> ?F" if "j < unat (p_memsz ph)" for j
    using segment_byte [OF nz assms(4) that] nth_mem unfolding mask12 by metis
  have src: "m (base + p_offset ph + of_nat j) = mem s (base + p_offset ph + of_nat j)"
    if "j < ?k" "same_outside ?F (mem s1) m" for j m
    using that s1(6) assms(8) by (simp add: same_outside_def flip: mask12)
  have "?k \<le> unat (p_memsz ph)" using assms(3) by (simp add: word_le_nat_alt)
  then have "\<exists>m. try_then (try_upto ?k (\<lambda>j t. store8 (?v + of_nat j) (mem t (base + p_offset ph + of_nat j)) t) s1)
        (try_upto (unat (p_memsz ph) - ?k) (\<lambda>k t. store8 (?v + (p_filesz ph + of_nat k)) 0 t)) = Inr (s1\<lparr>mem := m\<rparr>) \<and>
      same_outside ?F (mem s1) m \<and>
      (\<forall>j<unat (p_memsz ph). m (?R j) = (if j < ?k then mem s (base + p_offset ph + of_nat j) else 0))"
    using ka s1(3) RF src by (intro copy_and_clear segment_resolve_inj [OF nz assms(4,6)]) simp_all
  then obtain m where m: "try_then (try_upto ?k (\<lambda>j t. store8 (?v + of_nat j) (mem t (base + p_offset ph + of_nat j)) t) s1)
      (try_upto (unat (p_memsz ph) - ?k) (\<lambda>k t. store8 (?v + (p_filesz ph + of_nat k)) 0 t)) = Inr (s1\<lparr>mem := m\<rparr>)"
    "same_outside ?F (mem s1) m" "\<forall>j<unat (p_memsz ph). m (?R j) = (if j < ?k then mem s (base + p_offset ph + of_nat j) else 0)"
    by blast
  let ?s' = "s1\<lparr>mem := m\<rparr>"
  have "elf_load_segment rcx base ph s = Inr (True, ?s')"
    using s1(1) m(1) assms(2) by (auto simp: elf_load_segment_def segment_addrs_def Let_def try_then_Inr_iff)
  moreover have "vmm_resolve (cr3 ?s') va ?s' = vmm_resolve ?r va s" for va
    using pte_same_outside [OF _ m(2) dis] s1(2,3,5) by (simp add: vmm_resolve_eq vm_inv_def)
  ultimately show ?thesis using m(3) by (intro exI [of _ ?s']) simp
qed

text \<open>The sample program of the ramdisk, with 4 MB mapped to a page of its own.\<close>

lemma sample_disk_byte: "sample_disk 0x50011 = 69"
  by code_simp

lemma sample_disk_outside: "same_outside {0x50000} (\<lambda>_. 0) sample_disk"
proof -
  have "length sample_elf = 120" "length (bytes_of ''bin/sh'') = 6" by code_simp+
  then show ?thesis
    unfolding same_outside_def sample_disk_def by (simp add: write_bytes_page [of _ "0x50000"])
qed

lemma shell_kernel_ready:
  "mem shell_kernel = sample_disk" "cr3 shell_kernel = 0x10000" "vm_inv shell_kernel 0x10000" "card (pmm_avail shell_kernel) = 16"
  "unat r < 0x100000 \<Longrightarrow> r \<notin> spare shell_kernel"
proof -
  let ?k = "initial_kernel small_layout sample_disk" and ?z = "shell_kernel\<lparr>mem := \<lambda>_. 0\<rparr>"
  have b: "length (bitmap ?k) = BITMAP_SIZE" by (simp add: initial_kernel_static)
  have p: "pmm_inv (pmm_init 0x200000 0x10000 ?k)" by (rule pmm_init_inv [OF b]) simp_all
  note f = pmm_init_fields [OF b, of "0x200000" "0x10000"] and m = vmm_more_fields [OF pmm_init_more [of "0x200000" "0x10000" ?k]]
  have i: "pmm_inv shell_kernel" using p by (simp add: shell_kernel_def pmm_inv_def free_pages_def)
  have s: "pt_pool shell_kernel = 0x100000" "pt_pool_used shell_kernel = 0" "pmm_base shell_kernel = 0x200000"
    "unat (pmm_total_pages shell_kernel) = 16"
    by (simp_all add: shell_kernel_def m f(2,3) initial_kernel_static) (simp_all add: small_layout_def PAGE_ALIGN_def ALIGN_UP_def)
  have fp: "free_pages shell_kernel = {..<16}" using f(3,6) by (simp add: shell_kernel_def free_pages_def)
  show "mem shell_kernel = sample_disk" "cr3 shell_kernel = 0x10000"
    by (simp_all add: shell_kernel_def m initial_kernel_static) (simp add: small_layout_def)
  show sp: "r \<notin> spare shell_kernel" if "unat r < 0x100000" for r
    using machine_not_spare [OF s(1-3) _ i that] s(4) by simp
  show "card (pmm_avail shell_kernel) = 16" by (rule card_machine_avail [OF i fp s(4)])
  have z: "vm_inv ?z 0x10000" by (rule machine_vm_inv) (use i s in simp_all)
  have "vm_inv (?z\<lparr>mem := sample_disk\<rparr>) 0x10000"
    by (rule vm_inv_same_outside [OF z, of "{0x50000}"]) (use sp [of "0x50000"] sample_disk_outside in \<open>simp_all add: tables_zero\<close>)
  moreover have "?z\<lparr>mem := sample_disk\<rparr> = shell_kernel" using \<open>mem shell_kernel = sample_disk\<close> by simp
  ultimately show "vm_inv shell_kernel 0x10000" by simp
qed

theorem elf_segment_loaded_witness:
  "\<exists>s s'. vmm_map 0x10000 0x400000 0x60000 3 shell_kernel = Inr (0, s) \<and>
    elf_load_segment 0 0x50010 (phdr_at sample_disk 0x50050) s = Inr (True, s') \<and>
    vmm_resolve (cr3 s) 0x400001 s = 0x60001 \<and> mem s' 0x60001 = 69 \<and> mem s' 0x60078 = 0"
proof -
  let ?s = shell_kernel and ?ph = "phdr_at sample_disk 0x50050"
  note k = shell_kernel_ready
  have "finite (spare ?s)" using k(3) by (simp add: finite_spare vm_inv_def)
  then have "card (pmm_avail ?s) \<le> card (spare ?s)" by (intro card_mono) (auto simp: spare_def)
  then obtain s where m: "vmm_map 0x10000 0x400000 0x60000 3 ?s = Inr (0, s)"
    using vmm_map_total [OF k(3), of "0x400000" "0x60000" 3] k(4) by auto
  note sp = vmm_map_spec [OF k(3) m]
  have c: "cr3 s = 0x10000" using same_config_vmm_map [OF m] k(2) by (simp add: same_config_def)
  have tb: "tables sample_disk 0x10000 = {0x10000}"
    using tree_same_outside(2) [OF pt_inv_zero sample_disk_outside, of "0x10000"] by (simp add: tables_zero)
  have out: "r \<notin> spare s \<union> tables (mem s) 0x10000" if "unat r < 0x100000" "r \<noteq> 0x10000" for r
    using k(5) [OF that(1)] that(2) sp(2) tb k(1) by (auto simp: grows_def)
  have e: "pte (mem s) 0x10000 va = leaf_entry 0x60000 3" if "same_page 0x400000 va" for va using sp(4) that by simp
  have res: "vmm_resolve 0x10000 0x400000 s = 0x60000" "vmm_resolve 0x10000 0x400001 s = 0x60001" "vmm_resolve 0x10000 0x400078 s = 0x60078"
    by (simp_all add: vmm_resolve_eq e same_page_iff) (simp_all add: leaf_entry_def present_def PTE_PHYS_def)
  have fr: "segment_frames ?ph s = [0x60000]"
    by (simp add: segment_frames_def segment_addrs_def sample_disk_phdr c res)
  have "zero_page sample_disk 0x60000"
    using load64_same_outside [OF sample_disk_outside, of "0x60000"] by (simp add: zero_page_def load64_zero)
  then have z: "zero_page (mem s) 0x60000"
    using sp(2) tb k(1) k(5) [of "0x60000"] by (simp add: zero_page_def grows_def)
  have src: "(0x50010 + of_nat j) AND NOT 0xFFF = (0x50000 :: u64)" if "j < 120" for j
  proof -
    have "unat (0x50010 + of_nat j :: u64) = 0x50010 + j" using that by (simp add: unat_word_ariths unat_of_nat)
    then have "unat ((0x50010 + of_nat j :: u64) AND NOT (mask 12)) = 0x50000" using that by (simp add: unat_and_not_mask)
    then show ?thesis by (simp add: mask12 word_unat_eq_iff)
  qed
  have "vm_inv s (cr3 s)" using grows_inv [OF sp(2)] c by simp
  moreover have "4 * length (segment_frames ?ph s) \<le> card (pmm_avail s)" using vmm_map_avail [OF k(3) m] k(4) by (simp add: fr)
  ultimately obtain s' where s': "elf_load_segment 0 0x50010 ?ph s = Inr (True, s')"
    "\<forall>j < 200. mem s' (vmm_resolve 0x10000 (0x400000 + of_nat j) s) = (if j < 120 then mem s (0x50010 + of_nat j) else 0)"
    using elf_segment_loaded [of s ?ph "0x50010" 0] out [of "0x60000"] out [of "0x50000"] z src
    by (auto simp: fr [unfolded sample_disk_phdr] c sample_disk_phdr cong: if_cong)
  have "mem s 0x50011 = sample_disk 0x50011"
    using grows_byte [OF sp(2), of "0x50011"] src [of 1] k(1) k(5) [of "0x50000"] tb by (simp add: mask12)
  then have "mem s 0x50011 = 69" by (simp add: sample_disk_byte)
  then show ?thesis
    using m s'(1) s'(2) [rule_format, of 1] s'(2) [rule_format, of 120] res c by auto
qed

end
