(* ===== verification/Boot_Asm.thy ===== *)
theory Boot_Asm
  imports Elf_Segment Initrd_Props
begin

text \<open>
  The code before \<^verbatim>\<open>kernel_main\<close>: \<^verbatim>\<open>boot/boot.asm\<close>, which checks the processor, builds the first page tables,
  enters long mode and calls the kernel, with the accessors of control and model-specific registers of
  \<^verbatim>\<open>include/arch/x86_64.h\<close>.  Pushes of return addresses to the boot stack are left out, as the C stack is.
\<close>

section \<open>Control registers\<close>

record control_regs =
  c_cr0 :: u64
  c_cr3 :: u64
  c_cr4 :: u64
  c_msr :: "u32 \<Rightarrow> u64"

definition read_cr0 :: "control_regs \<Rightarrow> u64" where "read_cr0 c = c_cr0 c"
definition write_cr0 :: "u64 \<Rightarrow> control_regs \<Rightarrow> control_regs" where "write_cr0 v c = c\<lparr>c_cr0 := v\<rparr>"
definition read_cr3 :: "control_regs \<Rightarrow> u64" where "read_cr3 c = c_cr3 c"
definition write_cr3 :: "u64 \<Rightarrow> control_regs \<Rightarrow> control_regs" where "write_cr3 v c = c\<lparr>c_cr3 := v\<rparr>"
definition read_cr4 :: "control_regs \<Rightarrow> u64" where "read_cr4 c = c_cr4 c"
definition write_cr4 :: "u64 \<Rightarrow> control_regs \<Rightarrow> control_regs" where "write_cr4 v c = c\<lparr>c_cr4 := v\<rparr>"

text \<open>The instructions move the two halves of a register through \<^verbatim>\<open>edx\<close> and \<^verbatim>\<open>eax\<close>.\<close>

definition rdmsr :: "u32 \<Rightarrow> control_regs \<Rightarrow> u64" where
  "rdmsr msr c = (let lo = ucast (c_msr c msr) :: u32; hi = ucast (drop_bit 32 (c_msr c msr)) :: u32
     in push_bit 32 (ucast hi) OR ucast lo)"

definition wrmsr :: "u32 \<Rightarrow> u64 \<Rightarrow> control_regs \<Rightarrow> control_regs" where
  "wrmsr msr v c = (let eax = ucast v :: u32; edx = ucast (drop_bit 32 v) :: u32
     in c\<lparr>c_msr := (c_msr c)(msr := push_bit 32 (ucast edx) OR ucast eax)\<rparr>)"

lemma halves: "push_bit 32 (ucast (ucast (drop_bit 32 v) :: u32)) OR ucast (ucast v :: u32) = v" for v :: u64
proof (rule bit_word_eqI)
  fix i assume "i < LENGTH(64)"
  then show "bit (push_bit 32 (ucast (ucast (drop_bit 32 v) :: u32)) OR ucast (ucast v :: u32) :: u64) i = bit v i"
    by (cases "i < 32") (auto simp: bit_simps)
qed

lemma rdmsr_eq: "rdmsr msr c = c_msr c msr"
  by (simp only: rdmsr_def Let_def halves)

lemma wrmsr_eq: "wrmsr msr v c = c\<lparr>c_msr := (c_msr c)(msr := v)\<rparr>"
  by (simp only: wrmsr_def Let_def halves)

section \<open>Processor checks\<close>

text \<open>
  What the processor answers: the flags register, its value after a write to it, and \<^verbatim>\<open>cpuid\<close>.
\<close>

record processor =
  eflags :: u32
  popf :: "u32 \<Rightarrow> u32"
  cpuid :: "u32 \<Rightarrow> u32 \<times> u32 \<times> u32 \<times> u32"

definition check_cpuid :: "processor \<Rightarrow> bool" where
  "check_cpuid P = (popf P (eflags P XOR push_bit 21 1) XOR eflags P \<noteq> 0)"

definition check_long_mode :: "processor \<Rightarrow> bool" where
  "check_long_mode P =
     (case cpuid P 0x80000000 of (eax, _, _, _) \<Rightarrow>
        if eax < 0x80000001 then False
        else (case cpuid P 0x80000001 of (_, _, _, edx) \<Rightarrow> edx AND push_bit 29 1 \<noteq> 0))"

definition boot_error :: "u8 \<Rightarrow> memory \<Rightarrow> memory" where
  "boot_error al m = m(0xB8000 := al, 0xB8001 := 0x4F)"

section \<open>Page tables\<close>

text \<open>The four tables follow one another in \<^verbatim>\<open>.bss\<close>; the linker chooses where.\<close>

record boot_symbols =
  pml4_table :: u32
  gdt64 :: u32

definition pdp_table :: "boot_symbols \<Rightarrow> u32" where "pdp_table S = pml4_table S + 4096"
definition pd_table :: "boot_symbols \<Rightarrow> u32" where "pd_table S = pdp_table S + 4096"
definition pt_table :: "boot_symbols \<Rightarrow> u32" where "pt_table S = pd_table S + 4096"

definition store32 :: "memory \<Rightarrow> u64 \<Rightarrow> u32 \<Rightarrow> memory" where
  "store32 m a v = store_le 4 m a (ucast v)"

definition map_pt :: "boot_symbols \<Rightarrow> nat \<Rightarrow> memory \<Rightarrow> memory" where
  "map_pt S n m = for_upto n (\<lambda>ecx m. store32 m (ucast (pt_table S + of_nat ecx * 8)) ((0x1000 * of_nat ecx) OR 3)) m"

definition setup_paging :: "boot_symbols \<Rightarrow> control_regs \<times> memory \<Rightarrow> control_regs \<times> memory" where
  "setup_paging S = (\<lambda>(c, m).
     let m1 = store32 m (ucast (pml4_table S)) (pdp_table S OR 3);
         m2 = store32 m1 (ucast (pdp_table S)) (pd_table S OR 3);
         m3 = store32 m2 (ucast (pd_table S)) (pt_table S OR 3);
         m4 = map_pt S 512 m3;
         c1 = write_cr3 (ucast (pml4_table S)) c
     in (write_cr4 (read_cr4 c1 OR push_bit 5 1) c1, m4))"

section \<open>Entering the kernel\<close>

definition gdt64_entries :: "u64 list" where
  "gdt64_entries = [0, push_bit 43 1 OR push_bit 44 1 OR push_bit 47 1 OR push_bit 53 1,
     push_bit 44 1 OR push_bit 47 1 OR push_bit 41 1]"

record handoff =
  h_rdi :: u64
  h_rsi :: u64
  h_cs :: u16
  h_ds :: u16
  h_gdtr :: table_reg
  h_regs :: control_regs
  h_mem :: memory

definition load_gdt :: "boot_symbols \<Rightarrow> table_reg" where
  "load_gdt S = \<lparr>tr_limit = of_nat (8 * length gdt64_entries - 1), tr_base = ucast (gdt64 S)\<rparr>"

text \<open>\<^verbatim>\<open>_start\<close>: the loader passes its magic number in \<^verbatim>\<open>eax\<close> and its information in \<^verbatim>\<open>ebx\<close>.  \<open>Inl\<close> is the halted machine.\<close>

definition boot_start :: "processor \<Rightarrow> boot_symbols \<Rightarrow> u32 \<Rightarrow> u32 \<Rightarrow> control_regs \<Rightarrow> memory \<Rightarrow> memory + handoff" where
  "boot_start P S eax ebx c m =
     (let edi = eax; esi = ebx in
      if \<not> check_cpuid P then Inl (boot_error 48 m)
      else if \<not> check_long_mode P then Inl (boot_error 49 m)
      else
        let (c1, m1) = setup_paging S (c, m);
            gdtr = load_gdt S;
            c2 = wrmsr 0xC0000080 (rdmsr 0xC0000080 c1 OR push_bit 8 1) c1;
            c3 = write_cr0 (read_cr0 c2 OR (push_bit 31 1 OR 1)) c2
        in Inr \<lparr>h_rdi = ucast edi, h_rsi = ucast esi, h_cs = 0x08, h_ds = 0x10, h_gdtr = gdtr, h_regs = c3, h_mem = m1\<rparr>)"

text \<open>The bits that make the processor run 64-bit code with these tables.\<close>

definition long_mode :: "control_regs \<Rightarrow> bool" where
  "long_mode c \<longleftrightarrow> bit (c_cr0 c) 31 \<and> bit (c_cr0 c) 0 \<and> bit (c_cr4 c) 5 \<and> bit (c_msr c 0xC0000080) 8"

section \<open>The tables in memory\<close>

lemma load64_store32:
  assumes "aligned8 a" "aligned8 b" "load64 m a = 0"
  shows "load64 (store32 m a v) b = (if a = b then ucast v else load64 m b)"
proof (cases "a = b")
  case True
  have z: "\<not> bit (m (a + of_nat k)) j" if "k < 8" "j < 8" for k j
  proof -
    have "\<not> bit (load64 m a) (8 * k + j)" using assms(3) by simp
    then show ?thesis using that by (simp add: load64_def bit_load_le)
  qed
  have "load64 (store32 m a v) a = ucast v"
  proof (rule bit_word_eqI)
    fix i assume l: "i < LENGTH(64)"
    define k j where "k = i div 8" and "j = i mod 8"
    have i: "k < 8" "j < 8" "i = 8 * k + j" "i < 64" using l by (simp_all add: k_def j_def)
    have d: "unat (of_nat k :: u64) = k" using i(1) by (simp add: unat_of_nat)
    have "bit (load64 (store32 m a v) a) i \<longleftrightarrow> bit (store32 m a v (a + of_nat k)) j"
      using l by (simp add: load64_def bit_load_le k_def j_def)
    also have "\<dots> \<longleftrightarrow> k < 4 \<and> bit v (8 * k + j)"
      using d z [OF i(1,2)] i(2) by (auto simp: store32_def store_le_apply bit_simps)
    also have "\<dots> \<longleftrightarrow> bit (ucast v :: u64) i"
      using i by (auto simp: bit_simps dest: bit_imp_le_length)
    finally show "bit (load64 (store32 m a v) a) i = bit (ucast v :: u64) i" .
  qed
  then show ?thesis using True by simp
next
  case False
  have "load64 (store32 m a v) b = load64 m b"
    unfolding load64_def store32_def
  proof (rule load_le_cong)
    fix i :: nat
    assume i: "i < 8"
    have "b + of_nat i - a = (b - a) + of_nat i" by simp
    then have u: "unat (b + of_nat i - a) = unat (b - a) + i"
      using dvd8_add_small [OF dvd8_unat_diff [OF assms(1,2)] i] by (simp only:)
    have "unat (b - a) \<noteq> 0" using False by (simp add: unat_eq_0)
    then have "8 \<le> unat (b - a)" using dvd8_unat_diff [OF assms(1,2)] dvd_imp_le by blast
    then show "store_le 4 m a (ucast v) (b + of_nat i) = m (b + of_nat i)" using u by (simp add: store_le_apply)
  qed
  then show ?thesis using False by simp
qed

text \<open>The address of each of the four tables.\<close>

definition boot_table :: "boot_symbols \<Rightarrow> nat \<Rightarrow> u64" where
  "boot_table S k = ucast (pml4_table S) + of_nat (4096 * k)"

definition tables_fit :: "boot_symbols \<Rightarrow> bool" where
  "tables_fit S \<longleftrightarrow> 4096 dvd unat (pml4_table S) \<and> unat (pml4_table S) + 4 * 4096 \<le> 2 ^ 32"

lemma unat_boot_table:
  assumes "tables_fit S" "k < 4"
  shows "unat (boot_table S k) = unat (pml4_table S) + 4096 * k"
proof -
  have "unat (of_nat (4096 * k) :: u64) = 4096 * k" using assms(2) by (intro unat_of_nat_u64) simp
  then show ?thesis using assms unfolding boot_table_def tables_fit_def by (subst unat_add_u64) simp_all
qed

lemma boot_table_page: "tables_fit S \<Longrightarrow> k < 4 \<Longrightarrow> 4096 dvd unat (boot_table S k) \<and> unat (boot_table S k) < 2 ^ 52"
  using unat_boot_table [of S k] by (auto simp: tables_fit_def)

lemma boot_table_inject: "tables_fit S \<Longrightarrow> j < 4 \<Longrightarrow> k < 4 \<Longrightarrow> boot_table S j = boot_table S k \<longleftrightarrow> j = k"
  by (simp add: word_unat_eq_iff unat_boot_table)

lemma symbol_table:
  assumes "tables_fit S"
  shows "ucast (pml4_table S) = boot_table S 0" "ucast (pdp_table S) = boot_table S 1" "ucast (pd_table S) = boot_table S 2"
    "ucast (pt_table S) = boot_table S 3"
proof -
  have u: "unat (pml4_table S) + 4 * 4096 \<le> 2 ^ 32" using assms by (simp add: tables_fit_def)
  have "unat (pdp_table S) = unat (pml4_table S) + 4096" "unat (pd_table S) = unat (pml4_table S) + 8192"
    "unat (pt_table S) = unat (pml4_table S) + 12288"
    using u by (simp_all add: pdp_table_def pd_table_def pt_table_def unat_word_ariths)
  then show "ucast (pml4_table S) = boot_table S 0" "ucast (pdp_table S) = boot_table S 1" "ucast (pd_table S) = boot_table S 2"
    "ucast (pt_table S) = boot_table S 3"
    by (simp_all add: word_unat_eq_iff unat_boot_table [OF assms])
qed

lemma table_pointer:
  assumes "tables_fit S" "k < 4" "ucast t = boot_table S k"
  shows "PTE_PHYS (ucast (t OR 3 :: u32)) = boot_table S k" "present (ucast (t OR 3 :: u32))"
proof -
  have e: "ucast (t OR 3 :: u32) = boot_table S k OR PTE_PRESENT OR PTE_WRITABLE OR (0 AND PTE_USER)"
    using assms(3) by (simp add: unsigned_or_eq or.assoc)
  show "PTE_PHYS (ucast (t OR 3 :: u32)) = boot_table S k" "present (ucast (t OR 3 :: u32))"
    unfolding e using boot_table_page [OF assms(1,2)] by (blast intro: table_entry)+
qed

definition page_entry :: "u64 \<Rightarrow> u64" where
  "page_entry i = i * 4096 OR 3"

lemma map_pt_entry:
  assumes "k < 512"
  shows "ucast ((0x1000 * of_nat k :: u32) OR 3) = page_entry (of_nat k)"
proof -
  have "(ucast (0x1000 * of_nat k :: u32) :: u64) = of_nat k * 4096"
    using assms by (simp add: word_unat_eq_iff unat_word_ariths unat_of_nat)
  then show ?thesis by (simp add: page_entry_def unsigned_or_eq)
qed

lemma map_pt_addr:
  assumes "tables_fit S" "n < 512"
  shows "ucast (pt_table S + of_nat n * 8) = cell (boot_table S 3) (of_nat n)"
proof -
  have n: "unat (of_nat n :: u64) = n" using assms(2) by (simp add: unat_of_nat)
  have "unat (pt_table S) = unat (boot_table S 3)" using symbol_table(4) [OF assms(1)] unat_ucast_32 by metis
  then have "unat (pt_table S + of_nat n * 8) = unat (boot_table S 3) + 8 * n"
    using assms unat_boot_table [OF assms(1), of 3] by (simp add: tables_fit_def unat_word_ariths unat_of_nat)
  moreover have "unat (cell (boot_table S 3) (of_nat n)) = unat (boot_table S 3) + 8 * n"
    using unat_cell [of "boot_table S 3" "of_nat n"] boot_table_page [OF assms(1), of 3] n assms(2) by simp
  ultimately show ?thesis by (simp add: word_unat_eq_iff)
qed

lemma load64_map_pt:
  assumes fit: "tables_fit S" and z: "zero_page m (boot_table S 3)" and n: "n \<le> 512" and u: "4096 dvd unat u" "unat i < 512"
  shows "load64 (map_pt S n m) (cell u i) =
    (if u = boot_table S 3 \<and> unat i < n then page_entry i else load64 m (cell u i))"
  using n u
proof (induction n arbitrary: u i)
  case 0
  then show ?case by (simp add: map_pt_def)
next
  case (Suc n)
  have n: "unat (of_nat n :: u64) = n" using Suc.prems(1) by (simp add: unat_of_nat)
  have a: "ucast (pt_table S + of_nat n * 8) = cell (boot_table S 3) (of_nat n)"
    using Suc.prems(1) by (intro map_pt_addr [OF fit]) simp
  have t: "4096 dvd unat (boot_table S 3)" "unat (of_nat n :: u64) < 512" using boot_table_page [OF fit, of 3] n Suc.prems(1) by simp_all
  have "load64 (map_pt S n m) (cell (boot_table S 3) (of_nat n)) = 0"
    using Suc.IH [OF _ t] Suc.prems(1) n z t(2) by (simp add: zero_page_def)
  then have "load64 (map_pt S (Suc n) m) (cell u i) =
      (if cell (boot_table S 3) (of_nat n) = cell u i then page_entry (of_nat n) else load64 (map_pt S n m) (cell u i))"
    using a map_pt_entry [of n] Suc.prems aligned8_cell [OF t] aligned8_cell [of u i]
    by (simp add: map_pt_def load64_store32)
  moreover have "cell (boot_table S 3) (of_nat n) = cell u i \<longleftrightarrow> u = boot_table S 3 \<and> unat i = n"
    using cell_inject [OF t(1) Suc.prems(2) t(2) Suc.prems(3)] n by auto
  ultimately show ?case using Suc.IH [OF _ Suc.prems(2,3)] Suc.prems(1) by (auto simp: less_Suc_eq)
qed

lemma load64_setup_paging:
  assumes fit: "tables_fit S" and z: "\<forall>k<4. zero_page m (boot_table S k)" and u: "4096 dvd unat u" "unat i < 512"
  shows "load64 (snd (setup_paging S (c, m))) (cell u i) =
    (if u = boot_table S 3 then page_entry i
     else if u = boot_table S 0 then (if i = 0 then ucast (pdp_table S OR 3) else 0)
     else if u = boot_table S 1 then (if i = 0 then ucast (pd_table S OR 3) else 0)
     else if u = boot_table S 2 then (if i = 0 then ucast (pt_table S OR 3) else 0)
     else load64 m (cell u i))"
proof -
  have al: "4096 dvd unat (boot_table S k)" if "k < 4" for k using boot_table_page [OF fit that] by simp
  have c0: "boot_table S k = cell (boot_table S k) 0" for k by (simp add: cell_def)
  have ld: "load64 (store32 m' (boot_table S k) v) (cell w j) = (if w = boot_table S k \<and> j = 0 then ucast v else load64 m' (cell w j))"
    if "k < 4" "4096 dvd unat w" "unat j < 512" "load64 m' (boot_table S k) = 0" for m' k v w j
  proof -
    have "aligned8 (boot_table S k)" using aligned8_cell [OF al [OF that(1)], of 0] c0 [of k] by simp
    moreover have "boot_table S k = cell w j \<longleftrightarrow> w = boot_table S k \<and> j = 0"
      using cell_inject [OF al [OF that(1)] that(2), of 0 j] c0 [of k] that(3) by auto
    ultimately show ?thesis using aligned8_cell [OF that(2,3)] that(4) by (simp add: load64_store32)
  qed
  have z': "load64 m (cell (boot_table S k) j) = 0" if "k < 4" "unat j < 512" for k j using z that by (simp add: zero_page_def)
  note inj = boot_table_inject [OF fit]
  define m1 where "m1 = store32 m (boot_table S 0) (pdp_table S OR 3)"
  have 1: "load64 m1 (cell w j) = (if w = boot_table S 0 \<and> j = 0 then ucast (pdp_table S OR 3) else load64 m (cell w j))"
    if "4096 dvd unat w" "unat j < 512" for w j
    unfolding m1_def using ld [OF _ that, of 0 m] z' [of 0 0] c0 [of 0] by simp
  define m2 where "m2 = store32 m1 (boot_table S 1) (pd_table S OR 3)"
  have 2: "load64 m2 (cell w j) = (if w = boot_table S 1 \<and> j = 0 then ucast (pd_table S OR 3) else load64 m1 (cell w j))"
    if "4096 dvd unat w" "unat j < 512" for w j
    unfolding m2_def using ld [OF _ that, of 1 m1] 1 [OF al, of 1 0] z' [of 1 0] c0 [of 1] inj [of 1 0] by simp
  define m3 where "m3 = store32 m2 (boot_table S 2) (pt_table S OR 3)"
  have 3: "load64 m3 (cell w j) = (if w = boot_table S 2 \<and> j = 0 then ucast (pt_table S OR 3) else load64 m2 (cell w j))"
    if "4096 dvd unat w" "unat j < 512" for w j
    unfolding m3_def using ld [OF _ that, of 2 m2] 1 [OF al, of 2 0] 2 [OF al, of 2 0] z' [of 2 0] c0 [of 2] inj [of 2 0] inj [of 2 1]
    by simp
  have "zero_page m3 (boot_table S 3)"
    unfolding zero_page_def using 1 [OF al, of 3] 2 [OF al, of 3] 3 [OF al, of 3] z' [of 3] inj [of 3 0] inj [of 3 1] inj [of 3 2] by simp
  moreover have "snd (setup_paging S (c, m)) = map_pt S 512 m3"
    by (simp add: setup_paging_def Let_def symbol_table [OF fit] m1_def m2_def m3_def)
  ultimately show ?thesis
    using load64_map_pt [OF fit _ order_refl u, of m3] u z' 1 [OF u] 2 [OF u] 3 [OF u] inj [of 0 1] inj [of 0 2] inj [of 0 3] inj [of 1 2] inj [of 1 3] inj [of 2 3]
    by auto
qed

section \<open>The walk through the first tables\<close>

lemma boot_walk:
  fixes c :: control_regs
  assumes fit: "tables_fit S" and z: "\<forall>k<4. zero_page m (boot_table S k)"
  defines "m' \<equiv> snd (setup_paging S (c, m))"
  shows "k \<le> 3 \<Longrightarrow> tbl m' (boot_table S 0) k va = (if \<forall>j<k. ix j va = 0 then Some (boot_table S k) else None)"
    and "pte m' (boot_table S 0) va = (if \<forall>j<3. ix j va = 0 then page_entry (ix 3 va) else 0)"
    and "tables m' (boot_table S 0) = boot_table S ` {..<4}" and "pt_inv m' (boot_table S 0)"
proof -
  have al: "4096 dvd unat (boot_table S k)" if "k < 4" for k using boot_table_page [OF fit that] by simp
  note ld = load64_setup_paging [OF fit z al ix_less, of _ c, folded m'_def]
  note inj = boot_table_inject [OF fit]
  have np: "\<not> present 0" by (simp add: present_def)
  have walk: "tbl m' (boot_table S 0) k va = (if \<forall>j<k. ix j va = 0 then Some (boot_table S k) else None)" if "k \<le> 3" for k va
    using that
  proof (induction k)
    case (Suc k)
    have "k = 0 \<or> k = 1 \<or> k = 2" using Suc.prems by auto
    then have "load64 m' (cell (boot_table S k) (ix k va)) =
        (if ix k va = 0 then ucast ((if k = 0 then pdp_table S else if k = 1 then pd_table S else pt_table S) OR 3) else 0)"
      using ld [of k k va] inj [of k 3] inj [of k 0] inj [of k 1] inj [of k 2] by auto
    moreover have "PTE_PHYS (ucast ((if k = 0 then pdp_table S else if k = 1 then pd_table S else pt_table S) OR 3)) = boot_table S (Suc k) \<and>
        present (ucast ((if k = 0 then pdp_table S else if k = 1 then pd_table S else pt_table S) OR 3))"
      using \<open>k = 0 \<or> k = 1 \<or> k = 2\<close> table_pointer [OF fit _ symbol_table(2) [OF fit]] table_pointer [OF fit _ symbol_table(3) [OF fit]]
        table_pointer [OF fit _ symbol_table(4) [OF fit]] by (auto simp: numeral_2_eq_2 numeral_3_eq_3)
    ultimately show ?case using Suc np by (auto simp: Let_def less_Suc_eq)
  qed simp
  then show "k \<le> 3 \<Longrightarrow> tbl m' (boot_table S 0) k va = (if \<forall>j<k. ix j va = 0 then Some (boot_table S k) else None)" .
  show "pte m' (boot_table S 0) va = (if \<forall>j<3. ix j va = 0 then page_entry (ix 3 va) else 0)"
    using walk [of 3 va] ld [of 3 3 va] by (auto simp: pte_def)
  show "tables m' (boot_table S 0) = boot_table S ` {..<4}"
  proof (intro equalityI subsetI)
    fix t assume "t \<in> tables m' (boot_table S 0)"
    then obtain k va where k: "k \<le> 3" "tbl m' (boot_table S 0) k va = Some t" by (auto simp: tables_def)
    then have "t = boot_table S k" using walk [of k va] by (auto split: if_splits)
    then show "t \<in> boot_table S ` {..<4}" using k(1) by auto
  next
    fix t assume "t \<in> boot_table S ` {..<4}"
    then obtain k where k: "k < 4" "t = boot_table S k" by auto
    have "ix j 0 = 0" for j by (simp add: ix_def)
    then have "tbl m' (boot_table S 0) k 0 = Some t" using walk [of k 0] k by simp
    then show "t \<in> tables m' (boot_table S 0)" by (rule tablesI) (use k(1) in simp)
  qed
  show "pt_inv m' (boot_table S 0)"
    unfolding pt_inv_def
  proof (intro conjI allI impI)
    show "4096 dvd unat (boot_table S 0)" by (rule al) simp
    fix k k' va va' t
    assume k: "k \<le> 3" "k' \<le> 3" and t: "tbl m' (boot_table S 0) k va = Some t" "tbl m' (boot_table S 0) k' va' = Some t"
    have a: "t = boot_table S k" "\<forall>j<k. ix j va = 0" using t(1) walk [OF k(1)] by (auto split: if_splits)
    have b: "t = boot_table S k'" "\<forall>j<k'. ix j va' = 0" using t(2) walk [OF k(2)] by (auto split: if_splits)
    show kk: "k = k'" using a(1) b(1) inj [of k k'] k by simp
    then show "same_path k va va'" using a(2) b(2) by (simp add: same_path_def)
  qed
qed

lemma unat_ix: "unat (ix k va) = unat va div 2 ^ (39 - 9 * k) mod 512"
proof -
  have "ix k va = take_bit 9 (drop_bit (39 - 9 * k) va)"
    by (simp add: ix_def take_bit_eq_mask mask_eq_exp_minus_1)
  then have "unat (ix k va) = unat (drop_bit (39 - 9 * k) va) mod 512" by (simp only: unat_take_bit) simp
  then show ?thesis unfolding unat_drop_bit_eq by (simp add: drop_bit_eq_div)
qed

text \<open>Below 2^48 the upper three indices are zero exactly below two megabytes.\<close>

lemma low_region:
  assumes "unat va < 2 ^ 48"
  shows "(\<forall>j<3. ix j va = 0) \<longleftrightarrow> unat va < 2 ^ 21"
proof
  assume "\<forall>j<3. ix j va = 0"
  then have z: "unat (ix 0 va) = 0" "unat (ix 1 va) = 0" "unat (ix 2 va) = 0" by simp_all
  have "unat va div 2 ^ 39 < 512" using assms by (simp add: less_mult_imp_div_less)
  then have "unat va < 2 ^ 39" using z(1) unfolding unat_ix by (simp add: div_eq_0_iff)
  then have "unat va div 2 ^ 30 < 512" by (simp add: less_mult_imp_div_less)
  then have "unat va < 2 ^ 30" using z(2) unfolding unat_ix by (simp add: div_eq_0_iff)
  then have "unat va div 2 ^ 21 < 512" by (simp add: less_mult_imp_div_less)
  then show "unat va < 2 ^ 21" using z(3) unfolding unat_ix by (simp add: div_eq_0_iff)
next
  assume l: "unat va < 2 ^ 21"
  have "unat (ix j va) = 0" if "j < 3" for j
  proof -
    have "j = 0 \<or> j = 1 \<or> j = 2" using that by auto
    then show ?thesis unfolding unat_ix using l by auto
  qed
  then show "\<forall>j<3. ix j va = 0" by (simp add: unat_eq_0)
qed

lemma low_entry:
  assumes "unat va < 2 ^ 21"
  shows "page_entry (ix 3 va) = (va AND NOT 0xFFF) OR 3"
proof -
  have "unat (ix 3 va) = unat va div 4096" unfolding unat_ix using assms by (simp add: less_mult_imp_div_less)
  moreover have "unat va div 4096 * 4096 < 2 ^ 64" by (rule le_less_trans [OF div_times_less_eq_dividend unat_less_u64])
  ultimately have "unat (ix 3 va * 4096) = unat (va AND NOT (mask 12))" by (simp add: unat_and_not_mask unat_word_ariths)
  then have "ix 3 va * 4096 = va AND NOT 0xFFF" by (simp add: word_unat_eq_iff mask_eq_exp_minus_1)
  then show ?thesis by (simp add: page_entry_def)
qed

section \<open>What boot.asm hands over\<close>

lemma store32_page:
  assumes "tables_fit S" "k < 4" "unat i < 512"
  shows "same_outside {boot_table S k} m (store32 m (cell (boot_table S k) i) v)"
  unfolding same_outside_def
proof (intro allI impI)
  fix x assume x: "x AND NOT (mask 12) \<notin> {boot_table S k}"
  have al: "4096 dvd unat (boot_table S k)" "unat (boot_table S k) + 4096 \<le> 2 ^ 64"
    using boot_table_page [OF assms(1,2)] by simp_all
  have "\<not> unat (x - cell (boot_table S k) i) < 4"
    using near_page [OF al(1) _ _ al(2), of "cell (boot_table S k) i" 4 x] unat_cell [OF al(1) assms(3)] assms(3) x by auto
  then show "store32 m (cell (boot_table S k) i) v x = m x" by (simp add: store32_def store_le_apply)
qed

lemma same_outside_trans: "same_outside F m m' \<Longrightarrow> same_outside F m' m'' \<Longrightarrow> same_outside F m m''"
  by (simp add: same_outside_def)

lemma same_outside_mono: "same_outside F m m' \<Longrightarrow> F \<subseteq> G \<Longrightarrow> same_outside G m m'"
  by (auto simp: same_outside_def)

lemma setup_paging_outside:
  assumes fit: "tables_fit S"
  shows "same_outside (boot_table S ` {..<4}) m (snd (setup_paging S (c, m)))"
proof -
  let ?F = "boot_table S ` {..<4}"
  have st: "same_outside ?F m' (store32 m' (cell (boot_table S k) i) v)" if "k < 4" "unat i < 512" for m' k i v
    using store32_page [OF fit that, of m' v] that(1) by (auto intro: same_outside_mono)
  have st0: "same_outside ?F m' (store32 m' (boot_table S k) v)" if "k < 4" for m' k v
    using st [OF that, of 0 m' v] by (simp add: cell_def)
  have "same_outside ?F m' (map_pt S n m')" if "n \<le> 512" for m' n
    using that
  proof (induction n)
    case 0
    show ?case by (simp add: map_pt_def same_outside_def)
  next
    case (Suc n)
    have n: "unat (of_nat n :: u64) = n" using Suc.prems by (simp add: unat_of_nat)
    have "ucast (pt_table S + of_nat n * 8) = cell (boot_table S 3) (of_nat n)"
      using Suc.prems by (intro map_pt_addr [OF fit]) simp
    then have "map_pt S (Suc n) m' = store32 (map_pt S n m') (cell (boot_table S 3) (of_nat n)) ((0x1000 * of_nat n) OR 3)"
      by (simp add: map_pt_def)
    then show ?case using st [of 3 "of_nat n" "map_pt S n m'"] n Suc by (auto intro: same_outside_trans)
  qed
  then have mp: "same_outside ?F m' (map_pt S 512 m')" for m' by simp
  have sp: "snd (setup_paging S (c, m)) = map_pt S 512 (store32 (store32 (store32 m (boot_table S 0) (pdp_table S OR 3))
      (boot_table S 1) (pd_table S OR 3)) (boot_table S 2) (pt_table S OR 3))"
    by (simp add: setup_paging_def Let_def symbol_table [OF fit])
  show ?thesis unfolding sp
    by (rule same_outside_trans [OF same_outside_trans [OF same_outside_trans [OF st0 st0] st0] mp]) simp_all
qed

lemma boot_start_regs:
  assumes "check_cpuid P" "check_long_mode P" "tables_fit S"
  shows "\<exists>h. boot_start P S eax ebx c m = Inr h \<and> long_mode (h_regs h) \<and> h_rdi h = ucast eax \<and> h_rsi h = ucast ebx \<and>
    c_cr3 (h_regs h) = boot_table S 0 \<and> h_cs h = 0x08 \<and> h_ds h = 0x10 \<and> h_mem h = snd (setup_paging S (c, m))"
  using assms
  by (simp add: boot_start_def setup_paging_def Let_def wrmsr_eq rdmsr_eq write_cr0_def read_cr0_def write_cr3_def read_cr3_def
      write_cr4_def read_cr4_def long_mode_def symbol_table bit_or_iff bit_push_bit_iff bit_1_iff)

text \<open>C17. \<^verbatim>\<open>boot.asm\<close> halts with the code of the failed check on the screen, changing nothing else; on a processor with
  \<^verbatim>\<open>cpuid\<close> and long mode it calls the kernel with paging and long mode on, the magic number first and the
  information pointer second, and tables that map the first two megabytes to themselves, writable, and no
  other address; only the four tables are written.\<close>

theorem boot_asm_correct:
  assumes "tables_fit S" "\<forall>k<4. zero_page m (boot_table S k)"
  shows "case boot_start P S eax ebx c m of
      Inl m' \<Rightarrow> \<not> (check_cpuid P \<and> check_long_mode P) \<and>
        m' = m(0xB8000 := (if check_cpuid P then 49 else 48), 0xB8001 := 0x4F)
    | Inr h \<Rightarrow> check_cpuid P \<and> check_long_mode P \<and> long_mode (h_regs h) \<and> h_rdi h = ucast eax \<and> h_rsi h = ucast ebx \<and>
        pt_inv (h_mem h) (c_cr3 (h_regs h)) \<and> same_outside (boot_table S ` {..<4}) m (h_mem h) \<and>
        (\<forall>va. unat va < 2 ^ 48 \<longrightarrow> pte (h_mem h) (c_cr3 (h_regs h)) va = (if unat va < 2 ^ 21 then (va AND NOT 0xFFF) OR 3 else 0))"
proof (cases "check_cpuid P \<and> check_long_mode P")
  case False
  then show ?thesis by (auto simp: boot_start_def boot_error_def Let_def)
next
  case True
  then obtain h where h: "boot_start P S eax ebx c m = Inr h" "long_mode (h_regs h)" "h_rdi h = ucast eax" "h_rsi h = ucast ebx"
    "c_cr3 (h_regs h) = boot_table S 0" "h_mem h = snd (setup_paging S (c, m))"
    using boot_start_regs [OF _ _ assms(1)] by blast
  note w = boot_walk [OF assms, where c = c, folded h(6)]
  have "pte (h_mem h) (boot_table S 0) va = (if unat va < 2 ^ 21 then (va AND NOT 0xFFF) OR 3 else 0)" if "unat va < 2 ^ 48" for va
    unfolding w(2) low_region [OF that] using low_entry [of va] by simp
  then show ?thesis using h True w(4) setup_paging_outside [OF assms(1), of m c] by simp
qed

definition sample_symbols :: boot_symbols where
  "sample_symbols = \<lparr>pml4_table = 0x10000, gdt64 = 0x20000\<rparr>"

definition sample_processor :: processor where
  "sample_processor = \<lparr>eflags = 2, popf = (\<lambda>v. v), cpuid = (\<lambda>n. if n = 0x80000000 then (0x80000008, 0, 0, 0) else (0, 0, 0, 0x20100800))\<rparr>"

definition sample_regs :: control_regs where
  "sample_regs = \<lparr>c_cr0 = 0x11, c_cr3 = 0, c_cr4 = 0, c_msr = (\<lambda>_. 0)\<rparr>"

lemma sample_boot: "tables_fit sample_symbols" "check_cpuid sample_processor" "check_long_mode sample_processor"
  "boot_table sample_symbols k = 0x10000 + of_nat (4096 * k)"
  by (simp_all add: tables_fit_def sample_symbols_def check_cpuid_def check_long_mode_def sample_processor_def boot_table_def)

theorem boot_asm_correct_witness:
  "\<exists>h. boot_start sample_processor sample_symbols 0x36D76289 0x50000 sample_regs (\<lambda>_. 0) = Inr h \<and>
    pte (h_mem h) (c_cr3 (h_regs h)) 0x1FF123 = 0x1FF003 \<and> pte (h_mem h) (c_cr3 (h_regs h)) 0x200000 = 0"
proof -
  let ?b = "boot_start sample_processor sample_symbols 0x36D76289 0x50000 sample_regs (\<lambda>_. 0)"
  have "\<forall>k<4. zero_page (\<lambda>_. 0) (boot_table sample_symbols k)" by (simp add: zero_page_def load64_zero)
  note t = boot_asm_correct [OF sample_boot(1) this, of sample_processor "0x36D76289" "0x50000" sample_regs]
  show ?thesis
  proof (cases ?b)
    case (Inl m')
    then show ?thesis using t sample_boot(2,3) by simp
  next
    case (Inr h)
    then show ?thesis using t by simp
  qed
qed

section \<open>From the boot loader to the idle loop\<close>

text \<open>The kernel's static data with another memory.\<close>

lemma initial_kernel_pmm:
  shows "spare (pmm_init b z (initial_kernel L m')) = spare (pmm_init b z (initial_kernel L m))"
    "pmm_avail (pmm_init b z (initial_kernel L m')) = pmm_avail (pmm_init b z (initial_kernel L m))"
    "pool_ok (pmm_init b z (initial_kernel L m')) = pool_ok (pmm_init b z (initial_kernel L m))"
  by (intro pmm_init_spare_cong; simp add: initial_kernel_static)+

lemma boot_vm_inv:
  fixes c :: control_regs and L :: layout
  assumes fit: "tables_fit S" and z: "\<forall>k<4. zero_page m (boot_table S k)" and b: "b \<noteq> 0" "unat b + 4096 + unat z \<le> 2 ^ 64"
  defines "K \<equiv> pmm_init b z (initial_kernel L m)"
  assumes po: "pool_ok K" and dis: "spare K \<inter> boot_table S ` {..<4} = {}" and zs: "\<forall>t\<in>pmm_avail K. zero_page m t"
  shows "vm_inv (pmm_init b z (initial_kernel L (snd (setup_paging S (c, m))))) (boot_table S 0)"
proof -
  let ?m = "snd (setup_paging S (c, m))"
  let ?K = "pmm_init b z (initial_kernel L ?m)"
  have bm: "length (bitmap (initial_kernel L m')) = BITMAP_SIZE" for m' by (simp add: initial_kernel_static)
  note same = initial_kernel_pmm [of b z L ?m m, folded K_def]
  have i: "pmm_inv ?K" "pmm_inv K" unfolding K_def using pmm_init_inv [OF bm b] by simp_all
  have m: "mem ?K = ?m" by (simp add: vmm_more_fields [OF pmm_init_more])
  have "zero_page ?m t" if t: "t \<in> pmm_avail K" for t
  proof -
    have "t \<in> spare K" using t by (simp add: spare_def)
    then have "4096 dvd unat t" "\<forall>k<4. t \<noteq> boot_table S k" using spare_page(1) [OF i(2) po] dis by auto
    then have "load64 ?m (cell t i) = load64 m (cell t i)" if "unat i < 512" for i
      using load64_setup_paging [OF fit z _ that, of t c] by simp
    then show ?thesis using zs t by (simp add: zero_page_def)
  qed
  then show ?thesis
    using i(1) po dis boot_walk(3,4) [OF fit z, where c = c] by (simp add: vm_inv_def same m)
qed


text \<open>
  A machine with 64 MB: at 5 * 2^16 the loader's information, a memory map and a module, and at
  6 * 2^16 the module, an archive with one file, a script \<^verbatim>\<open>bin/sh\<close>.
\<close>

definition script_archive :: "entry list" where
  "script_archive = [(\<lambda>_. 0, bytes_of ''bin/sh'', [35, 33])]"

definition loader_info :: "u8 list" where
  "loader_info = le_bytes 4 (72 :: u32) @ le_bytes 4 (0 :: u32) @
     le_bytes 4 (6 :: u32) @ le_bytes 4 (40 :: u32) @ le_bytes 4 (24 :: u32) @ le_bytes 4 (0 :: u32) @
     le_bytes 8 (0x100000 :: u64) @ le_bytes 8 (0x4000000 :: u64) @ le_bytes 4 (1 :: u32) @ le_bytes 4 (0 :: u32) @
     le_bytes 4 (3 :: u32) @ le_bytes 4 (16 :: u32) @ le_bytes 4 (0x60000 :: u32) @ le_bytes 4 (0x600F8 :: u32) @
     le_bytes 4 (0 :: u32) @ le_bytes 4 (8 :: u32)"

definition info_page :: memory where
  "info_page = write_bytes (\<lambda>_. 0) 0x50000 loader_info"

definition loader_memory :: memory where
  "loader_memory = write_bytes info_page 0x60000 (cpio_archive script_archive)"

abbreviation loader_tags :: "boot_tag list" where
  "loader_tags \<equiv> [Mmap [(0x100000, 0x4000000, 1)], Module 0x60000 0x600F8]"

lemma loader_info_bytes:
  "loader_info = [72, 0, 0, 0, 0, 0, 0, 0, 6, 0, 0, 0, 40, 0, 0, 0, 24, 0, 0, 0, 0, 0, 0, 0, 0, 0, 16, 0, 0, 0, 0, 0, 0, 0, 0,
     4, 0, 0, 0, 0, 1, 0, 0, 0, 0, 0, 0, 0, 3, 0, 0, 0, 16, 0, 0, 0, 0, 0, 6, 0, 248, 0, 6, 0, 0, 0, 0, 0, 8, 0, 0,
     0]"
  by code_simp

text \<open>A little-endian value among written bytes.\<close>

primrec le_value :: "u8 list \<Rightarrow> u64" where
  "le_value [] = 0"
| "le_value (b # bs) = ucast b OR push_bit 8 (le_value bs)"

lemma load_le_written:
  assumes "i + n \<le> length bs" "length bs < 2 ^ 64"
  shows "load_le n (write_bytes m a bs) (a + of_nat i) = le_value (take n (drop i bs))"
  using assms(1)
proof (induction n arbitrary: i)
  case (Suc n)
  have i: "i < length bs" "unat (of_nat i :: u64) = i" using Suc.prems assms(2) by (simp_all add: unat_of_nat)
  have "take (Suc n) (drop i bs) = bs ! i # take n (drop (Suc i) bs)"
    using i(1) by (simp add: Cons_nth_drop_Suc [symmetric])
  moreover have "write_bytes m a bs (a + of_nat i) = bs ! i" using i assms(2) by (simp add: write_bytes_apply)
  ultimately show ?case using Suc.IH [of "Suc i"] Suc.prems by (simp add: ac_simps)
qed simp

lemma loader_loads:
  "load32 info_page 0x50000 = 72" "load32 info_page 0x50008 = 6" "load32 info_page 0x5000C = 40" "load32 info_page 0x50010 = 24"
  "load64 info_page 0x50018 = 0x100000" "load64 info_page 0x50020 = 0x4000000" "load32 info_page 0x50028 = 1"
  "load32 info_page 0x50030 = 3" "load32 info_page 0x50034 = 16" "load32 info_page 0x50038 = 0x60000"
  "load32 info_page 0x5003C = 0x600F8" "load32 info_page 0x50040 = 0"
proof -
  have l: "load_le n info_page (0x50000 + of_nat i) = le_value (take n (drop i loader_info))" if "i + n \<le> 72" for i n
    unfolding info_page_def using that by (intro load_le_written) (simp_all add: loader_info_bytes)
  note e = load32_def load64_def loader_info_bytes
  show "load32 info_page 0x50000 = 72" using l [of 0 4] by (simp add: e)
  show "load32 info_page 0x50008 = 6" using l [of 8 4] by (simp add: e)
  show "load32 info_page 0x5000C = 40" using l [of 12 4] by (simp add: e)
  show "load32 info_page 0x50010 = 24" using l [of 16 4] by (simp add: e)
  show "load64 info_page 0x50018 = 0x100000" using l [of 24 8] by (simp add: e)
  show "load64 info_page 0x50020 = 0x4000000" using l [of 32 8] by (simp add: e)
  show "load32 info_page 0x50028 = 1" using l [of 40 4] by (simp add: e)
  show "load32 info_page 0x50030 = 3" using l [of 48 4] by (simp add: e)
  show "load32 info_page 0x50034 = 16" using l [of 52 4] by (simp add: e)
  show "load32 info_page 0x50038 = 0x60000" using l [of 56 4] by (simp add: e)
  show "load32 info_page 0x5003C = 0x600F8" using l [of 60 4] by (simp add: e)
  show "load32 info_page 0x50040 = 0" using l [of 64 4] by (simp add: e)
qed

lemma script_archive_length: "length (cpio_archive script_archive) = 248"
  by (simp add: cpio_archive_def script_archive_def length_cpio_entry trailer_def entry_name_def entry_data_def bytes_of_def up4_def)

lemma load_le_page:
  assumes "\<And>x. x AND NOT (mask 12) = p \<Longrightarrow> m' x = m x" "4096 dvd unat p" "unat p \<le> unat a" "unat a + n \<le> unat p + 4096"
    "unat p + 4096 \<le> 2 ^ 64"
  shows "load_le n m' a = load_le n m a"
proof (rule load_le_cong)
  fix i assume i: "i < n"
  have "unat (of_nat i :: u64) = i" using i assms(4,5) by (intro unat_of_nat_u64) simp
  then have "unat (a + of_nat i - a) < n" using i by simp
  from near_page [OF assms(2-5) this] show "m' (a + of_nat i) = m (a + of_nat i)" by (rule assms(1))
qed

lemma loader_boot_info:
  assumes "\<And>x. x AND NOT (mask 12) = 0x50000 \<Longrightarrow> m x = info_page x"
  shows "boot_info m 0x50000 loader_tags"
proof -
  note l = load_le_page [of "0x50000" m info_page, OF assms]
  have w: "load32 m a = load32 info_page a" if "0x50000 \<le> unat a" "unat a \<le> 0x50FF0" for a
    using l [of a 4] that by (simp add: load32_def)
  have d: "load64 m a = load64 info_page a" if "0x50000 \<le> unat a" "unat a \<le> 0x50FF0" for a
    using l [of a 8] that by (simp add: load64_def)
  show ?thesis
    by (simp add: boot_info_def tag_type_def tag_size_def mmap_entry_size_def entry_base_addr_def entry_length_def entry_type_def
        align8_def w d loader_loads)
qed

lemma loader_ramdisk:
  assumes "\<And>x. x AND NOT (mask 12) = 0x60000 \<Longrightarrow> m x = loader_memory x"
  shows "ramdisk m (0x60000, 0x600F8) script_archive"
proof -
  have "read_bytes m 0x60000 248 = read_bytes loader_memory 0x60000 248"
  proof (rule nth_equalityI)
    fix i assume "i < length (read_bytes m 0x60000 248)"
    then have i: "i < 248" by simp
    then have "unat (0x60000 + of_nat i - 0x60000 :: u64) < 248" by (simp add: unat_of_nat)
    then have "(0x60000 + of_nat i :: u64) AND NOT (mask 12) = 0x60000" by (intro near_page [where n = 248 and a = "0x60000"]) simp_all
    then show "read_bytes m 0x60000 248 ! i = read_bytes loader_memory 0x60000 248 ! i" using assms i by simp
  qed simp
  also have "\<dots> = cpio_archive script_archive"
    unfolding loader_memory_def using read_write_bytes [of "cpio_archive script_archive"] by (simp add: script_archive_length)
  finally have "read_bytes m 0x60000 (length (cpio_archive script_archive)) = cpio_archive script_archive"
    by (simp add: script_archive_length)
  then show ?thesis
    by (simp add: ramdisk_def script_archive_length)
      (simp add: script_archive_def valid_entry_def entry_name_def entry_data_def trailer_def bytes_of_def)
qed

lemma loader_memory_pages:
  "x AND NOT (mask 12) \<noteq> 0x60000 \<Longrightarrow> loader_memory x = info_page x" "same_outside {0x50000, 0x60000} (\<lambda>_. 0) loader_memory"
proof -
  show i: "loader_memory x = info_page x" if "x AND NOT (mask 12) \<noteq> 0x60000" for x
    unfolding loader_memory_def using that by (intro write_bytes_page [where p = "0x60000"]) (simp_all add: script_archive_length)
  have "length loader_info = 72" by code_simp
  then have "info_page x = 0" if "x AND NOT (mask 12) \<noteq> 0x50000" for x
    unfolding info_page_def using that by (subst write_bytes_page [where p = "0x50000"]) simp_all
  then show "same_outside {0x50000, 0x60000} (\<lambda>_. 0) loader_memory" using i by (simp add: same_outside_def)
qed

lemma loader_machine:
  defines "K \<equiv> pmm_init 0x200000 0x3F00000 (initial_kernel small_layout loader_memory)"
  shows "pool_ok K" "unat r < 0x100000 \<Longrightarrow> r \<notin> spare K" "\<forall>t\<in>pmm_avail K. zero_page loader_memory t"
proof -
  let ?k = "initial_kernel small_layout loader_memory"
  have b: "length (bitmap ?k) = BITMAP_SIZE" by (simp add: initial_kernel_static)
  note f = pmm_init_fields [OF b, of "0x200000" "0x3F00000", folded K_def]
  note m = vmm_more_fields [OF pmm_init_more, of "0x200000" "0x3F00000" ?k, folded K_def]
  have i: "pmm_inv K" unfolding K_def by (rule pmm_init_inv [OF b]) simp_all
  have l: "pt_pool K = 0x100000" "pt_pool_used K = 0" "pmm_base K = 0x200000" "unat (pmm_total_pages K) \<le> 131072"
    by (simp_all add: m f(2,3) initial_kernel_static small_layout_def PAGE_ALIGN_def ALIGN_UP_def)
  show po: "pool_ok K" by (rule machine_pool_ok [OF l])
  show sp: "r \<notin> spare K" if "unat r < 0x100000" for r by (rule machine_not_spare [OF l i that])
  show "\<forall>t\<in>pmm_avail K. zero_page loader_memory t"
  proof
    fix t assume "t \<in> pmm_avail K"
    then have t: "t \<in> spare K" by (simp add: spare_def)
    then have "4096 dvd unat t" "t \<notin> {0x50000, 0x60000}" using spare_page(1) [OF i po] sp [of t] by auto
    then show "zero_page loader_memory t"
      using load64_same_outside [OF loader_memory_pages(2)] by (simp add: zero_page_def load64_zero)
  qed
qed


end
