(* ===== verification/Page_Directories.thy ===== *)
theory Page_Directories
  imports Memory_Props
begin

text \<open>
  Page directories of processes: what \<^verbatim>\<open>vmm_new_pagedir\<close> builds and what \<^verbatim>\<open>vmm_free_pagedir\<close> gives back,
  of \<^verbatim>\<open>kernel/mm/vmm.c\<close>.
\<close>

section \<open>A new directory\<close>

lemma copy_entries:
  fixes m :: memory
  assumes "4096 dvd unat t" "4096 dvd unat k" "t \<noteq> k" "n \<le> 256"
  defines "m' \<equiv> for_upto n (\<lambda>j m. store64 m (cell t (256 + of_nat j)) (load64 m (cell k (256 + of_nat j)))) m"
  shows "\<And>i. unat i < 512 \<Longrightarrow> load64 m' (cell t i) = (if 256 \<le> unat i \<and> unat i < 256 + n then load64 m (cell k i) else load64 m (cell t i))"
    "\<And>u i. 4096 dvd unat u \<Longrightarrow> unat i < 512 \<Longrightarrow> u \<noteq> t \<Longrightarrow> load64 m' (cell u i) = load64 m (cell u i)"
proof -
  let ?f = "\<lambda>j m. store64 m (cell t (256 + of_nat j)) (load64 m (cell k (256 + of_nat j)))"
  have "(\<forall>i. unat i < 512 \<longrightarrow> load64 (for_upto n ?f m) (cell t i) =
        (if 256 \<le> unat i \<and> unat i < 256 + n then load64 m (cell k i) else load64 m (cell t i))) \<and>
      (\<forall>u i. 4096 dvd unat u \<longrightarrow> unat i < 512 \<longrightarrow> u \<noteq> t \<longrightarrow> load64 (for_upto n ?f m) (cell u i) = load64 m (cell u i))"
    using assms(4)
  proof (induction n)
    case (Suc n)
    let ?j = "256 + of_nat n :: u64"
    have j: "unat ?j = 256 + n" using Suc.prems by (subst unat_add_u64) (simp_all add: unat_of_nat)
    have st: "load64 (store64 w (cell t ?j) v) (cell u i) = (if u = t \<and> i = ?j then v else load64 w (cell u i))"
      if "4096 dvd unat u" "unat i < 512" for w v u and i :: u64
      using that assms(1) j Suc.prems by (simp add: load64_store64 aligned8_cell cell_inject)
    have ij: "i = ?j \<longleftrightarrow> unat i = 256 + n" for i :: u64 using j by (simp add: word_unat_eq_iff)
    show ?case
    proof (intro conjI allI impI)
      fix i :: u64 assume i: "unat i < 512"
      show "load64 (for_upto (Suc n) ?f m) (cell t i) =
        (if 256 \<le> unat i \<and> unat i < 256 + Suc n then load64 m (cell k i) else load64 m (cell t i))"
      proof (cases "i = ?j")
        case True
        then show ?thesis using Suc i assms(1-3) j by (simp add: st)
      next
        case False
        then have "unat i \<noteq> 256 + n" using ij by blast
        then show ?thesis using Suc i assms(1-3) False by (simp add: st)
      qed
    next
      fix u i :: u64 assume "4096 dvd unat u" "unat i < 512" "u \<noteq> t"
      then show "load64 (for_upto (Suc n) ?f m) (cell u i) = load64 m (cell u i)"
        using Suc by (simp add: st)
    qed
  qed auto
  then show "\<And>i. unat i < 512 \<Longrightarrow> load64 m' (cell t i) = (if 256 \<le> unat i \<and> unat i < 256 + n then load64 m (cell k i) else load64 m (cell t i))"
    "\<And>u i. 4096 dvd unat u \<Longrightarrow> unat i < 512 \<Longrightarrow> u \<noteq> t \<Longrightarrow> load64 m' (cell u i) = load64 m (cell u i)"
    unfolding m'_def by blast+
qed

text \<open>The upper half of the address space is that of the upper 256 entries of the top table.\<close>

lemma half_of_512:
  fixes n :: nat
  assumes "n < 512"
  shows "odd (n div 256) \<longleftrightarrow> 256 \<le> n"
proof (cases "256 \<le> n")
  case True
  then have "n div 256 = 1" using assms by (intro div_nat_eqI) simp_all
  then show ?thesis using True by simp
qed simp

lemma upper_half: "256 \<le> unat (ix 0 va) \<longleftrightarrow> bit va 47"
proof -
  have "bit va 47 = bit (ix 0 va) 8" by (simp add: bit_ix)
  also have "\<dots> = bit (unat (ix 0 va)) 8" by (simp add: bit_unsigned_iff)
  also have "\<dots> = odd (unat (ix 0 va) div 256)" by (simp add: bit_iff_odd [of "unat (ix 0 va)"])
  finally show ?thesis using half_of_512 [OF ix_less] by blast
qed

lemma walk_empty:
  assumes "\<not> present (load64 m (cell t (ix 0 va)))"
  shows "tbl m t (Suc j) va = None" "pte m t va = 0"
proof -
  show e: "tbl m t (Suc j) va = None" for j by (induction j) (use assms in simp_all)
  have "tbl m t 3 va = None" using e [of 2] by (simp add: numeral_3_eq_3)
  then show "pte m t va = 0" by (simp add: pte_def)
qed

lemma walk_copied:
  assumes "load64 m' (cell t (ix 0 va)) = load64 m (cell k (ix 0 va))"
    and "\<And>u i. u \<in> tables m k \<Longrightarrow> unat i < 512 \<Longrightarrow> load64 m' (cell u i) = load64 m (cell u i)"
  shows "j \<le> 2 \<Longrightarrow> tbl m' t (Suc j) va = tbl m k (Suc j) va" "pte m' t va = pte m k va"
proof -
  show e: "tbl m' t (Suc j) va = tbl m k (Suc j) va" if "j \<le> 2" for j
    using that
  proof (induction j)
    case 0
    then show ?case using assms(1) by simp
  next
    case (Suc j)
    then have "tbl m' t (Suc j) va = tbl m k (Suc j) va" by simp
    moreover have "u \<in> tables m k" if "tbl m k (Suc j) va = Some u" for u using tablesI [OF that] Suc.prems by simp
    ultimately show ?case
      using assms(2) ix_less
      by (subst (1 2) tbl.simps(2)) (simp add: Let_def split: option.split del: tbl.simps(2))
  qed
  have "tbl m' t 3 va = tbl m k 3 va" using e [of 2] by (simp only: numeral_3_eq_3 numeral_2_eq_2)
  moreover have "u \<in> tables m k" if "tbl m k 3 va = Some u" for u using tablesI [OF that] by simp
  ultimately show "pte m' t va = pte m k va" using assms(2) ix_less by (auto simp: pte_def split: option.split)
qed


text \<open>C19. A new page directory maps the kernel's half of the address space as the kernel's own does, sharing its
  tables, and nothing in the user's half.  It takes one spare page and leaves the kernel's directory as
  it was.\<close>

theorem new_pagedir_correct:
  assumes "vm_inv s (kernel_pml4 s)" "kernel_pml4 s \<noteq> 0" "vmm_new_pagedir s = Inr (t, s')"
  shows "t \<in> spare s \<and> spare s' = spare s - {t} \<and> pt_inv (mem s') t \<and>
    tables (mem s') t \<subseteq> insert t (tables (mem s) (kernel_pml4 s)) \<and> vm_inv s' (kernel_pml4 s') \<and>
    (\<forall>va. pte (mem s') (kernel_pml4 s') va = pte (mem s) (kernel_pml4 s) va \<and>
       pte (mem s') t va = (if bit va 47 then pte (mem s) (kernel_pml4 s) va else 0))"
proof -
  let ?k = "kernel_pml4 s"
  obtain s1 where a: "alloc_table s = Inr (t, s1)"
    using assms(3) by (auto simp: vmm_new_pagedir_def elim!: try_then_InrE)
  note sp = alloc_table_spec [OF assms(1) a]
  have k1: "kernel_pml4 s1 = ?k" using same_config_alloc_table [OF a] by (simp add: same_config_def)
  let ?m = "for_upto 256 (\<lambda>j m. store64 m (cell t (256 + of_nat j)) (load64 m (cell ?k (256 + of_nat j)))) (mem s1)"
  have s': "s' = s1\<lparr>mem := ?m\<rparr>" using assms(2,3) a k1 by (simp add: vmm_new_pagedir_def)
  have pi: "pmm_inv s" "pool_ok s" "pt_inv (mem s) ?k" using assms(1) by (auto simp: vm_inv_def)
  have al: "4096 dvd unat t" "4096 dvd unat ?k" using spare_page(1) [OF pi(1,2) sp(1)] pi(3) by (simp_all add: pt_inv_def)
  have tk: "t \<noteq> ?k" using sp(3) tables_root by metis
  note copy = copy_entries [OF al tk order_refl, where m = "mem s1"]
  have old: "load64 ?m (cell u i) = load64 (mem s) (cell u i)" if "4096 dvd unat u" "unat i < 512" "u \<noteq> t" for u i
    using copy(2) [OF that] sp(11) [OF that] by simp
  have tree: "load64 ?m (cell u i) = load64 (mem s) (cell u i)" if "u \<in> tables (mem s) ?k" "unat i < 512" for u i
    using old [OF tables_aligned [OF al(2) that(1)] that(2)] sp(3) that(1) by blast
  have up: "load64 ?m (cell t (ix 0 va)) = (if bit va 47 then load64 (mem s) (cell ?k (ix 0 va)) else 0)" for va
    using copy(1) [OF ix_less [of 0 va]] upper_half [of va] ix_less [of 0 va] sp(2) sp(11) [OF al(2) ix_less [of 0 va]] tk
    by (auto simp: zero_page_def)
  have walk: "tbl ?m t (Suc j) va = (if bit va 47 then tbl (mem s) ?k (Suc j) va else None)" if "j \<le> 2" for j va
    using walk_copied(1) [OF _ tree that] walk_empty(1) [of ?m t va j] up [of va] by (auto simp: present_def)
  have ptes: "pte ?m t va = (if bit va 47 then pte (mem s) ?k va else 0)" for va
    using walk_copied(2) [OF _ tree] walk_empty(2) [of ?m t va] up [of va] by (auto simp: present_def)
  have tk3: "tbl ?m t k va = (if k = 0 then Some t else if bit va 47 then tbl (mem s) ?k k va else None)" if "k \<le> 3" for k va
    using walk [of "k - 1" va] that by (cases k) auto
  have nt: "tbl (mem s) ?k k va \<noteq> Some t" if "k \<le> 3" for k va using tablesI [of "mem s" ?k k va t] that sp(3) by blast
  have "tables ?m t \<subseteq> insert t (tables (mem s) ?k)"
  proof
    fix x assume "x \<in> tables ?m t"
    then obtain k va where "k \<le> 3" "tbl ?m t k va = Some x" by (auto simp: tables_def)
    then show "x \<in> insert t (tables (mem s) ?k)" using tk3 [of k va] tablesI by (auto split: if_splits)
  qed
  moreover have "pt_inv ?m t"
  proof -
    have "k = k' \<and> same_path k va va'" if "k \<le> 3" "k' \<le> 3" "tbl ?m t k va = Some x" "tbl ?m t k' va' = Some x" for k k' va va' x
    proof (cases "k = 0")
      case True
      then have "x = t" using that(3) by simp
      then have "k' = 0" using that(2,4) tk3 [of k' va'] nt [of k' va'] by (auto split: if_splits)
      then show ?thesis using True by (simp add: same_path_def)
    next
      case False
      then have x: "tbl (mem s) ?k k va = Some x" using that(1,3) tk3 [of k va] by (simp split: if_splits)
      then have "x \<noteq> t" using nt [OF that(1)] by blast
      then have "tbl (mem s) ?k k' va' = Some x" using that(2,4) tk3 [of k' va'] by (simp split: if_splits)
      with x show ?thesis using pt_invD [OF pi(3)] that(1,2) by blast
    qed
    then show ?thesis unfolding pt_inv_def using al(1) by blast
  qed
  moreover have "vm_inv (s1\<lparr>mem := ?m\<rparr>) ?k"
  proof -
    have v: "pmm_inv s1" "pool_ok s1" "\<forall>p\<in>pmm_avail s1. zero_page (mem s1) p" "spare s1 \<inter> tables (mem s1) ?k = {}"
      using sp(10) by (auto simp: vm_inv_def)
    have "zero_page ?m p" if "p \<in> pmm_avail s1" for p
    proof -
      have "p \<in> spare s1" using that by (simp add: spare_def)
      then show ?thesis using copy(2) [OF spare_page(1) [OF v(1,2)]] v(3) that sp(9) by (auto simp: zero_page_def)
    qed
    moreover have "tables ?m ?k = tables (mem s1) ?k" "pt_inv ?m ?k"
      using tables_cong_mem [of "mem s" ?k ?m] tree pi(3) sp(4) by auto
    moreover have "pool_ok (s1\<lparr>mem := ?m\<rparr>) = pool_ok s1" by (simp add: pool_ok_def)
    ultimately show ?thesis using v by (simp add: vm_inv_def)
  qed
  moreover have "pte ?m ?k va = pte (mem s) ?k va" for va by (rule pte_cong_mem) (use tree in blast)
  ultimately show ?thesis using sp(1,9) ptes s' k1 by simp
qed


section \<open>Giving a directory back\<close>

text \<open>The pages of \<open>A\<close> that the page allocator manages become free, and nothing else changes.\<close>

definition frees :: "u64 set \<Rightarrow> 'a vmm_state_scheme \<Rightarrow> 'a vmm_state_scheme \<Rightarrow> bool" where
  "frees A s s' \<longleftrightarrow> pmm_inv s' \<and> pmm_state.more s' = pmm_state.more s \<and> con s' = con s \<and> pmm_pool s' = pmm_pool s \<and>
     pmm_avail s' = pmm_avail s \<union> (A \<inter> pmm_pool s)"

lemma frees_refl: "pmm_inv s \<Longrightarrow> frees {} s s"
  by (simp add: frees_def)

lemma frees_trans: "frees A s s' \<Longrightarrow> frees B s' s'' \<Longrightarrow> frees (A \<union> B) s s''"
  by (auto simp: frees_def)

lemma frees_mem: "frees A s s' \<Longrightarrow> mem s' = mem s \<and> pmm_inv s'"
  using vmm_more_fields(1) [of s' s] by (simp add: frees_def)

lemma pmm_free_outside:
  assumes "pmm_inv s" "4096 dvd unat a" "a \<notin> pmm_pool s"
  shows "pmm_free a s = s"
proof -
  let ?p = "unat (a - pmm_base s) div 4096"
  have "a < pmm_base s \<or> unat (pmm_total_pages s) \<le> ?p"
  proof (rule ccontr)
    assume "\<not> ?thesis"
    then have le: "pmm_base s \<le> a" and p: "?p < unat (pmm_total_pages s)" by (auto simp: not_less not_le)
    have d: "unat (a - pmm_base s) = unat a - unat (pmm_base s)" using le by (rule unat_sub)
    have b: "4096 dvd unat (pmm_base s)" using assms(1) by (simp only: pmm_inv_def)
    have "4096 dvd unat (a - pmm_base s)" unfolding d by (rule dvd_diff_nat [OF assms(2) b])
    then have "unat (a - pmm_base s) = ?p * 4096" by (simp only: dvd_div_mult_self)
    then have "a - pmm_base s = of_nat (?p * 4096)" by (rule word_eq_of_nat)
    then have "a = page_addr s ?p" by (simp add: page_addr_def algebra_simps)
    then show False using assms(3) p by (auto simp: pmm_pool_def)
  qed
  then show ?thesis using assms(1) by (auto simp: pmm_free_eq)
qed

lemma frees_one:
  assumes "pmm_inv s" "4096 dvd unat a"
  shows "frees {a} s (pmm_free a s)"
proof (cases "a \<in> pmm_pool s")
  case True
  have "pmm_pool (pmm_free a s) = pmm_pool s" by (simp add: pmm_pool_def)
  then show ?thesis using True assms(1) pmm.release_avail [OF assms(1) True] pmm_free_inv [OF assms(1)] by (simp add: frees_def)
next
  case False
  then show ?thesis using assms pmm_free_outside [OF assms False] by (simp add: frees_def)
qed

lemma frees_loop:
  assumes "\<And>i t. i < n \<Longrightarrow> pmm_inv t \<Longrightarrow> mem t = mem s \<Longrightarrow> frees (A i) t (f i t)" "pmm_inv s"
  shows "frees (\<Union>i<n. A i) s (for_upto n f s)"
  using assms(1)
proof (induction n)
  case 0
  then show ?case using assms(2) by (simp add: frees_refl)
next
  case (Suc n)
  have l: "frees (\<Union>i<n. A i) s (for_upto n f s)" using Suc by simp
  then have "frees (A n) (for_upto n f s) (f n (for_upto n f s))" using Suc.prems [of n "for_upto n f s"] frees_mem [OF l] by simp
  then have "frees ((\<Union>i<n. A i) \<union> A n) s (for_upto (Suc n) f s)" using frees_trans [OF l] by simp
  moreover have "(\<Union>i<n. A i) \<union> A n = (\<Union>i<Suc n. A i)" by (auto simp: less_Suc_eq)
  ultimately show ?case by simp
qed

text \<open>The table or page an entry points to.\<close>

definition target :: "memory \<Rightarrow> u64 \<Rightarrow> nat \<Rightarrow> u64 set" where
  "target m t i = (let e = load64 m (cell t (of_nat i)) in if present e then {PTE_PHYS e} else {})"

definition reached :: "memory \<Rightarrow> u64 \<Rightarrow> u64 set" where
  "reached m r = (\<Union>i<256. \<Union>pdp\<in>target m r i.
     insert pdp (\<Union>j<512. \<Union>pd\<in>target m pdp j. insert pd (\<Union>l<512. target m pd l)))"

lemma free_pagedir_reached:
  assumes "pmm_inv s" "4096 dvd unat r"
  shows "frees (insert r (reached (mem s) r)) s (vmm_free_pagedir r s)"
proof -
  let ?m = "mem s"
  define f2 where "f2 = (\<lambda>pd p2 (t :: 'a vmm_state_scheme). let e2 = load64 (mem t) (cell pd (of_nat p2)) in
     if \<not> present e2 then t else pmm_free (PTE_PHYS e2) t)"
  define f3 where "f3 = (\<lambda>pdp p3 (t :: 'a vmm_state_scheme). let e3 = load64 (mem t) (cell pdp (of_nat p3)) in
     if \<not> present e3 then t else let pd = PTE_PHYS e3; t' = for_upto 512 (f2 pd) t in pmm_free pd t')"
  define f4 where "f4 = (\<lambda>p4 (t :: 'a vmm_state_scheme). let e4 = load64 (mem t) (cell r (of_nat p4)) in
     if \<not> present e4 then t else let pdp = PTE_PHYS e4; t' = for_upto 512 (f3 pdp) t in pmm_free pdp t')"
  have close: "frees (insert a A) t (pmm_free a t')" if "frees A t t'" "4096 dvd unat a" for a A and t t' :: "'a vmm_state_scheme"
    using frees_trans [OF that(1) frees_one [OF _ that(2)]] frees_mem [OF that(1)] by simp
  have f2: "frees (\<Union>l<512. target ?m pd l) t (for_upto 512 (f2 pd) t)" if "pmm_inv t" "mem t = ?m" for pd t
  proof (rule frees_loop [OF _ that(1)])
    fix l :: nat and u :: "'a vmm_state_scheme" assume u: "pmm_inv u" "mem u = mem t"
    then show "frees (target ?m pd l) u (f2 pd l u)"
      using that(2) frees_one [OF u(1) aligned_PTE_PHYS] by (simp add: f2_def target_def Let_def frees_refl)
  qed
  have f3: "frees (\<Union>j<512. \<Union>pd\<in>target ?m pdp j. insert pd (\<Union>l<512. target ?m pd l)) t (for_upto 512 (f3 pdp) t)"
    if "pmm_inv t" "mem t = ?m" for pdp t
  proof (rule frees_loop [OF _ that(1)])
    fix j :: nat and u :: "'a vmm_state_scheme" assume u: "pmm_inv u" "mem u = mem t"
    then show "frees (\<Union>pd\<in>target ?m pdp j. insert pd (\<Union>l<512. target ?m pd l)) u (f3 pdp j u)"
      using that(2) close [OF f2 [OF u(1)] aligned_PTE_PHYS] by (simp add: f3_def target_def [of _ pdp] Let_def frees_refl)
  qed
  have "frees (reached ?m r) s (for_upto 256 f4 s)"
    unfolding reached_def
  proof (rule frees_loop [OF _ assms(1)])
    fix i :: nat and u :: "'a vmm_state_scheme" assume u: "pmm_inv u" "mem u = ?m"
    then show "frees (\<Union>pdp\<in>target ?m r i. insert pdp (\<Union>j<512. \<Union>pd\<in>target ?m pdp j. insert pd (\<Union>l<512. target ?m pd l))) u (f4 i u)"
      using close [OF f3 [OF u(1)] aligned_PTE_PHYS] by (simp add: f4_def target_def [of _ r] Let_def frees_refl)
  qed
  then have "frees (insert r (reached ?m r)) s (pmm_free r (for_upto 256 f4 s))" using assms(2) by (rule close)
  then show ?thesis unfolding f4_def f3_def f2_def by (simp only: vmm_free_pagedir_def Let_def)
qed

section \<open>The tables of the user's half\<close>

definition user_tables :: "memory \<Rightarrow> u64 \<Rightarrow> u64 set" where
  "user_tables m r = {t. \<exists>k\<le>3. \<exists>va. \<not> bit va 47 \<and> tbl m r k va = Some t}"

lemma address_of_indices:
  assumes "i < 512" "j < 512" "l < 512"
  obtains va where "ix 0 va = of_nat i" "ix 1 va = of_nat j" "ix 2 va = of_nat l"
proof -
  have small: "n < 9" if "bit x n" "x < 512" for x n :: nat
  proof (rule ccontr)
    assume "\<not> n < 9"
    then have "(512 :: nat) \<le> 2 ^ n" using power_increasing [of 9 n "2 :: nat"] by simp
    then have "x < 2 ^ n" using that(2) by simp
    then show False using that(1) by (simp add: bit_iff_odd)
  qed
  let ?va = "push_bit 39 (of_nat i) OR push_bit 30 (of_nat j) OR push_bit 21 (of_nat l) :: u64"
  have hi: "\<not> bit i (9 + n)" "\<not> bit j (9 + n)" "\<not> bit l (9 + n)" "\<not> bit l (18 + n)" for n
    using small [of i "9 + n"] small [of j "9 + n"] small [of l "9 + n"] small [of l "18 + n"] assms by auto
  have b: "bit ?va n \<longleftrightarrow> n < 64 \<and> (39 \<le> n \<and> bit i (n - 39) \<or> 30 \<le> n \<and> bit j (n - 30) \<or> 21 \<le> n \<and> bit l (n - 21))" for n
    by (auto simp: bit_simps)
  have 0: "bit ?va (39 + n) \<longleftrightarrow> n < 25 \<and> bit i n" for n unfolding b using hi(2,4) [of n] by (auto simp: add.commute)
  have "bit (ix 0 ?va) n = bit (of_nat i :: u64) n" for n using 0 [of n] small [of i n] assms(1) by (auto simp: bit_ix bit_of_nat_iff)
  moreover have "bit (ix 1 ?va) n = bit (of_nat j :: u64) n" for n
    unfolding bit_ix b using small [of j n] assms(2) hi(3) [of n] by (auto simp: bit_of_nat_iff add.commute)
  moreover have "bit (ix 2 ?va) n = bit (of_nat l :: u64) n" for n
    unfolding bit_ix b using small [of l n] assms(3) by (auto simp: bit_of_nat_iff)
  ultimately show thesis using that [of ?va] by (simp add: word_eq_bits)
qed


lemma user_tablesI: "tbl m r k va = Some t \<Longrightarrow> \<not> bit va 47 \<Longrightarrow> k \<le> 3 \<Longrightarrow> t \<in> user_tables m r"
  unfolding user_tables_def by blast

lemma reachedI:
  assumes "i < 256" "a \<in> target m r i"
  shows "a \<in> reached m r" "j < 512 \<Longrightarrow> b \<in> target m a j \<Longrightarrow> b \<in> reached m r"
    "j < 512 \<Longrightarrow> b \<in> target m a j \<Longrightarrow> l < 512 \<Longrightarrow> c \<in> target m b l \<Longrightarrow> c \<in> reached m r"
  using assms unfolding reached_def by blast+

lemma user_tables_eq: "user_tables m r = insert r (reached m r)"
proof (intro set_eqI iffI)
  fix t assume "t \<in> user_tables m r"
  then obtain k va where k: "k \<le> 3" "\<not> bit va 47" "tbl m r k va = Some t" by (auto simp: user_tables_def)
  let ?i = "\<lambda>j. unat (ix j va)"
  have tg: "u \<in> target m w (?i j)" if "tbl m r j va = Some w" "tbl m r (Suc j) va = Some u" for j u w
    using that by (auto simp: target_def Let_def split: if_splits)
  have i: "?i 0 < 256" "?i 1 < 512" "?i 2 < 512" using upper_half [of va] k(2) ix_less by auto
  have 0: "tbl m r 0 va = Some r" by simp
  consider "k = 0" | "k = Suc 0" | "k = Suc (Suc 0)" | "k = Suc (Suc (Suc 0))" using k(1) by linarith
  then show "t \<in> insert r (reached m r)"
  proof cases
    case 1
    then show ?thesis using k(3) by simp
  next
    case 2
    then have "t \<in> target m r (?i 0)" using tg [OF 0] k(3) by simp
    then show ?thesis using reachedI(1) [OF i(1)] by simp
  next
    case 3
    then obtain a where a: "tbl m r (Suc 0) va = Some a" using tbl_mono [OF k(3), of "Suc 0"] by auto
    have "t \<in> target m a (?i 1)" using tg [OF a] k(3) 3 by simp
    then show ?thesis using reachedI(2) [OF i(1) tg [OF 0 a] i(2)] by simp
  next
    case 4
    then obtain a b where a: "tbl m r (Suc 0) va = Some a" and b: "tbl m r (Suc (Suc 0)) va = Some b"
      using tbl_mono [OF k(3), of "Suc 0"] tbl_mono [OF k(3), of "Suc (Suc 0)"] by auto
    have "b \<in> target m a (?i 1)" using tg [OF a b] by simp
    moreover have "t \<in> target m b (?i 2)" using tg [OF b] k(3) 4 by (simp add: numeral_2_eq_2)
    ultimately show ?thesis using reachedI(3) [OF i(1) tg [OF 0 a] i(2) _ i(3)] by simp
  qed
next
  fix t assume "t \<in> insert r (reached m r)"
  have step: "tbl m r (Suc k) va = Some u" if "tbl m r k va = Some w" "ix k va = of_nat i" "u \<in> target m w i" for k va w u i
    using that by (auto simp: target_def Let_def split: if_splits)
  have lower: "\<not> bit va 47" if "ix 0 va = of_nat i" "i < 256" for va i
    using upper_half [of va] that by (simp add: unat_of_nat)
  from \<open>t \<in> insert r (reached m r)\<close> consider "t = r" | i where "i < 256" "t \<in> target m r i"
    | i j a where "i < 256" "a \<in> target m r i" "j < 512" "t \<in> target m a j"
    | i j l a b where "i < 256" "a \<in> target m r i" "j < 512" "b \<in> target m a j" "l < 512" "t \<in> target m b l"
    unfolding reached_def by blast
  then show "t \<in> user_tables m r"
  proof cases
    case 1
    then show ?thesis unfolding user_tables_def by (auto intro!: exI [of _ 0])
  next
    case 2
    obtain va where va: "ix 0 va = of_nat i" by (rule address_of_indices [of i 0 0]) (use 2 in auto)
    have "tbl m r (Suc 0) va = Some t" by (rule step [OF _ va 2(2)]) simp
    then show ?thesis by (rule user_tablesI [OF _ lower [OF va 2(1)]]) simp
  next
    case 3
    obtain va where va: "ix 0 va = of_nat i" "ix 1 va = of_nat j" by (rule address_of_indices [of i j 0]) (use 3 in auto)
    have "tbl m r (Suc 0) va = Some a" by (rule step [OF _ va(1) 3(2)]) simp
    then have "tbl m r (Suc (Suc 0)) va = Some t" by (rule step [OF _ _ 3(4)]) (use va in simp)
    then show ?thesis by (rule user_tablesI [OF _ lower [OF va(1) 3(1)]]) simp
  next
    case 4
    obtain va where va: "ix 0 va = of_nat i" "ix 1 va = of_nat j" "ix 2 va = of_nat l"
      by (rule address_of_indices [of i j l]) (use 4 in auto)
    have "tbl m r (Suc 0) va = Some a" by (rule step [OF _ va(1) 4(2)]) simp
    then have "tbl m r (Suc (Suc 0)) va = Some b" by (rule step [OF _ _ 4(4)]) (use va in simp)
    then have "tbl m r (Suc (Suc (Suc 0))) va = Some t" by (rule step [OF _ _ 4(6)]) (use va in \<open>simp add: numeral_2_eq_2\<close>)
    then show ?thesis by (rule user_tablesI [OF _ lower [OF va(1) 4(1)]]) simp
  qed
qed

text \<open>C20. Giving a page directory back frees the tables of the user's half and the top table, where the page
  allocator manages them, and nothing else: the pages the program used stay taken, and tables of the
  static pool are lost.\<close>

theorem free_pagedir_correct:
  assumes "pmm_inv s" "4096 dvd unat r"
  shows "pmm_inv (vmm_free_pagedir r s) \<and> pmm_avail (vmm_free_pagedir r s) = pmm_avail s \<union> (user_tables (mem s) r \<inter> pmm_pool s) \<and>
    pmm_state.more (vmm_free_pagedir r s) = pmm_state.more s"
  using free_pagedir_reached [OF assms] by (simp add: frees_def user_tables_eq)

text \<open>A page as an empty directory.\<close>

theorem free_pagedir_correct_witness:
  "pmm_avail (vmm_free_pagedir (fst (pmm_alloc small_memory)) (snd (pmm_alloc small_memory))) = pmm_avail small_memory"
proof -
  let ?t = "fst (pmm_alloc small_memory)" and ?s = "snd (pmm_alloc small_memory)"
  note i = small_memory_fields(11)
  have ne: "pmm_avail small_memory \<noteq> {}" using card_small_avail by force
  note f = pmm.alloc_fresh [OF i ne]
  have t: "?t \<in> pmm_pool small_memory" using f pmm.avail_pool [OF i] by blast
  have m: "mem ?s = (\<lambda>_. 0)" by (simp add: small_memory_fields)
  have "user_tables (mem ?s) ?t = {?t}" unfolding m by (auto simp: user_tables_def tbl_zero split: if_splits intro!: exI [of _ 0])
  then show ?thesis
    using free_pagedir_correct [OF pmm.alloc_inv [OF i]] pmm.pool_page [OF i t] pmm.alloc_pool [OF i] t f by auto
qed

text \<open>The machine with its page table as the kernel's.\<close>

theorem new_pagedir_correct_witness:
  "\<exists>t s'. vmm_new_pagedir (small_memory\<lparr>kernel_pml4 := 0x10000\<rparr>) = Inr (t, s') \<and> t \<in> spare small_memory \<and> pte (mem s') t 0x400000 = 0"
proof -
  let ?s = "small_memory\<lparr>kernel_pml4 := 0x10000\<rparr>"
  have sp: "spare ?s = spare small_memory" "pmm_inv ?s = pmm_inv small_memory"
    by (simp_all add: spare_def spare_pool_def pmm_avail_def free_pages_def page_addr_def pmm_inv_def)
  have pi: "pmm_inv ?s" using small_memory_fields(11) by (simp only: sp)
  have inv: "vm_inv ?s (kernel_pml4 ?s)"
    by (rule machine_vm_inv [OF _ _ _ _ pi]) (simp_all add: small_memory_fields)
  have "pool_ok ?s" "pt_pool_used ?s + PAGE_SIZE \<le> PT_POOL_SIZE" using inv by (simp_all add: vm_inv_def small_memory_fields)
  note al = alloc_table_pool(1) [OF this]
  obtain t s' where r: "vmm_new_pagedir ?s = Inr (t, s')"
    unfolding vmm_new_pagedir_def al by auto
  show ?thesis using new_pagedir_correct [OF inv _ r] r sp(1) by (auto simp: bit_iff_odd)
qed

end
