(* ===== verification/Fairness.thy ===== *)
theory Fairness
  imports Process_Props
begin

text \<open>
  That no process starves, for any behaviour of the others: between two timer interrupts the processes may
  make system calls, create processes, sleep, exit and compute in any order.
\<close>

section \<open>What a step does to a waiting process\<close>

text \<open>A step that does not call the scheduler leaves a READY process READY and the processor where it is.\<close>

definition undisturbed :: "'a ipc_state_scheme \<Rightarrow> 'a ipc_state_scheme \<Rightarrow> bool" where
  "undisturbed s s' \<longleftrightarrow> current_proc s' = current_proc s \<and> ticks s' = ticks s \<and>
     (\<forall>i<PROC_MAX. state (proc_at i s) = PROC_READY \<longrightarrow> state (proc_at i s') = PROC_READY)"

lemma undisturbed_same [simp]: "undisturbed s s" "undisturbed s (s\<lparr>con := d\<rparr>)" "undisturbed s (s\<lparr>mem := m, cpu := r\<rparr>)"
  by (simp_all add: undisturbed_def proc_at_def)

text \<open>A call of the scheduler after the current process has changed its own entry.\<close>

definition gives_up :: "nat \<Rightarrow> 'a ipc_state_scheme \<Rightarrow> 'a ipc_state_scheme \<Rightarrow> bool" where
  "gives_up c s s' \<longleftrightarrow> (\<exists>t. s' = schedule t \<and> run_inv t \<and> current_proc t = Some c \<and> ticks t = ticks s \<and>
     (\<forall>i. i \<noteq> c \<longrightarrow> state (proc_at i t) = state (proc_at i s)))"

lemma gives_up_exit:
  assumes "run_inv s" "current_proc s = Some c"
  shows "gives_up c s (proc_exit code s)"
proof -
  let ?t = "set_proc c (\<lambda>p. p\<lparr>state := PROC_ZOMBIE, exit_code := code\<rparr>) s"
  have r: "run_inv ?t" by (rule run_inv_set_proc [OF assms(1)]) simp_all
  have "gives_up c s (schedule (kprintf f xs ?t))" for f xs
    unfolding gives_up_def by (rule exI [of _ "kprintf f xs ?t"]) (use r assms(2) in \<open>simp add: proc_at_set_proc\<close>)
  then show ?thesis using assms(2) by (simp only: proc_exit_def Let_def option.case)
qed

lemma gives_up_sleep:
  assumes "run_inv s" "current_proc s = Some c"
  shows "gives_up c s (proc_sleep ms s)"
proof -
  let ?t = "set_proc c (\<lambda>p. p\<lparr>sleep_ticks := sleep_time ms, state := PROC_SLEEPING\<rparr>) s"
  have "run_inv ?t" by (rule run_inv_set_proc [OF assms(1)]) (simp_all add: sleep_time_pos)
  then show ?thesis using assms(2) unfolding gives_up_def proc_sleep_def
    by (intro exI [of _ ?t]) (simp add: proc_at_set_proc)
qed

lemma gives_up_yield: "run_inv s \<Longrightarrow> current_proc s = Some c \<Longrightarrow> gives_up c s (proc_yield s)"
  unfolding gives_up_def proc_yield_def by blast

lemma undisturbed_send:
  assumes "mail_inv s" "ipc_send dst ty data len s = (r, s')"
  shows "undisturbed s s'"
proof (cases "r = 0")
  case True
  with assms obtain t m where t: "t < 64" "s' = delivered t m ty data len s" by (metis mail_send)
  let ?u = "set_msg m (filled ty data len s) (s\<lparr>msg_used := (msg_used s)[m := True]\<rparr>)"
  have "length (proc_table s) = 64" using assms(1) by (simp add: mail_inv_def run_inv_length)
  then have "t < length (proc_table ?u)" using t(1) by simp
  from enqueue_proc [OF this] t show ?thesis
    by (auto simp: delivered_def undisturbed_def proc_wakeup_def proc_at_set_proc wakeup_def)
next
  case False
  have "post (dst, ty, data, len) s = (r, s')" using assms(2) by simp
  from ipc.post_fail [OF assms(1) this False] show ?thesis by simp
qed

lemma undisturbed_recv:
  assumes "run_inv s" "c < 64" "ipc_recv_pass c out s = Inl s'"
  shows "undisturbed s s'"
proof -
  have "c < length (proc_table (cli s))" using assms(1,2) by (simp add: run_inv_length cli_def)
  from dequeue_proc [OF this] assms(3) show ?thesis
    by (auto simp: ipc_recv_pass_def undisturbed_def Let_def msg_free_def restore_flags_def cli_def proc_at_def
        split: option.splits if_splits)
qed

lemma undisturbed_create:
  assumes "kernel_inv s" "proc_create nm entry s = Some (r, s')"
  shows "undisturbed s s'"
proof -
  have i: "run_inv s" "pid_inv s" "heap_inv s" using assms(1) by (auto simp: kernel_inv_def)
  obtain r' t where t: "proc_create nm entry s = Some (r', t)" "current_proc t = current_proc s" "ticks t = ticks s"
    "r' = None \<Longrightarrow> proc_table t = proc_table s"
    "\<And>i. r' = Some i \<Longrightarrow> alloc_proc s = Some i \<and> (\<forall>j. j \<noteq> i \<longrightarrow> proc_at j t = proc_at j s)"
    by (rule proc_create_spec [OF i, of nm entry]) metis
  have "state (proc_at j t) = PROC_READY" if "state (proc_at j s) = PROC_READY" for j
  proof (cases r')
    case None
    then show ?thesis using t(4) that by (simp add: proc_at_def)
  next
    case (Some k)
    with t(5) have "proc_at j t = proc_at j s" if "j \<noteq> k" for j using that by blast
    moreover have "j \<noteq> k" using alloc_proc_Some(2) [of s k] t(5) Some that by (auto simp: used_def)
    ultimately show ?thesis using that by simp
  qed
  then show ?thesis using t(1-3) assms(2) by (simp add: undisturbed_def)
qed

lemma undisturbed_create_elf:
  assumes "run_inv s" "proc_create_elf elf s = Inr (r, s')"
  shows "undisturbed s s'"
proof (cases r)
  case None
  then show ?thesis using proc_create_elf_None [of elf s s'] assms(2) by simp
next
  case (Some k)
  let ?n = "s\<lparr>next_pid := next_pid s + 1\<rparr>"
  note len = run_inv_length [OF assms(1)]
  obtain pa e stk where slot: "alloc_proc s = Some k"
    and sh: "same_tables (set_proc k (\<lambda>_. elf_process (next_pid s) pa e stk (proc_entry_user s)) ?n) s'"
    using proc_create_elf_shape [of s elf k s'] assms(2) Some len by auto
  have "state (proc_at j s') = PROC_READY" if "state (proc_at j s) = PROC_READY" for j
    using sh that alloc_proc_Some [OF slot] len
    by (auto simp: same_tables_def proc_at_def set_proc_def nth_list_update)
  then show ?thesis using sh by (simp add: undisturbed_def same_tables_def)
qed

text \<open>The three kinds of steps.\<close>

lemma kstep_kinds:
  assumes "kstep s s'" "kernel_inv s" "current_proc s = Some c"
  obtains (none) "undisturbed s s'" | (sched) "gives_up c s s'" | (timer) "s' = timer_irq s"
proof -
  have r: "run_inv s" "mail_inv s" "c < 64"
    using assms(2,3) run_inv_current by (auto simp: kernel_inv_def mail_inv_def)
  from assms(1) show thesis
  proof (cases rule: kstep.cases)
    case k_timer
    then show thesis using timer by blast
  next
    case (k_exit code)
    then show thesis using gives_up_exit [OF r(1) assms(3)] sched by blast
  next
    case k_yield
    then show thesis using gives_up_yield [OF r(1) assms(3)] sched by blast
  next
    case (k_sleep ms)
    then show thesis using gives_up_sleep [OF r(1) assms(3)] sched by blast
  next
    case (k_send dst ty data len q)
    then show thesis using undisturbed_send [OF r(2)] none by blast
  next
    case (k_recv d out)
    then show thesis using undisturbed_recv [OF r(1,3)] assms(3) none by auto
  next
    case (k_wait d out)
    from r(2,3) show thesis
    proof (cases rule: mail_recv [where out = out])
      case empty
      then show thesis using k_wait assms(3) gives_up_sleep [OF r(1) assms(3)] sched by auto
    qed (use k_wait assms(3) in auto)
  next
    case (k_create nm entry q)
    then show thesis using undisturbed_create [OF assms(2)] none by blast
  next
    case (k_create_elf elf q)
    then show thesis using undisturbed_create_elf [OF r(1)] none by blast
  next
    case (k_kmalloc n p)
    from heap_more_sched [OF kmalloc_more(1) [OF k_kmalloc(2)]] have "undisturbed s s'" by (simp add: undisturbed_def proc_at_def)
    then show thesis by (rule none)
  qed (use none in simp_all)
qed

section \<open>The distance to the processor\<close>

text \<open>A call of the scheduler that does not pick a READY process brings it nearer.\<close>

lemma schedule_nearer:
  assumes "run_inv t" "current_proc t = Some c" "i < 64" "state (proc_at i t) = PROC_READY" "current_proc (schedule t) \<noteq> Some i"
  obtains j where "current_proc (schedule t) = Some j" "dist j i < dist c i" "state (proc_at i (schedule t)) = PROC_READY"
proof -
  have c64: "c < 64" using run_inv_current [OF assms(1,2)] by simp
  from assms(1,2) show thesis
  proof (cases rule: schedule_cases)
    case idle
    then show thesis using assms(3,4) by blast
  next
    case (switch j)
    have cur: "current_proc (schedule t) = Some j" by (simp add: switch(5))
    then have ji: "j \<noteq> i" using assms(5) by auto
    then have "dist c j \<noteq> dist c i" using dist_inject [OF c64 switch(1) assms(3)] by blast
    then have lt: "dist c j < dist c i" using switch(4) assms(3,4) by fastforce
    have "dist j i < dist c i" using dist_less [OF c64 assms(3) switch(1) lt] dist_bounds [OF c64 switch(1)] lt by simp
    moreover have "state (proc_at i (schedule t)) = PROC_READY"
      using schedule_state [OF assms(1,2) switch(5,1), of i] ji assms(4) by auto
    ultimately show thesis using that cur by blast
  qed
qed

text \<open>
  How many timer interrupts process \<open>i\<close> waits at most: ten for each place it is behind, less those that
  have passed since the last time slice ended.
\<close>

definition patience :: "nat \<Rightarrow> 'a ipc_state_scheme \<Rightarrow> nat" where
  "patience i s = (case current_proc s of None \<Rightarrow> 0 | Some c \<Rightarrow> 10 * dist c i - unat (ticks s) mod 10)"

definition queued :: "nat \<Rightarrow> 'a ipc_state_scheme \<Rightarrow> bool" where
  "queued i s \<longleftrightarrow> kernel_inv s \<and> i < PROC_MAX \<and> state (proc_at i s) = PROC_READY \<and>
     (\<exists>c. current_proc s = Some c \<and> c \<noteq> i)"

lemma unat_mod10: "(t mod 10 = 0) = (unat t mod 10 = 0)" for t :: u64
  by (simp add: word_arith_nat_mod unat_eq_0 [symmetric] unat_of_nat)

lemma next_tick: "unat (t + 1) mod 10 \<noteq> 0 \<Longrightarrow> unat (t + 1) mod 10 = unat t mod 10 + 1" for t :: u64
proof -
  assume n: "unat (t + 1) mod 10 \<noteq> 0"
  then have "t + 1 \<noteq> 0" by auto
  then have "unat (t + 1) = Suc (unat t)" by (metis add.commute unatSuc)
  then show ?thesis using n by (simp add: mod_Suc split: if_splits)
qed

lemma queued_dist:
  assumes "queued i s" "current_proc s = Some c"
  shows "1 \<le> dist c i" "dist c i \<le> 64" "c < 64"
proof -
  show c: "c < 64" using assms run_inv_current by (auto simp: queued_def kernel_inv_def)
  show "1 \<le> dist c i" "dist c i \<le> 64" using dist_bounds [OF c, of i] assms(1) by (auto simp: queued_def)
qed

lemma timer_patience:
  assumes "queued i s" "current_proc (timer_irq s) \<noteq> Some i"
  shows "state (proc_at i (timer_irq s)) = PROC_READY \<and> current_proc (timer_irq s) \<noteq> None \<and> patience i (timer_irq s) < patience i s"
proof -
  let ?u = "count_down (s\<lparr>ticks := ticks s + 1\<rparr>)"
  obtain c where c: "current_proc s = Some c" "i < 64" "state (proc_at i s) = PROC_READY" "run_inv s"
    using assms(1) by (auto simp: queued_def kernel_inv_def)
  note d = queued_dist [OF assms(1) c(1)]
  have u: "run_inv ?u" "current_proc ?u = Some c" "ticks ?u = ticks s + 1" "state (proc_at i ?u) = PROC_READY"
    using c count_down_inv [of "s\<lparr>ticks := ticks s + 1\<rparr>"] proc_at_count_down [of "s\<lparr>ticks := ticks s + 1\<rparr>" i]
    by (simp_all add: tick_process_def) (simp_all add: count_down_def)
  have m: "unat (ticks s) mod 10 \<le> 9" by simp
  show ?thesis
  proof (cases "unat (ticks s + 1) mod 10 = 0")
    case True
    then have e: "timer_irq s = schedule ?u" using c(1) by (simp add: timer_irq_def sched_tick_eq unat_mod10)
    from u(1,2) c(2) u(4) assms(2) obtain j where
      j: "current_proc (schedule ?u) = Some j" "dist j i < dist c i" "state (proc_at i (schedule ?u)) = PROC_READY"
      unfolding e by (rule schedule_nearer)
    then show ?thesis unfolding e using u c(1) m by (simp add: patience_def)
  next
    case False
    then have "timer_irq s = ?u" by (simp add: timer_irq_def sched_tick_eq unat_mod10)
    then show ?thesis using u c(1) next_tick [OF False] d(1) m by (simp add: patience_def)
  qed
qed

lemma kstep_patience:
  assumes "queued i s" "kstep s s'" "current_proc s' \<noteq> Some i"
  shows "queued i s' \<and> patience i s' \<le> patience i s"
proof -
  obtain c where c: "current_proc s = Some c" "c \<noteq> i" "i < 64" "state (proc_at i s) = PROC_READY" "kernel_inv s"
    using assms(1) by (auto simp: queued_def)
  have k: "kernel_inv s'" using kstep_inv [OF assms(2) c(5)] by blast
  from assms(2) c(5,1) show ?thesis
  proof (cases rule: kstep_kinds)
    case none
    then show ?thesis using k c by (simp add: undisturbed_def queued_def patience_def)
  next
    case sched
    then obtain t where t: "s' = schedule t" "run_inv t" "current_proc t = Some c" "ticks t = ticks s"
      "state (proc_at i t) = PROC_READY" using c by (auto simp: gives_up_def)
    from t(2,3) c(3) t(5) assms(3) obtain j where
      "current_proc (schedule t) = Some j" "dist j i < dist c i" "state (proc_at i (schedule t)) = PROC_READY"
      unfolding t(1) by (rule schedule_nearer)
    then show ?thesis using k c t assms(3) by (simp add: queued_def patience_def)
  next
    case timer
    then show ?thesis using timer_patience [OF assms(1)] assms(3) k c(3) by (fastforce simp: queued_def)
  qed
qed

section \<open>No process starves\<close>

text \<open>\<open>unserved i s n s'\<close>: the kernel gets from \<open>s\<close> to \<open>s'\<close>, with at least \<open>n\<close> timer interrupts on the way, and
  process \<open>i\<close> does not get the processor.\<close>

inductive unserved :: "nat \<Rightarrow> 'a ipc_state_scheme \<Rightarrow> nat \<Rightarrow> 'a ipc_state_scheme \<Rightarrow> bool" for i and s :: "'a ipc_state_scheme" where
  u_start: "unserved i s 0 s"
| u_tick: "unserved i s n s' \<Longrightarrow> current_proc (timer_irq s') \<noteq> Some i \<Longrightarrow> unserved i s (Suc n) (timer_irq s')"
| u_step: "unserved i s n s' \<Longrightarrow> kstep s' s'' \<Longrightarrow> current_proc s'' \<noteq> Some i \<Longrightarrow> unserved i s n s''"

lemma unserved_patience: "unserved i s n s' \<Longrightarrow> queued i s \<Longrightarrow> queued i s' \<and> n + patience i s' \<le> patience i s"
proof (induction rule: unserved.induct)
  case (u_tick n s')
  then show ?case using timer_patience [of i s'] kstep_patience [OF _ k_timer, of i s'] by fastforce
next
  case (u_step n s' s'')
  then show ?case using kstep_patience by fastforce
qed simp

lemma unserved_bound:
  assumes "queued i s" "current_proc s = Some c" "unserved i s n s'"
  shows "n < 10 * dist c i \<and> state (proc_at i s') = PROC_READY"
proof -
  from unserved_patience [OF assms(3,1)] have u: "queued i s'" "n + patience i s' \<le> patience i s" by blast+
  then obtain c' where c': "current_proc s' = Some c'" by (auto simp: queued_def)
  have "unat (ticks s') mod 10 \<le> 9" by simp
  then have "0 < patience i s'" using queued_dist(1) [OF u(1) c'] c' by (simp add: patience_def)
  moreover have "patience i s \<le> 10 * dist c i" using assms(2) by (simp add: patience_def)
  ultimately show ?thesis using u by (simp add: queued_def)
qed

lemma unserved_timers:
  assumes "unserved i s n s'" "\<forall>j\<le>k. current_proc ((timer_irq ^^ j) s') \<noteq> Some i"
  shows "unserved i s (n + k) ((timer_irq ^^ k) s')"
  using assms(2)
proof (induction k)
  case (Suc k)
  then have "unserved i s (n + k) ((timer_irq ^^ k) s')" by simp
  moreover have "current_proc (timer_irq ((timer_irq ^^ k) s')) \<noteq> Some i" using Suc.prems by (auto dest: spec [of _ "Suc k"])
  ultimately show ?case using u_tick by fastforce
qed (use assms(1) in simp)

lemma timers_serve:
  assumes "queued i s" "current_proc s = Some c" "unserved i s n s'"
  shows "\<exists>k \<le> 10 * dist c i - n. current_proc ((timer_irq ^^ k) s') = Some i"
  using unserved_bound [OF assms(1,2) unserved_timers [OF assms(3), of "10 * dist c i - n"]] unserved_bound [OF assms] by auto

text \<open>C6. No READY process starves, whatever the processes do: while it waits for the processor - through timer
  interrupts, system calls, creations of processes and computations in any order - it stays READY, and
  fewer timer interrupts pass than ten for each place it is behind the current process, so fewer than 640;
  and whenever the others only compute from then on, it gets the processor within the rest of that time.\<close>

theorem no_starvation:
  assumes "kernel_inv s" "current_proc s = Some c" "c \<noteq> i" "i < PROC_MAX" "state (proc_at i s) = PROC_READY"
    and "unserved i s n s'"
  shows "n < 10 * dist c i \<and> dist c i \<le> PROC_MAX \<and> state (proc_at i s') = PROC_READY \<and>
    (\<exists>k \<le> 10 * dist c i - n. current_proc ((timer_irq ^^ k) s') = Some i)"
proof -
  have q: "queued i s" using assms(1-5) by (simp add: queued_def)
  then show ?thesis
    using unserved_bound [OF q assms(2,6)] queued_dist(2) [OF q assms(2)] timers_serve [OF q assms(2,6)] by simp
qed

text \<open>The second process of \<open>duo\<close> runs after at most ten timer interrupts.\<close>

theorem no_starvation_witness: "\<exists>k\<le>10. current_proc ((timer_irq ^^ k) duo) = Some 1"
  using no_starvation [OF duo_kernel_inv duo_fields(2) _ _ _ u_start, of 1]
  by (simp add: duo_proc duo_ready_def dist_def)

section \<open>Sleeping\<close>

lemma timers_inv:
  assumes "kernel_inv s" "current_proc s \<noteq> None"
  shows "kernel_inv ((timer_irq ^^ n) s) \<and> current_proc ((timer_irq ^^ n) s) \<noteq> None"
proof (induction n)
  case (Suc n)
  let ?t = "(timer_irq ^^ n) s"
  let ?u = "count_down (?t\<lparr>ticks := ticks ?t + 1\<rparr>)"
  have k: "kernel_inv (timer_irq ?t)" using kstep_inv [OF k_timer] Suc by blast
  obtain c where c: "current_proc ?t = Some c" using Suc by blast
  have u: "run_inv ?u" "current_proc ?u = Some c" using Suc c
    by (simp_all add: kernel_inv_def count_down_inv) (simp add: count_down_def)
  then have "current_proc (schedule ?u) \<noteq> None" by (cases rule: schedule_cases) (use u(2) in simp_all)
  then have "current_proc (timer_irq ?t) \<noteq> None" using u(2) by (simp add: timer_irq_def sched_tick_eq)
  then show ?case using k by simp
qed (use assms in simp)

text \<open>C14. A process that sleeps with \<open>n\<close> ticks left is still SLEEPING after any smaller number of timer interrupts
  and READY or already RUNNING after the \<open>n\<close>-th, and gets the processor at most 640 timer interrupts later.\<close>

theorem sleep_expires:
  assumes "kernel_inv s" "current_proc s \<noteq> None" "i < PROC_MAX" "state (proc_at i s) = PROC_SLEEPING"
  shows "let n = unat (sleep_ticks (proc_at i s)) in
    (\<forall>m<n. state (proc_at i ((timer_irq ^^ m) s)) = PROC_SLEEPING) \<and>
    state (proc_at i ((timer_irq ^^ n) s)) \<in> {PROC_READY, PROC_RUNNING} \<and>
    (\<exists>k\<ge>n. k \<le> n + 640 \<and> current_proc ((timer_irq ^^ k) s) = Some i)"
proof -
  define n where "n = unat (sleep_ticks (proc_at i s))"
  let ?t = "(timer_irq ^^ n) s"
  have r: "run_inv s" using assms(1) by (simp add: kernel_inv_def)
  note w = sleeper_wakes(3,4) [OF r assms(3,4), folded n_def]
  obtain c where t: "kernel_inv ?t" "current_proc ?t = Some c" using timers_inv [OF assms(1,2), of n] by blast
  have st: "state (proc_at i ?t) \<in> {PROC_READY, PROC_RUNNING}" by (rule w(2)) simp_all
  have "\<exists>k\<le>640. current_proc ((timer_irq ^^ k) ?t) = Some i"
  proof (cases "c = i")
    case True
    then show ?thesis using t(2) by (intro exI [of _ 0]) simp
  next
    case False
    then have "state (proc_at i ?t) = PROC_READY" using st run_invD(2) [of ?t i] t assms(3) by (auto simp: kernel_inv_def)
    then have q: "queued i ?t" using t False assms(3) by (simp add: queued_def)
    obtain k where "k \<le> 10 * dist c i" "current_proc ((timer_irq ^^ k) ?t) = Some i"
      using timers_serve [OF q t(2) u_start] by auto
    then show ?thesis using queued_dist(2) [OF q t(2)] by (intro exI [of _ k]) simp
  qed
  then obtain k where "k \<le> 640" "current_proc ((timer_irq ^^ (k + n)) s) = Some i" by (auto simp: funpow_add)
  then have "\<exists>k\<ge>n. k \<le> n + 640 \<and> current_proc ((timer_irq ^^ k) s) = Some i" by (intro exI [of _ "k + n"]) simp
  then show ?thesis using w(1) st by (simp add: n_def Let_def)
qed

definition sleeper :: ipc_state where
  "sleeper = set_proc 1 (\<lambda>p. p\<lparr>state := PROC_SLEEPING, sleep_ticks := 2\<rparr>) duo"

lemma sleeper_inv: "kernel_inv sleeper" "current_proc sleeper = Some 0" "state (proc_at 1 sleeper) = PROC_SLEEPING"
  "unat (sleep_ticks (proc_at 1 sleeper)) = 2"
proof -
  have k: "run_inv duo" "pid_inv duo" "ipc_inv duo" "heap_inv duo" using duo_kernel_inv by (auto simp: kernel_inv_def)
  have "run_inv sleeper" unfolding sleeper_def by (rule run_inv_set_proc [OF k(1)]) simp_all
  moreover have "pid_inv sleeper" unfolding sleeper_def
    using k(2) pid_inv_cong [OF same_ids_set_proc [of "\<lambda>p. p\<lparr>state := PROC_SLEEPING, sleep_ticks := 2\<rparr>" 1 duo]]
    by (simp add: duo_used)
  moreover have "ipc_inv sleeper" unfolding sleeper_def by (rule ipc_inv_set_proc [OF k(3)]) (simp_all add: duo_used)
  moreover have "heap_inv sleeper" using k(4) by (simp add: sleeper_def)
  ultimately show "kernel_inv sleeper" by (simp add: kernel_inv_def)
  show "current_proc sleeper = Some 0" "state (proc_at 1 sleeper) = PROC_SLEEPING" "unat (sleep_ticks (proc_at 1 sleeper)) = 2"
    by (simp_all add: sleeper_def proc_at_set_proc)
qed

theorem sleep_expires_witness:
  "state (proc_at 1 (timer_irq sleeper)) = PROC_SLEEPING \<and> (\<exists>k\<ge>2. k \<le> 642 \<and> current_proc ((timer_irq ^^ k) sleeper) = Some 1)"
proof -
  have "\<forall>m<2. state (proc_at 1 ((timer_irq ^^ m) sleeper)) = PROC_SLEEPING"
    "\<exists>k\<ge>2. k \<le> 642 \<and> current_proc ((timer_irq ^^ k) sleeper) = Some 1"
    using sleep_expires [OF sleeper_inv(1) _ _ sleeper_inv(3)] unfolding sleeper_inv(4) Let_def by (simp_all add: sleeper_inv(2))
  then show ?thesis by (auto dest: spec [of _ 1])
qed

end
