(* ===== verification/Test_Procs.thy ===== *)
theory Test_Procs
  imports Message_Props Fairness Boot
begin

text \<open>
  The kernel's test processes of \<^verbatim>\<open>kernel/main.c\<close>, which sleep, print and send messages.  What the rest of the
  system does while one of them sleeps is a parameter, \<open>resume\<close>.
\<close>

section \<open>proc_hello\<close>

text \<open>\<^verbatim>\<open>proc_hello\<close> returns when it is woken from each of its five sleeps.\<close>

lemma proc_hello_returns:
  assumes "\<And>c u. resume c u \<noteq> None"
  shows "\<exists>s'. proc_hello resume s = Some s'"
proof -
  have cb: "\<exists>u. came_back resume t v = Some u" for t v
    using assms by (auto simp: came_back_def split: option.split)
  have "\<exists>s'. hello_loop resume n s = Some s'" for n s
  proof (induction "5 - n" arbitrary: n s rule: less_induct)
    case less
    let ?s1 = "kprintf ''[proc_hello] tick=%lu count=%d
'' [Num (ticks s), Num (of_nat n)] s"
    obtain u where u: "came_back resume ?s1 (proc_sleep 1000 ?s1) = Some u" using cb by blast
    show ?case
    proof (cases "Suc n \<ge> 5")
      case True
      then show ?thesis using u by (subst hello_loop.simps) (simp add: Let_def)
    next
      case False
      then have "\<exists>s'. hello_loop resume (Suc n) u = Some s'" by (intro less) simp
      then show ?thesis using u False by (subst hello_loop.simps) (simp add: Let_def)
    qed
  qed
  then show ?thesis by (simp add: proc_hello_def)
qed

section \<open>proc_sender\<close>

text \<open>While the sender \<open>c\<close> sleeps, the system brings it back, and neither uses messages nor changes who exists.\<close>

definition quiet :: "'a ipc_state_scheme resume \<Rightarrow> nat \<Rightarrow> nat \<Rightarrow> bool" where
  "quiet resume c t \<longleftrightarrow> (\<forall>s. mail_inv s \<and> current_proc s = Some c \<longrightarrow>
     (\<exists>s'. came_back resume s (proc_sleep 500 s) = Some s' \<and> mail_inv s' \<and> current_proc s' = Some c \<and> same_ids s s' \<and>
       msg_used s' = msg_used s \<and> mailbox s' t = mailbox s t))"

definition free_slots :: "'a ipc_state_scheme \<Rightarrow> nat set" where
  "free_slots s = {m. m < IPC_POOL_SIZE \<and> \<not> msg_used s ! m}"

lemma mailbox_other [simp]:
  "mailbox (s\<lparr>mem := m\<rparr>) p = mailbox s p" "mailbox (kprintf f xs s) p = mailbox s p"
  by (simp_all add: mailbox_def entries_def proc_at_def msg_at_def kprintf_def)

lemma mail_inv_other [simp]: "mail_inv (s\<lparr>mem := m\<rparr>) = mail_inv s" "mail_inv (kprintf f xs s) = mail_inv s"
proof -
  have "ipc_inv (s\<lparr>mem := m\<rparr>) = ipc_inv s" "ipc_inv (s\<lparr>con := d\<rparr>) = ipc_inv s" for d
    by (rule iffI; erule ipc_inv_cong [rotated 3]; simp add: proc_at_def used_def)+
  then show "mail_inv (s\<lparr>mem := m\<rparr>) = mail_inv s" "mail_inv (kprintf f xs s) = mail_inv s"
    by (simp_all add: mail_inv_def) (simp add: kprintf_def)
qed

lemma same_ids_find:
  assumes "same_ids s s'"
  shows "proc_find d s' = proc_find d s"
  using assms by (auto simp: proc_find_def same_ids_def used_def intro!: find_cong)

lemma same_ids_cur_pid:
  assumes "same_ids s s'" "current_proc s' = current_proc s" "run_inv s"
  shows "cur_pid s' = cur_pid s"
  using assms run_inv_current by (fastforce simp: cur_pid_def same_ids_def split: option.split)

text \<open>A send with a receiver and a free slot succeeds and takes one slot.\<close>

lemma send_with_room:
  assumes "mail_inv s" "proc_find dst s = Some t" "data \<noteq> 0" "len \<le> IPC_MSG_MAX" "free_slots s \<noteq> {}"
  obtains s' where "ipc_send dst ty data len s = (0, s')" "mail_inv s'" "current_proc s' = current_proc s" "same_ids s s'"
    "card (free_slots s') = card (free_slots s) - 1"
    "mailbox s' t = mailbox s t @ [(cur_pid s, ty, read_bytes (mem s) data (unat len))]"
proof -
  obtain q where q: "owned s q" "pool_inv s" and ri: "run_inv s"
    using assms(1) by (auto simp: mail_inv_def ipc_inv_def queues_def)
  from q(2,1) obtain s' where s': "ipc_send dst ty data len s = (0, s')"
    by (cases rule: ipc_send_cases [of s q dst ty data len]) (use assms in \<open>auto simp: free_slots_def\<close>)
  obtain u m where m: "proc_find dst s = Some u" "u < 64" "m < 128" "\<not> msg_used s ! m" "s' = delivered u m ty data len s"
    "mail_inv s'" "\<And>p. p < 64 \<Longrightarrow> mailbox s' p = (if p = u then mailbox s u @ [sent_letter ty data len m s] else mailbox s p)"
    by (rule mail_send [OF assms(1) s']) blast
  have "length (msg_used s) = 128" using q(2) by (simp add: pool_inv_def)
  then have "free_slots s' = free_slots s - {m}"
    using m(3,5) by (auto simp: free_slots_def delivered_def nth_list_update)
  moreover have "m \<in> free_slots s" "finite (free_slots s)" using m(3,4) by (auto simp: free_slots_def)
  ultimately have "card (free_slots s') = card (free_slots s) - 1" by simp
  moreover have "u < length (proc_table s)" using m(2) ri by (simp add: run_inv_length)
  from delivered_ids [OF this] have "same_ids s s'" using m(5) by simp
  moreover have "current_proc s' = current_proc s" using m(5) by (simp add: delivered_def proc_wakeup_def)
  ultimately show thesis
    using that [OF s' m(6)] m(1,2,7) assms(2,3) by (simp add: sent_letter_def)
qed

definition greeting :: "u8 list" where
  "greeting = bytes_of ''hello from sender'' @ [0]"

lemma greeting_length: "length greeting = 18"
  by (simp add: greeting_def bytes_of_def)

lemma read_own_bytes: "length bs \<le> 2 ^ 63 \<Longrightarrow> read_bytes (write_bytes m a bs) a (length bs) = bs"
  by (intro nth_equalityI) (simp_all add: write_bytes_apply unat_of_nat)

lemma sender_rounds:
  assumes "quiet resume c t" "msg \<noteq> 0"
    and "mail_inv s" "current_proc s = Some c" "proc_find 2 s = Some t" "k \<le> card (free_slots s)"
  shows "\<exists>s'. sender_loop resume msg k s = Some s' \<and> mail_inv s' \<and>
    mailbox s' t = mailbox s t @ replicate k (cur_pid s, 0x100, greeting)"
  using assms(3-)
proof (induction k arbitrary: s)
  case (Suc k)
  obtain s1 where s1: "came_back resume s (proc_sleep 500 s) = Some s1" "mail_inv s1" "current_proc s1 = Some c"
    "same_ids s s1" "msg_used s1 = msg_used s" "mailbox s1 t = mailbox s t"
    using assms(1) Suc.prems(1,2) unfolding quiet_def by blast
  let ?s2 = "s1\<lparr>mem := write_bytes (mem s1) msg greeting\<rparr>"
  have fs: "free_slots ?s2 = free_slots s" by (simp add: free_slots_def s1(5))
  then have "free_slots ?s2 \<noteq> {}" using Suc.prems(4) by auto
  moreover have "proc_find 2 ?s2 = Some t" "same_ids s ?s2"
    using same_ids_find [OF s1(4), of 2] Suc.prems(3) s1(4) by (simp_all add: proc_find_def same_ids_def used_def)
  ultimately obtain s3 where s3: "ipc_send 2 0x100 msg 18 ?s2 = (0, s3)" "mail_inv s3" "current_proc s3 = Some c"
    "same_ids ?s2 s3" "card (free_slots s3) = card (free_slots s) - 1"
    "mailbox s3 t = mailbox s t @ [(cur_pid ?s2, 0x100, read_bytes (mem ?s2) msg 18)]"
    using s1(2,3,6) fs by (auto intro: send_with_room [of ?s2 2 t msg 18 "0x100"] simp: assms(2))
  have "cur_pid s = cur_pid ?s2"
    using same_ids_cur_pid [OF \<open>same_ids s ?s2\<close>] s1(3) Suc.prems(1,2) by (simp add: mail_inv_def)
  moreover have "read_bytes (mem ?s2) msg 18 = greeting"
    using read_own_bytes [of greeting "mem s1" msg] greeting_length by simp
  moreover have ids: "same_ids s s3" using \<open>same_ids s ?s2\<close> s3(4) by (rule same_ids_trans)
  moreover have "cur_pid s3 = cur_pid s"
    using same_ids_cur_pid [OF ids] s3(3) Suc.prems(1,2) by (simp add: mail_inv_def)
  ultimately have b: "mailbox s3 t = mailbox s t @ [(cur_pid s, 0x100, greeting)]" "cur_pid s3 = cur_pid s"
    "proc_find 2 s3 = Some t" using s3(6) same_ids_find [OF ids] Suc.prems(3) by simp_all
  let ?s4 = "kprintf ''[proc_sender] sent msg %d
'' [Num (of_nat (2 - k))] s3"
  have "cur_pid ?s4 = cur_pid s3" "proc_find 2 ?s4 = proc_find 2 s3" "free_slots ?s4 = free_slots s3"
    by (simp_all add: cur_pid_def proc_find_def free_slots_def kprintf_def proc_at_def split: option.split)
  note f4 = this
  have "k \<le> card (free_slots ?s4)" using f4(3) s3(5) Suc.prems(4) by simp
  with f4(1,2) b(2,3) s3(2,3) obtain s' where "sender_loop resume msg k ?s4 = Some s'" "mail_inv s'"
    "mailbox s' t = mailbox s3 t @ replicate k (cur_pid s, 0x100, greeting)"
    using Suc.IH [of ?s4] by (simp del: replicate_Suc) blast
  then show ?case using s1(1) s3(1) b(1) by (simp add: Let_def greeting_def)
qed simp

text \<open>C37. The message test: if the system brings the sender back from its sleeps and uses no messages meanwhile,
  \<^verbatim>\<open>proc_sender\<close> returns, and its three messages, each the number of the sender, the type 0x100 and the
  greeting with its final zero, are at the end of the queue of process 2.\<close>

theorem sender_delivers:
  assumes "quiet resume c t" "msg \<noteq> 0" "mail_inv s" "current_proc s = Some c" "proc_find 2 s = Some t"
    and "3 \<le> card (free_slots s)"
  shows "\<exists>s'. proc_sender resume msg s = Some s' \<and> mail_inv s' \<and>
    mailbox s' t = mailbox s t @ replicate 3 (cur_pid s, 0x100, bytes_of ''hello from sender'' @ [0])"
proof -
  let ?s = "kprintf ''[proc_sender] pid=%d started
'' [Num (scast (cur_pid s))] s"
  have "cur_pid ?s = cur_pid s" "proc_find 2 ?s = proc_find 2 s" "free_slots ?s = free_slots s"
    by (simp_all add: cur_pid_def proc_find_def free_slots_def kprintf_def proc_at_def split: option.split)
  then show ?thesis using sender_rounds [OF assms(1,2), of ?s 3] assms(3-6) by (simp add: proc_sender_def greeting_def)
qed

text \<open>A system that gives the processor back at once.\<close>

definition give_back :: "nat \<Rightarrow> 'a ipc_state_scheme \<Rightarrow> 'a ipc_state_scheme option" where
  "give_back c s = (case current_proc s of None \<Rightarrow> None
     | Some d \<Rightarrow> Some ((set_proc c (\<lambda>p. p\<lparr>state := PROC_RUNNING\<rparr>) (preempt d s))\<lparr>current_proc := Some c\<rparr>))"

lemma give_back_spec:
  assumes "mail_inv s" "current_proc s = Some d" "d \<noteq> c" "c < 64" "used c s"
  obtains s' where "give_back c s = Some s'" "mail_inv s'" "current_proc s' = Some c" "same_ids s s'"
    "msg_used s' = msg_used s" "mailbox s' t = mailbox s t"
proof -
  let ?s' = "(set_proc c (\<lambda>p. p\<lparr>state := PROC_RUNNING\<rparr>) (preempt d s))\<lparr>current_proc := Some c\<rparr>"
  have ri: "run_inv s" and ii: "ipc_inv s" using assms(1) by (auto simp: mail_inv_def)
  have d: "d < length (proc_table s)" "c < length (proc_table s)" "used d s"
    using run_inv_current [OF ri assms(2)] run_invD(1) [OF ri assms(2)] run_inv_length [OF ri] assms(4) by simp_all
  have at: "proc_at p (set_proc c (\<lambda>p. p\<lparr>state := PROC_RUNNING\<rparr>) (preempt d s)) = (if p = c then (proc_at c s)\<lparr>state := PROC_RUNNING\<rparr>
      else if p = d \<and> state (proc_at d s) = PROC_RUNNING then (proc_at d s)\<lparr>state := PROC_READY\<rparr> else proc_at p s)" for p
    using d(1,2) assms(3) by (simp add: proc_at_set_proc preempt_proc)
  have st: "p = c" if "state (proc_at p ?s') = PROC_RUNNING" "p < 64" for p
  proof (rule ccontr)
    assume "p \<noteq> c"
    then show False using that(1) run_invD(2) [OF ri that(2)] assms(2)
      by (cases "p = d"; cases "state (proc_at d s) = PROC_RUNNING") (simp_all add: at)
  qed
  have "run_inv ?s'"
  proof (rule run_invI)
    show "length (proc_table ?s') = 64" using run_inv_length [OF ri] by simp
    show "sleep_ticks (proc_at i ?s') \<noteq> 0" if "i < 64" "state (proc_at i ?s') = PROC_SLEEPING" for i
      using run_invD(3) [OF ri that(1)] that(2) by (auto simp: at split: if_splits)
    show "d' < 64 \<and> used d' ?s'" if "current_proc ?s' = Some d'" for d' using that assms(4) at [of c] by (auto simp: used_def)
    show "current_proc ?s' = Some i" if "i < 64" "state (proc_at i ?s') = PROC_RUNNING" for i using st [OF that(2,1)] by simp
  qed
  moreover have us: "used p ?s' = used p s" for p using assms(5) d(3) by (simp add: used_def at)
  have "ipc_inv ?s'"
    by (rule ipc_inv_cong [OF _ _ _ ii]) (use us in \<open>simp_all add: at, simp_all add: preempt_def\<close>)
  moreover have "same_ids s ?s'" using us by (simp add: same_ids_def at)
  moreover have "mailbox ?s' t = mailbox s t" "msg_used ?s' = msg_used s"
    by (simp_all add: mailbox_def entries_def msg_at_def at) (simp_all add: preempt_def)
  ultimately show thesis using that [of ?s'] assms(2) by (simp add: give_back_def mail_inv_def)
qed

lemma sleep_messages:
  assumes "run_inv s" "current_proc s = Some c"
  shows "msg_used (proc_sleep ms s) = msg_used s" "mailbox (proc_sleep ms s) t = mailbox s t"
proof -
  let ?t = "set_proc c (\<lambda>p. p\<lparr>sleep_ticks := sleep_time ms, state := PROC_SLEEPING\<rparr>) s"
  have r: "run_inv ?t" by (rule run_inv_set_proc [OF assms(1)]) (simp_all add: sleep_time_pos)
  note m = more_ipc [OF schedule_frame(6) [OF r]]
  have q: "msg_queue (proc_at p ?t) = msg_queue (proc_at p s)" "msg_count (proc_at p ?t) = msg_count (proc_at p s)" for p
    by (simp_all add: proc_at_set_proc)
  show "msg_used (proc_sleep ms s) = msg_used s" "mailbox (proc_sleep ms s) t = mailbox s t"
    using m r q assms(2) by (simp_all add: proc_sleep_def mailbox_def entries_def msg_at_def)
qed

lemma gives_up_current:
  assumes "gives_up c s s'"
  shows "\<exists>d. current_proc s' = Some d"
proof -
  obtain t where t: "s' = schedule t" "run_inv t" "current_proc t = Some c" using assms by (auto simp: gives_up_def)
  from t(2,3) show ?thesis unfolding t(1) by (cases rule: schedule_cases) (use t(3) in simp_all)
qed

lemma give_back_quiet:
  assumes "c < 64"
  shows "quiet give_back c t"
  unfolding quiet_def
proof (intro allI impI, elim conjE)
  fix s :: "'a ipc_state_scheme"
  assume s: "mail_inv s" "current_proc s = Some c"
  let ?n = "proc_sleep 500 s"
  have ri: "run_inv s" using s(1) by (simp add: mail_inv_def)
  have n: "mail_inv ?n" "same_ids s ?n"
    using s(1) by (simp_all add: mail_inv_def proc_sleep_inv ipc_inv_proc_sleep proc_sleep_ids)
  note m = sleep_messages [OF ri s(2), where ms = 500]
  obtain d where d: "current_proc ?n = Some d"
    using gives_up_current [OF gives_up_sleep [OF ri s(2)]] by blast
  show "\<exists>s'. came_back give_back s ?n = Some s' \<and> mail_inv s' \<and> current_proc s' = Some c \<and> same_ids s s' \<and>
    msg_used s' = msg_used s \<and> mailbox s' t = mailbox s t"
  proof (cases "d = c")
    case True
    then show ?thesis using d n m s(2) by (simp add: came_back_def)
  next
    case False
    have "used c ?n" using n(2) run_invD(1) [OF ri s(2)] assms by (simp add: same_ids_def)
    from give_back_spec [OF n(1) d False assms this, of t] obtain s' where
      "give_back c ?n = Some s'" "mail_inv s'" "current_proc s' = Some c" "same_ids ?n s'"
      "msg_used s' = msg_used ?n" "mailbox s' t = mailbox ?n t" by blast
    then show ?thesis using m s(2) d False same_ids_trans [OF n(2)] by (auto simp: came_back_def)
  qed
qed

text \<open>The first process of \<open>duo\<close> sends to the second.\<close>

theorem sender_delivers_witness:
  "\<exists>s'. proc_sender give_back 0x9000 duo = Some s' \<and> mailbox s' 1 = replicate 3 (1, 0x100, bytes_of ''hello from sender'' @ [0])"
proof -
  have "free_slots duo = {..<128}" by (auto simp: free_slots_def)
  then have "3 \<le> card (free_slots duo)" by simp
  from sender_delivers [OF give_back_quiet _ duo_mail_inv duo_fields(2) duo_find(1) this, of "0x9000"]
  show ?thesis by (simp add: duo_mailbox duo_cur_pid) blast
qed

end
