(* ===== verification/Hardware.thy ===== *)
theory Hardware
  imports Boot_Asm Isr User Device_Props
begin

text \<open>
  The rest of the headers: the primitives of \<^verbatim>\<open>include/arch/x86_64.h\<close> that the components do not
  use themselves, and the constants of \<^verbatim>\<open>types.h\<close>, \<^verbatim>\<open>x86_64.h\<close>, \<^verbatim>\<open>kernel.h\<close>, \<^verbatim>\<open>syscall_num.h\<close> and
  \<^verbatim>\<open>unix_gokan.h\<close>, with what connects them with the code: vectors with the names of exceptions and the
  stubs, selectors with the descriptor table, flags with the frames of user processes, bits of
  registers with \<^verbatim>\<open>boot.asm\<close>.
\<close>

section \<open>Bits and alignment\<close>

definition ALIGN_DOWN :: "u64 \<Rightarrow> u64 \<Rightarrow> u64" where "ALIGN_DOWN x a = x AND NOT (a - 1)"
definition PAGE_MASK :: u64 where "PAGE_MASK = NOT (PAGE_SIZE - 1)"
definition SET_BIT :: "u64 \<Rightarrow> nat \<Rightarrow> u64" where "SET_BIT x n = x OR BIT_ULL n"
definition CLR_BIT :: "u64 \<Rightarrow> nat \<Rightarrow> u64" where "CLR_BIT x n = x AND NOT (BIT_ULL n)"
definition TEST_BIT :: "u64 \<Rightarrow> nat \<Rightarrow> bool" where "TEST_BIT x n \<longleftrightarrow> x AND BIT_ULL n \<noteq> 0"

lemma unat_ALIGN_DOWN: "unat (ALIGN_DOWN x (2 ^ k)) = unat x div 2 ^ k * 2 ^ k"
  by (simp add: ALIGN_DOWN_def unat_and_not_mask flip: mask_eq_exp_minus_1)

lemma align_between: "unat x + 2 ^ k \<le> 2 ^ 64 \<Longrightarrow> ALIGN_DOWN x (2 ^ k) \<le> x \<and> x \<le> ALIGN_UP x (2 ^ k)"
proof -
  assume a: "unat x + 2 ^ k \<le> 2 ^ 64"
  then have k: "(2 :: nat) ^ k \<le> 2 ^ 64" by simp
  have "unat (ALIGN_UP x (2 ^ k)) = (unat x + (2 ^ k - 1)) div 2 ^ k * 2 ^ k"
  proof (cases "k < 64")
    case True
    then show ?thesis using unat_ALIGN_UP [of "2 ^ k" k x] a by (simp add: unat_2p)
  next
    case False
    with k have "k = 64" using power_increasing_iff [of "2 :: nat" k 64] by simp
    with a have "unat x = 0" by simp
    then show ?thesis using \<open>k = 64\<close> by (simp add: ALIGN_UP_def unat_eq_0)
  qed
  moreover have "unat x \<le> (unat x + (2 ^ k - 1)) div 2 ^ k * 2 ^ k"
  proof -
    define d :: nat where "d = 2 ^ k - 1"
    have p: "2 ^ k = Suc d" by (simp add: d_def)
    have "(unat x + d) mod Suc d \<le> d" by (metis less_Suc_eq_le mod_less_divisor zero_less_Suc)
    then show ?thesis unfolding p diff_Suc_1 using div_mult_mod_eq [of "unat x + d" "Suc d"] by linarith
  qed
  ultimately show ?thesis by (simp add: word_le_nat_alt unat_ALIGN_DOWN)
qed

lemma TEST_BIT_eq: "TEST_BIT x n = bit x n"
  by (simp add: TEST_BIT_def BIT_ULL_def push_bit_of_1 and_exp_eq_0_iff_not_bit)

lemma bits_set_and_cleared:
  assumes "n < 64"
  shows "TEST_BIT (SET_BIT x n) m \<longleftrightarrow> m = n \<or> TEST_BIT x m" "TEST_BIT (CLR_BIT x n) m \<longleftrightarrow> m \<noteq> n \<and> TEST_BIT x m"
  using assms bit_imp_le_length [of x m]
  by (auto simp: TEST_BIT_eq SET_BIT_def CLR_BIT_def BIT_ULL_def bit_simps)

section \<open>Instructions\<close>

text \<open>Flushing all translations; as they are not cached here, the registers are as before.\<close>

definition tlb_flush_all :: "control_regs \<Rightarrow> control_regs" where
  "tlb_flush_all c = write_cr3 (read_cr3 c) c"

lemma tlb_flush_all_eq: "tlb_flush_all c = c"
  by (simp add: tlb_flush_all_def read_cr3_def write_cr3_def)

text \<open>Writes of words to ports, in order, as the console has those of bytes.\<close>

record word_ports =
  word_outs :: "(u16 \<times> u16) list"

definition outw :: "u16 \<Rightarrow> u16 \<Rightarrow> word_ports \<Rightarrow> word_ports" where
  "outw port val c = c\<lparr>word_outs := word_outs c @ [(port, val)]\<rparr>"

text \<open>The time stamp comes in two halves.\<close>

definition rdtsc :: "u64 \<Rightarrow> u64" where
  "rdtsc counter = (let lo = ucast counter :: u32; hi = ucast (drop_bit 32 counter) :: u32
     in push_bit 32 (ucast hi) OR ucast lo)"

lemma rdtsc_eq: "rdtsc counter = counter"
  by (simp only: rdtsc_def Let_def halves)

section \<open>Model-specific registers and flags\<close>

abbreviation MSR_EFER :: u32 where "MSR_EFER \<equiv> 0xC0000080"
abbreviation MSR_STAR :: u32 where "MSR_STAR \<equiv> 0xC0000081"
abbreviation MSR_LSTAR :: u32 where "MSR_LSTAR \<equiv> 0xC0000082"
abbreviation MSR_SFMASK :: u32 where "MSR_SFMASK \<equiv> 0xC0000084"
definition EFER_SCE :: u64 where "EFER_SCE = BIT_ULL 0"
definition EFER_LME :: u64 where "EFER_LME = BIT_ULL 8"

text \<open>\<^verbatim>\<open>boot.asm\<close> turns long mode on and leaves every other bit and register alone: a system call by the \<^verbatim>\<open>syscall\<close>
  instruction is as impossible as before, and its target registers are not set.\<close>

lemma boot_leaves_syscall:
  assumes "boot_start P S eax ebx c m = Inr h"
  shows "rdmsr MSR_EFER (h_regs h) = rdmsr MSR_EFER c OR EFER_LME"
    "rdmsr MSR_EFER (h_regs h) AND EFER_SCE = rdmsr MSR_EFER c AND EFER_SCE"
    "r \<in> {MSR_STAR, MSR_LSTAR, MSR_SFMASK} \<Longrightarrow> rdmsr r (h_regs h) = rdmsr r c"
proof -
  obtain c1 m1 where sp: "setup_paging S (c, m) = (c1, m1)" by fastforce
  have c1: "c_msr c1 = c_msr c" using sp by (auto simp: setup_paging_def Let_def write_cr3_def write_cr4_def)
  have m: "c_msr (h_regs h) = (c_msr c)(0xC0000080 := c_msr c 0xC0000080 OR push_bit 8 1)"
    using assms sp c1 by (auto simp: boot_start_def Let_def wrmsr_eq rdmsr_eq write_cr0_def split: if_splits)
  show e: "rdmsr MSR_EFER (h_regs h) = rdmsr MSR_EFER c OR EFER_LME" by (simp add: rdmsr_eq m EFER_LME_def BIT_ULL_def)
  show "rdmsr MSR_EFER (h_regs h) AND EFER_SCE = rdmsr MSR_EFER c AND EFER_SCE"
    unfolding e by (rule bit_word_eqI) (auto simp: EFER_LME_def EFER_SCE_def BIT_ULL_def bit_simps)
  show "rdmsr r (h_regs h) = rdmsr r c" if "r \<in> {MSR_STAR, MSR_LSTAR, MSR_SFMASK}"
    using that by (auto simp: rdmsr_eq m)
qed

definition RFLAGS_IF :: u64 where "RFLAGS_IF = BIT_ULL 9"
definition RFLAGS_IOPL :: u64 where "RFLAGS_IOPL = BIT_ULL 12 OR BIT_ULL 13"

text \<open>A user process starts with interrupts enabled and without the right to use ports.\<close>

lemma user_flags: "if_rflags (enter_user_mode a b c) AND RFLAGS_IF \<noteq> 0" "if_rflags (enter_user_mode a b c) AND RFLAGS_IOPL = 0"
  by (simp_all add: enter_user_mode_def RFLAGS_IF_def RFLAGS_IOPL_def BIT_ULL_def)

section \<open>Selectors\<close>

abbreviation GDT_KERNEL_DATA :: u16 where "GDT_KERNEL_DATA \<equiv> 0x10"
abbreviation GDT_USER_CODE32 :: u16 where "GDT_USER_CODE32 \<equiv> 0x18"
abbreviation GDT_USER_DATA :: u16 where "GDT_USER_DATA \<equiv> 0x20"
abbreviation GDT_USER_CODE64 :: u16 where "GDT_USER_CODE64 \<equiv> 0x28"
abbreviation GDT_TSS :: u16 where "GDT_TSS \<equiv> 0x30"
definition SEL_USER_CODE :: u16 where "SEL_USER_CODE = GDT_USER_CODE64 OR 3"
definition SEL_USER_DATA :: u16 where "SEL_USER_DATA = GDT_USER_DATA OR 3"
abbreviation GDT_USER_CODE :: u16 where "GDT_USER_CODE \<equiv> 0x1B"

text \<open>The names of \<^verbatim>\<open>kernel.h\<close> are those of the table; \<^verbatim>\<open>GDT_USER_CODE\<close> of \<^verbatim>\<open>x86_64.h\<close>, which the entry to user
  mode uses, is the 32-bit segment.\<close>

lemma selectors_name_segments:
  assumes "length (gdt s) = GDT_NORMAL_ENTRIES"
  shows "let g = gdt (gdt_init s) in
    entry_long (selected SEL_USER_CODE g) \<and> entry_dpl (selected SEL_USER_CODE g) = 3 \<and>
    entry_dpl (selected SEL_USER_DATA g) = 3 \<and> entry_dpl (selected GDT_KERNEL_DATA g) = 0 \<and>
    \<not> entry_long (selected GDT_USER_CODE g) \<and> selected GDT_USER_CODE g = selected GDT_USER_CODE32 g \<and>
    if_cs (enter_user_mode a b c) = ucast GDT_USER_CODE \<and> if_ss (enter_user_mode a b c) = ucast SEL_USER_DATA"
    "task_reg (gdt_init s) = GDT_TSS" "seg_data (gdt_init s) = GDT_KERNEL_DATA" "seg_cs (gdt_init s) = GDT_KERNEL_CODE"
  unfolding gdt_init_entries [OF assms] Let_def
  by (simp_all add: segment_simps SEL_USER_CODE_def SEL_USER_DATA_def enter_user_mode_def bit_numeral_rec)
    (simp_all add: gdt_init_def Let_def kprintf_def)

section \<open>Interrupt vectors\<close>

abbreviation IDT_DIVIDE_ERROR :: u64 where "IDT_DIVIDE_ERROR \<equiv> 0"
abbreviation IDT_DEBUG :: u64 where "IDT_DEBUG \<equiv> 1"
abbreviation IDT_NMI :: u64 where "IDT_NMI \<equiv> 2"
abbreviation IDT_BREAKPOINT :: u64 where "IDT_BREAKPOINT \<equiv> 3"
abbreviation IDT_OVERFLOW :: u64 where "IDT_OVERFLOW \<equiv> 4"
abbreviation IDT_BOUND :: u64 where "IDT_BOUND \<equiv> 5"
abbreviation IDT_INVALID_OPCODE :: u64 where "IDT_INVALID_OPCODE \<equiv> 6"
abbreviation IDT_DEVICE_NA :: u64 where "IDT_DEVICE_NA \<equiv> 7"
abbreviation IDT_DOUBLE_FAULT :: u64 where "IDT_DOUBLE_FAULT \<equiv> 8"
abbreviation IDT_INVALID_TSS :: u64 where "IDT_INVALID_TSS \<equiv> 10"
abbreviation IDT_SEGMENT_NP :: u64 where "IDT_SEGMENT_NP \<equiv> 11"
abbreviation IDT_STACK_FAULT :: u64 where "IDT_STACK_FAULT \<equiv> 12"
abbreviation IDT_GPF :: u64 where "IDT_GPF \<equiv> 13"
abbreviation IDT_FPU_ERROR :: u64 where "IDT_FPU_ERROR \<equiv> 16"
abbreviation IDT_ALIGNMENT :: u64 where "IDT_ALIGNMENT \<equiv> 17"
abbreviation IDT_MACHINE_CHECK :: u64 where "IDT_MACHINE_CHECK \<equiv> 18"
abbreviation IDT_SIMD_ERROR :: u64 where "IDT_SIMD_ERROR \<equiv> 19"
abbreviation IDT_SYSCALL :: u64 where "IDT_SYSCALL \<equiv> 0x80"
definition IDT_TIMER :: u64 where "IDT_TIMER = IDT_IRQ_BASE + 0"
definition IDT_KEYBOARD :: u64 where "IDT_KEYBOARD = IDT_IRQ_BASE + 1"

text \<open>The names printed for exceptions are those of their vectors, and the stubs expect an error code for
  exactly the exceptions that have one.\<close>

lemma exception_vectors:
  "map (\<lambda>v. exception_names ! unat v) [IDT_DIVIDE_ERROR, IDT_DEBUG, IDT_NMI, IDT_BREAKPOINT, IDT_OVERFLOW, IDT_BOUND,
      IDT_INVALID_OPCODE, IDT_DEVICE_NA, IDT_DOUBLE_FAULT, IDT_INVALID_TSS, IDT_SEGMENT_NP, IDT_STACK_FAULT, IDT_GPF,
      IDT_PAGE_FAULT, IDT_FPU_ERROR, IDT_ALIGNMENT, IDT_MACHINE_CHECK, IDT_SIMD_ERROR] =
    [''Divide Error'', ''Debug'', ''NMI'', ''Breakpoint'', ''Overflow'', ''Bound Range'', ''Invalid Opcode'',
      ''Device Not Available'', ''Double Fault'', ''Invalid TSS'', ''Segment Not Present'', ''Stack Fault'',
      ''General Protection'', ''Page Fault'', ''FPU Error'', ''Alignment Check'', ''Machine Check'', ''SIMD Error'']"
  by (simp add: exception_names_def)

lemma error_code_vectors:
  "has_error_code v \<longleftrightarrow> v \<in> {IDT_DOUBLE_FAULT, IDT_INVALID_TSS, IDT_SEGMENT_NP, IDT_STACK_FAULT, IDT_GPF, IDT_PAGE_FAULT, IDT_ALIGNMENT}"
  by (simp add: has_error_code_def)

text \<open>The timer's vector drives the scheduler; a key that is pressed is only acknowledged, and never read.\<close>

lemma device_vectors:
  "int_no fr = IDT_TIMER \<Longrightarrow> interrupt_dispatch resume fr s =
     map_option (\<lambda>s1. Inr (fr, pic_send_eoi 0 s1)) (came_back resume s (timer_irq s))"
  "int_no fr = IDT_KEYBOARD \<Longrightarrow> interrupt_dispatch resume fr s = Some (Inr (fr, pic_send_eoi 1 s))"
  by (simp_all add: interrupt_dispatch_def IDT_TIMER_def IDT_KEYBOARD_def Let_def)

section \<open>Page tables and addresses\<close>

definition PTE_WRITETHROUGH :: u64 where "PTE_WRITETHROUGH = BIT_ULL 3"
definition PTE_NOCACHE :: u64 where "PTE_NOCACHE = BIT_ULL 4"
definition PTE_ACCESSED :: u64 where "PTE_ACCESSED = BIT_ULL 5"
definition PTE_DIRTY :: u64 where "PTE_DIRTY = BIT_ULL 6"
definition PTE_HUGE :: u64 where "PTE_HUGE = BIT_ULL 7"
definition PTE_GLOBAL :: u64 where "PTE_GLOBAL = BIT_ULL 8"
definition PTE_NX :: u64 where "PTE_NX = BIT_ULL 63"
abbreviation KERNEL_HEAP :: u64 where "KERNEL_HEAP \<equiv> 0xFFFFFF8000000000"
abbreviation USER_MAX :: u64 where "USER_MAX \<equiv> 0x0000800000000000"

lemmas pte_flag_defs = PTE_WRITETHROUGH_def PTE_NOCACHE_def PTE_ACCESSED_def PTE_DIRTY_def PTE_HUGE_def PTE_GLOBAL_def PTE_NX_def

text \<open>No flag lies in the address of an entry.\<close>

lemma pte_flags_beside_address:
  "f \<in> {PTE_PRESENT, PTE_WRITABLE, PTE_USER, PTE_WRITETHROUGH, PTE_NOCACHE, PTE_ACCESSED, PTE_DIRTY, PTE_HUGE, PTE_GLOBAL, PTE_NX}
    \<Longrightarrow> f AND PTE_ADDR_MASK = 0"
  by (auto simp: pte_flag_defs BIT_ULL_def)

text \<open>The user's addresses are in the lower half of the top table, which a new page directory has empty; the
  kernel's base and its heap are in the last entry, which all directories share.\<close>

lemma address_halves: "va < USER_MAX \<Longrightarrow> PML4_IDX va < 256" "PML4_IDX KERNEL_BASE = 511" "PML4_IDX KERNEL_HEAP = 511"
proof -
  show "PML4_IDX va < 256" if "va < USER_MAX"
  proof -
    have "unat va < 2 ^ 47" using that by (simp add: word_less_nat_alt)
    moreover have "unat (drop_bit 39 va) = unat va div 2 ^ 39" by (subst unat_drop_bit_eq) (simp only: drop_bit_eq_div)
    ultimately have "unat (drop_bit 39 va) < 256" by (simp add: less_mult_imp_div_less)
    then show ?thesis using word_and_le1 [of "drop_bit 39 va" "0x1FF"]
      by (simp add: PML4_IDX_def word_less_nat_alt) (meson le_less_trans word_and_le2 word_le_nat_alt)
  qed
  show "PML4_IDX KERNEL_BASE = 511" "PML4_IDX KERNEL_HEAP = 511" by (simp_all add: PML4_IDX_def)
qed

section \<open>System-call numbers\<close>

abbreviation SYS_READ :: u64 where "SYS_READ \<equiv> 3"
abbreviation SYS_OPEN :: u64 where "SYS_OPEN \<equiv> 5"
abbreviation SYS_CLOSE :: u64 where "SYS_CLOSE \<equiv> 6"
abbreviation SYS_LSEEK :: u64 where "SYS_LSEEK \<equiv> 19"
abbreviation SYS_SPAWN :: u64 where "SYS_SPAWN \<equiv> 250"
abbreviation SYS_WAITPID :: u64 where "SYS_WAITPID \<equiv> 251"
abbreviation SYS_GETDENTS :: u64 where "SYS_GETDENTS \<equiv> 252"
abbreviation SYS_SBRK :: u64 where "SYS_SBRK \<equiv> 253"

text \<open>The numbers the programs' header has, in its order.\<close>

definition user_numbers :: "u64 list" where
  "user_numbers = [1, 3, 4, 5, 6, 19, 20, 64, 24, 162, 200, 201, 250, 251, 252, 253]"

lemma user_numbers_agree:
  "user_numbers = [SYS_EXIT, SYS_READ, SYS_WRITE, SYS_OPEN, SYS_CLOSE, SYS_LSEEK, SYS_GETPID, SYS_GETPPID, SYS_YIELD, SYS_SLEEP,
    SYS_IPC_SEND, SYS_IPC_RECV, SYS_SPAWN, SYS_WAITPID, SYS_GETDENTS, SYS_SBRK]"
  by (simp add: user_numbers_def)

text \<open>Half of them are served; the others get \<open>- ENOSYS\<close> and change nothing but the console.\<close>

lemma unserved_numbers:
  "num \<in> {SYS_READ, SYS_OPEN, SYS_CLOSE, SYS_LSEEK, SYS_SPAWN, SYS_WAITPID, SYS_GETDENTS, SYS_SBRK}
    \<Longrightarrow> \<exists>d. syscall_handler resume num a1 a2 a3 a4 s = Some (- 38, s\<lparr>con := d\<rparr>)"
  by (rule unknown_syscall) auto

end
