(* ===== verification/Spec2Isabelle.thy ===== *)
theory Spec2Isabelle
  imports Memory_Props Process_Props Message_Props Initrd_Props Boot_Props Elf_Props User_Process Device_Props User Isr Proc_Entry Boot_Asm Page_Directories
    Fairness Test_Procs Hardware
begin

text \<open>
  \<^bold>\<open>A model of the colix kernel.\<close>

  colix is a small x86-64 kernel in C.  The boot loader starts \<^verbatim>\<open>boot.asm\<close>, which checks the processor, builds
  page tables for the first two megabytes and enters long mode; it calls \<^verbatim>\<open>kernel_main\<close>, which sets up the console,
  the descriptor tables and the timer, the physical and virtual memory managers and the kernel heap, the
  process table, and the initial ramdisk; it creates the idle process, tries to load \<^verbatim>\<open>bin/sh\<close> from the
  ramdisk, enables interrupts and idles.  From then on the kernel acts on timer interrupts and on system
  calls through \<^verbatim>\<open>int 0x80\<close>: a round-robin scheduler, sleeping, and message passing between processes.

  \<^bold>\<open>State.\<close>  The static variables of the C files are records, each extending the one below it, so that an
  operation's type shows the most it can touch:
  \<open>con_state\<close> (console), \<open>pmm_state\<close>, \<open>heap_state\<close>, \<open>vmm_state\<close> (memory and page tables), \<open>arch_state\<close>
  (descriptor tables, interrupt flag), \<open>sched_state\<close> (processes), \<open>ipc_state\<close> (messages), \<open>kern_state\<close>
  (file table).  Machine integers are words of their width.  Memory is a map from 64-bit addresses to
  bytes; it is indexed by the addresses the kernel uses, which the page table maps to themselves: the first
  two megabytes from the start (\<open>boot_asm_correct\<close>), the region of the page allocator after \<^verbatim>\<open>vmm_init\<close>
  (\<open>vmm_init_correct\<close>).  That an access stays within them is not checked.
  Addresses for which that is not so, \<^verbatim>\<open>pa + KERNEL_BASE\<close> in \<^verbatim>\<open>proc_create_elf\<close> and the addresses an ELF
  file asks for, are looked up in the active page table and fault when they are not mapped.
  Pointers to static objects are indices, with \<open>None\<close> for NULL.

  \<^bold>\<open>Results.\<close>  \<open>Inl (Panic msg)\<close> is a call of \<^verbatim>\<open>panic\<close>, after which the machine halts.  \<open>None\<close> is a loop that
  does not end, or, for a system call, a process that is never resumed: \<open>resume\<close>, a parameter, is the state
  in which a process that gave up the processor finds itself again.  No fuel is used; loops that may not
  end are \<^theory_text>\<open>partial_function\<close>s, and the theorems say when they end.

  \<^bold>\<open>Theories.\<close>

  \<^item> Prelude: words, bytes in memory, little-endian loads and stores, counted loops, results.
  \<^item> Interfaces: the contracts of the allocators and of the message service as locales
    (\<open>page_allocator\<close>, \<open>block_allocator\<close> and \<open>reusing_allocator\<close>, \<open>mail_service\<close>) with the lemmas their clients need; interpreted in
    Pmm, Kheap and Ipc.
  \<^item> Console: \<^verbatim>\<open>kernel/lib/serial.c\<close>, \<^verbatim>\<open>kernel/arch/x86_64/vga.c\<close>, \<^verbatim>\<open>kprintf\<close>.
  \<^item> Pmm: \<^verbatim>\<open>kernel/mm/pmm.c\<close>, the page bitmap, its invariant \<open>pmm_inv\<close> and its set of free pages.
  \<^item> Kheap: \<^verbatim>\<open>kmalloc\<close> and \<^verbatim>\<open>kfree\<close> of \<^verbatim>\<open>kernel/mm/vmm.c\<close>, and three conditions its blocks can be in; block headers are
    kept apart from memory, as a map from their addresses.
  \<^item> Vmm: the page-table code of \<^verbatim>\<open>kernel/mm/vmm.c\<close>.  Paging: the four-level tree in memory, \<open>pte\<close> and
    \<open>tables\<close>.  Mapping_Spec: the invariant \<open>vm_inv\<close> and what \<^verbatim>\<open>vmm_map\<close> does to the translation function.
    Address_Space: separation of address spaces, \<^verbatim>\<open>vmm_init\<close>.  Table_Budget: how many pages
    \<^verbatim>\<open>vmm_init\<close> needs: 1024 for the heap, and 514 tables below one gigabyte (one directory pointer
    table, one directory, 512 page tables).  Page_Directories: \<^verbatim>\<open>vmm_new_pagedir\<close> and \<^verbatim>\<open>vmm_free_pagedir\<close>.
  \<^item> Arch: \<^verbatim>\<open>gdt.c\<close>, \<^verbatim>\<open>idt.c\<close>, \<^verbatim>\<open>pic_pit.c\<close>, \<^verbatim>\<open>panic\<close>.
  \<^item> Proc: \<^verbatim>\<open>kernel/proc/proc.c\<close>, \<^verbatim>\<open>switch_context\<close>, the entry to user mode.  Sched: invariants of the
    process table, the scheduler's choice, round robin, time slices.  Proc_Elf: \<^verbatim>\<open>proc_create_elf\<close>.
  \<^item> Fairness: how long a process waits for the processor.  Test_Procs: the test processes of \<^verbatim>\<open>kernel/main.c\<close>.
  \<^item> Ipc: \<^verbatim>\<open>kernel/ipc/ipc.c\<close>, its linked queues, and the mailbox (a list of letters) each refines.
  \<^item> Syscall: \<^verbatim>\<open>kernel/proc/syscall.c\<close>, \<^verbatim>\<open>interrupt_dispatch\<close>, and the kernel as a transition system
    \<open>kstep\<close> with its invariant \<open>kernel_inv\<close>.
  \<^item> Initial: the static data at boot, and a small machine on which the theorems are tried.
  \<^item> Initrd: \<^verbatim>\<open>kernel/initrd.c\<close>.  Cpio: the archive format as an encoder, and that the scan inverts it.
  \<^item> Elf: \<^verbatim>\<open>kernel/elf_loader.c\<close>, \<^verbatim>\<open>include/elf.h\<close>, \<^verbatim>\<open>include/elf64.h\<close>.
  \<^item> Boot: \<^verbatim>\<open>kernel/main.c\<close>.  Boot_Spec: multiboot information as a list of tags.  Boot_Flow: what each stage
    of \<^verbatim>\<open>kernel_main\<close> leaves for the next.
  \<^item> User: \<^verbatim>\<open>unix_gokan.h\<close> and \<^verbatim>\<open>sh.c\<close>.
  \<^item> C_Layout: how the compiler lays out structures, and the structures that assembly code, the processor
    or a file format read.
  \<^item> Isr: \<^verbatim>\<open>isr_stub.asm\<close> as instruction lists.  Proc_Entry: \<^verbatim>\<open>proc_entry.asm\<close>.  Boot_Asm: \<^verbatim>\<open>boot/boot.asm\<close> and the
    accessors of control registers in \<^verbatim>\<open>x86_64.h\<close>.  Hardware: the other primitives and the constants of the headers.
  \<^item> Elf_Segment: the bytes a loaded segment leaves where its pages are mapped.
  \<^item> Memory_Props, Process_Props, Message_Props, Initrd_Props, Boot_Props, Elf_Props, User_Process,
    Device_Props, User, Fairness, Test_Procs: the properties, each with an instance on a concrete state.

  \<^bold>\<open>What is shown.\<close>  The page allocator never hands out a page twice and loses none; the heap's blocks do not
  overlap; \<^verbatim>\<open>vmm_map\<close> and \<^verbatim>\<open>vmm_unmap\<close> change the translation of one page and no other, also in other
  address spaces; \<^verbatim>\<open>vmm_init\<close> succeeds and maps what it should; a new page directory shares the kernel's half,
  and giving it back frees its tables and no more.  Every kernel operation keeps the invariant
  of the process table, the message queues and the heap; the scheduler picks the next READY process in
  cyclic order, every READY process gets the processor within ten timer interrupts for each place it is
  behind, whatever the others do, a sleeper wakes when its time is up and then runs, and a context that is
  saved is restored.  Message queues are first in, first out, and \<^verbatim>\<open>ipc_recv\<close> returns when there is a
  message; the test sender's messages arrive.  The ramdisk scan ends on any input and inverts the archive format.
  The system boots: from what the loader leaves, \<^verbatim>\<open>boot.asm\<close> hands over to \<^verbatim>\<open>kernel_main\<close>, which reaches its idle
  loop with the invariant established, for a ramdisk without a \<^verbatim>\<open>bin/sh\<close> that the ELF loader accepts.
  An interrupt returns to the code it interrupted with all registers as they were, or with the result of a system call.  A new process runs
  its function and ends.  The structures that C and assembly share have the same layout in both.
  The descriptor tables mean what they should, numbers are printed as they are, and text without tabs
  stays on the screen.  Some theorems are about what does not work: the ELF loader and
  \<^verbatim>\<open>proc_create_elf\<close> fault, the entry to user mode has stack pointer 0 and a 32-bit code segment,
  \<^verbatim>\<open>proc_exit\<close> may return, the timer interrupt is acknowledged too late, a multiboot tag of size 0 hangs the
  start, \<^verbatim>\<open>initrd_read\<close> overflows, and the first switch to a process writes past its stack.

  \<^bold>\<open>Not modelled.\<close>  The compiled C code that the assembly calls is a parameter there (\<open>h\<close> in \<open>isr_run\<close>, \<open>code\<close> in
  \<open>proc_entry\<close>), and the C model takes the addresses of stubs and tables as parameters.  The C stack and return
  addresses on it.  That the processor clears the interrupt flag on entry to a gate, caches translations and
  checks access rights.  The answers of devices are arguments (\<open>lsr\<close>, \<open>inb\<close>).  Addresses in \<^verbatim>\<open>kprintf\<close> trace
  lines that only the linker knows are arguments too.  Headers of the heap are not bytes in memory: of the
  stores that can hit one, the model has \<^verbatim>\<open>kmalloc\<close>'s, \<^verbatim>\<open>kfree\<close>'s and the one of \<^verbatim>\<open>switch_context\<close> that lands on a
  header (\<open>store_over_header\<close>); a program loaded over the heap would overwrite more.  Reads from ports are answers of
  devices, and \<^verbatim>\<open>hlt\<close> changes no state here.  Headers without an implementation: \<^verbatim>\<open>keyboard.h\<close>,
  \<^verbatim>\<open>user_enter.h\<close>; prototypes of functions that no file defines (\<^verbatim>\<open>proc_create_user\<close>, \<^verbatim>\<open>proc_waitpid\<close>,
  \<^verbatim>\<open>enter_usermode\<close>, \<^verbatim>\<open>elf_load\<close>).

  \<^bold>\<open>Open.\<close>  That every address \<^verbatim>\<open>kernel_main\<close> reads or writes is mapped when it does, which does not hold for the pages of
  the allocator in the heap's range (\<open>vmm_init_breaks_identity\<close>) nor for the information of a loader that
  places it above two megabytes; and with it the start with a \<^verbatim>\<open>bin/sh\<close> that the loader accepts: the shell is linked
  at the start of the heap, and what loading it does depends on the bytes of headers and tables there.
\<close>

end
